(* ===== verification/Dart_Prelude.thy ===== *)
theory Dart_Prelude
  imports Main "HOL-Library.Word" "HOL-Library.Monad_Syntax"
begin

text \<open>
  Shared material of the development: the machine types of the VM, the named
  collections of facts, and the generic lemmas on words and lists that the
  component theories use.

  The VM's fixed-width unsigned integers are words: \<open>uint8_t\<close>, \<open>uint32_t\<close> and
  \<open>uint64_t\<close> are \<open>uint8\<close>, \<open>uint32\<close> and \<open>uint64\<close> below; \<open>int64_t\<close> and, on the 64-bit build that the
  development models, \<open>intptr_t\<close> are the same words read with \<open>sint\<close>. Shifts and masks of the
  source are \<open>drop_bit\<close>, \<open>push_bit\<close>, \<open>AND\<close>, \<open>OR\<close>, \<open>XOR\<close> and \<open>NOT\<close>; the collection
  \<open>word_nat\<close> moves them to arithmetic on \<open>nat\<close>.
\<close>

unbundle bit_operations_syntax

type_synonym uint8 = "8 word"
type_synonym uint32 = "32 word"
type_synonym uint64 = "64 word"
type_synonym int64 = "64 word"

named_theorems word_nat \<open>word operations read as arithmetic on natural numbers\<close>

subsection \<open>Words read as natural numbers\<close>

lemma unat_and_mask [word_nat]: "unat (w AND mask n) = unat w mod 2 ^ n"
  for w :: "'a::len word"
  unfolding take_bit_eq_mask [symmetric] unsigned_take_bit_eq by (rule take_bit_eq_mod)

lemma unat_drop_bit [word_nat]: "unat (drop_bit n w) = unat w div 2 ^ n"
  for w :: "'a::len word"
  by (metis drop_bit_eq_div unat_drop_bit_eq)

lemma unat_push_bit [word_nat]: "unat (push_bit n w) = (unat w * 2 ^ n) mod 2 ^ LENGTH('a)"
  for w :: "'a::len word"
  unfolding unsigned_push_bit_eq by (simp only: take_bit_eq_mod push_bit_eq_mult)

lemma unat_less: "unat w < 2 ^ LENGTH('a)"
  for w :: "'a::len word"
  by (rule unsigned_less)

lemma unat_ucast_mod [word_nat]: "unat (ucast w :: 'b::len word) = unat w mod 2 ^ LENGTH('b)"
  for w :: "'a::len word"
  by (simp add: unsigned_ucast_eq take_bit_eq_mod)

lemma unat_ucast_no_wrap: "unat w < 2 ^ LENGTH('b) \<Longrightarrow> unat (ucast w :: 'b::len word) = unat w"
  for w :: "'a::len word"
  by (simp add: unat_ucast_mod)

lemma unat_minus_1: "unat (- 1 :: 'a::len word) = 2 ^ LENGTH('a) - 1"
  by (simp add: unsigned_minus_1_eq_mask mask_eq_exp_minus_1)

lemma unat_add_no_wrap [word_nat]:
  "unat a + unat b < 2 ^ LENGTH('a) \<Longrightarrow> unat (a + b) = unat a + unat b"
  for a b :: "'a::len word"
  by (simp add: unat_word_ariths)

lemma unat_mult_no_wrap [word_nat]:
  "unat a * unat b < 2 ^ LENGTH('a) \<Longrightarrow> unat (a * b) = unat a * unat b"
  for a b :: "'a::len word"
  by (simp add: unat_word_ariths)

subsection \<open>Signed words\<close>

lemma sint_uint_cases:
  "sint w = (if uint w < 2 ^ (LENGTH('a) - 1) then uint w else uint w - 2 ^ LENGTH('a))"
  for w :: "'a::len word"
proof -
  have len: "LENGTH('a) = Suc (LENGTH('a) - 1)" by simp
  have lt: "uint w < 2 * 2 ^ (LENGTH('a) - 1)" using uint_lt2p [of w] len by (metis power_Suc)
  have tb: "take_bit LENGTH('a) (uint w) = uint w" by (simp add: take_bit_int_eq_self)
  have "bit (uint w) (LENGTH('a) - 1) \<longleftrightarrow> odd (uint w div 2 ^ (LENGTH('a) - 1))"
    by (rule bit_iff_odd)
  also have "\<dots> \<longleftrightarrow> \<not> uint w < 2 ^ (LENGTH('a) - 1)"
  proof (cases "uint w < 2 ^ (LENGTH('a) - 1)")
    case False
    then have "uint w div 2 ^ (LENGTH('a) - 1) = 1" using lt by (intro int_div_pos_eq [of _ _ _ "uint w - 2 ^ (LENGTH('a) - 1)"]) simp_all
    then show ?thesis using False by simp
  qed simp
  finally have b: "bit (uint w) (LENGTH('a) - 1) \<longleftrightarrow> \<not> uint w < 2 ^ (LENGTH('a) - 1)" .
  have "sint w = signed_take_bit (LENGTH('a) - 1) (uint w)" by (simp add: sint_uint)
  also have "\<dots> = uint w - 2 ^ LENGTH('a) * of_bool (bit (uint w) (LENGTH('a) - 1))"
    unfolding signed_take_bit_eq_take_bit_minus using tb len by simp
  finally show ?thesis using b by simp
qed

lemma uint_eq_sint: "0 \<le> sint w \<Longrightarrow> uint w = sint w"
  for w :: "'a::len word"
  by (metis sint_uint_cases uint_lt2p diff_ge_0_iff_ge not_le)

lemma signed_drop_bit_nonneg: "0 \<le> sint w \<Longrightarrow> signed_drop_bit n w = drop_bit n w"
  for w :: "'a::len word"
proof -
  assume w: "0 \<le> sint w"
  have "sint (signed_drop_bit n w) = drop_bit n (sint w)" by (rule sint_signed_drop_bit_eq)
  then have "uint (signed_drop_bit n w) = drop_bit n (uint w)"
    using w uint_eq_sint [of w] uint_eq_sint [of "signed_drop_bit n w"] by simp
  then show ?thesis by (simp add: word_uint_eq_iff unsigned_drop_bit_eq take_bit_int_eq_self)
qed

lemma sint_add_no_wrap:
  "- (2 ^ (LENGTH('a) - 1)) \<le> sint a + sint b \<Longrightarrow> sint a + sint b < 2 ^ (LENGTH('a) - 1) \<Longrightarrow>
   sint (a + b) = sint a + sint b" for a b :: "'a::len word"
  by (simp add: sint_word_ariths signed_take_bit_int_eq_self)

lemma sint_diff_no_wrap:
  "- (2 ^ (LENGTH('a) - 1)) \<le> sint a - sint b \<Longrightarrow> sint a - sint b < 2 ^ (LENGTH('a) - 1) \<Longrightarrow>
   sint (a - b) = sint a - sint b" for a b :: "'a::len word"
  by (simp add: sint_word_ariths signed_take_bit_int_eq_self)

lemma sint_mult_no_wrap:
  "- (2 ^ (LENGTH('a) - 1)) \<le> sint a * sint b \<Longrightarrow> sint a * sint b < 2 ^ (LENGTH('a) - 1) \<Longrightarrow>
   sint (a * b) = sint a * sint b" for a b :: "'a::len word"
  by (simp add: sint_word_ariths signed_take_bit_int_eq_self)

lemma sint_of_int_no_wrap:
  "- (2 ^ (LENGTH('a) - 1)) \<le> k \<Longrightarrow> k < 2 ^ (LENGTH('a) - 1) \<Longrightarrow> sint (word_of_int k :: 'a::len word) = k"
  by (simp add: signed_of_int signed_take_bit_int_eq_self)

subsection \<open>Arithmetic\<close>

lemma no_carry: "d + p * u = v \<Longrightarrow> v < p \<Longrightarrow> u = 0" for d p u v :: nat
  by (cases u) auto

lemma lex_less:
  fixes a b x y m :: nat
  assumes "a < m" "b < m"
  shows "a + m * x < b + m * y \<longleftrightarrow> x < y \<or> x = y \<and> a < b"
proof -
  have less: "c + m * u < d + m * v" if "u < v" "c < m" for c d u v
  proof -
    have "m * (u + 1) \<le> m * v" using that(1) by (intro mult_le_mono2) simp
    then show ?thesis using that(2) by simp
  qed
  consider "x < y" | "y < x" | "x = y" by linarith
  then show ?thesis
  proof cases
    case 2
    then show ?thesis using less [of y x b a] assms by simp
  qed (use less [of x y a b] assms in simp_all)
qed

lemma lex_eq:
  fixes a b x y m :: nat
  assumes "a < m" "b < m"
  shows "a + m * x = b + m * y \<longleftrightarrow> x = y \<and> a = b"
  using lex_less [OF assms, of x y] lex_less [OF assms(2,1), of y x] by linarith

subsection \<open>Three-way comparison\<close>

lemma sgn_int_diff:
  "m < n \<Longrightarrow> sgn (int m - int n) = - 1" "n < m \<Longrightarrow> sgn (int m - int n) = 1"
  by simp_all

lemma sgn_int_diff_iff:
  "0 < sgn (int m - int n) \<longleftrightarrow> n < m" "0 \<le> sgn (int m - int n) \<longleftrightarrow> n \<le> m"
  "sgn (int m - int n) < 0 \<longleftrightarrow> m < n" "sgn (int m - int n) = 0 \<longleftrightarrow> m = n"
  by (auto simp: sgn_if)

end
