(* ===== verification/Integer_Interface.thy ===== *)
theory Integer_Interface
  imports Dart_Prelude "HOL-Library.Signed_Division"
begin

text \<open>
  The contracts of an integer representation: objects that satisfy an invariant
  denote integers uniquely, and the operations of the representation compute the
  operations of the integers. The facts proved here about every such
  representation are used for \<open>Bigint\<close> (\<open>runtime/vm/bigint_operations.cc\<close>) and
  for the tower of small, medium and large integers of the core library
  (\<open>runtime/lib/integers.cc\<close>).
\<close>

locale int_repr =
  fixes inv :: "'a \<Rightarrow> bool" and val :: "'a \<Rightarrow> int"
  assumes val_inj: "inv a \<Longrightarrow> inv b \<Longrightarrow> val a = val b \<Longrightarrow> a = b"
begin

lemma val_eq_iff: "inv a \<Longrightarrow> inv b \<Longrightarrow> val a = val b \<longleftrightarrow> a = b"
  using val_inj by blast

end

locale int_order = int_repr +
  fixes cmp :: "'a \<Rightarrow> 'a \<Rightarrow> int"
  assumes cmp_val: "inv a \<Longrightarrow> inv b \<Longrightarrow> cmp a b = sgn (val a - val b)"
begin

lemma cmp_eq_0_iff: "inv a \<Longrightarrow> inv b \<Longrightarrow> cmp a b = 0 \<longleftrightarrow> a = b"
  using cmp_val val_eq_iff by (auto simp: sgn_if)

lemma cmp_less_iff: "inv a \<Longrightarrow> inv b \<Longrightarrow> cmp a b = - 1 \<longleftrightarrow> val a < val b"
  using cmp_val by (auto simp: sgn_if)

lemma cmp_greater_iff: "inv a \<Longrightarrow> inv b \<Longrightarrow> cmp a b = 1 \<longleftrightarrow> val b < val a"
  using cmp_val by (auto simp: sgn_if)

lemma cmp_swap: "inv a \<Longrightarrow> inv b \<Longrightarrow> cmp b a = - cmp a b"
  using cmp_val by (simp add: sgn_if)

lemma cmp_trans:
  assumes "inv a" "inv b" "inv c" "cmp a b \<le> 0" "cmp b c \<le> 0"
  shows "cmp a c \<le> 0"
  using assms cmp_val by (auto simp: sgn_if split: if_splits)

end

locale int_ring = int_repr +
  fixes add sub :: "'a \<Rightarrow> 'a \<Rightarrow> 'a" and mul :: "'a \<Rightarrow> 'a \<Rightarrow> 'a option"
  assumes add_val: "inv a \<Longrightarrow> inv b \<Longrightarrow> inv (add a b) \<and> val (add a b) = val a + val b"
    and sub_val: "inv a \<Longrightarrow> inv b \<Longrightarrow> inv (sub a b) \<and> val (sub a b) = val a - val b"
    and mul_val: "inv a \<Longrightarrow> inv b \<Longrightarrow> mul a b = Some r \<Longrightarrow> inv r \<and> val r = val a * val b"
begin

lemma add_commute: "inv a \<Longrightarrow> inv b \<Longrightarrow> add a b = add b a"
  using add_val val_inj by (simp add: add.commute)

lemma add_assoc: "inv a \<Longrightarrow> inv b \<Longrightarrow> inv c \<Longrightarrow> add (add a b) c = add a (add b c)"
  using add_val val_inj by (simp add: add.assoc)

lemma sub_add_cancel: "inv a \<Longrightarrow> inv b \<Longrightarrow> add (sub a b) b = a"
  using add_val sub_val val_inj by simp

lemma add_sub_cancel: "inv a \<Longrightarrow> inv b \<Longrightarrow> sub (add a b) b = a"
  using add_val sub_val val_inj by simp

lemma mul_add_distrib:
  assumes "inv a" "inv b" "inv c" "mul a b = Some x" "mul a c = Some y" "mul a (add b c) = Some z"
  shows "z = add x y"
proof -
  have "inv x" "inv y" "inv z" "val x = val a * val b" "val y = val a * val c"
    "val z = val a * (val b + val c)"
    using assms mul_val add_val by metis+
  then show ?thesis using add_val [of x y] by (intro val_inj) (simp_all add: distrib_left)
qed

end

locale int_division = int_ring +
  fixes divrem :: "'a \<Rightarrow> 'a \<Rightarrow> ('a \<times> 'a) option"
  assumes divrem_val: "inv a \<Longrightarrow> inv b \<Longrightarrow> val b \<noteq> 0 \<Longrightarrow>
    \<exists>q r. divrem a b = Some (q, r) \<and> inv q \<and> inv r \<and> val q = val a sdiv val b \<and> val r = val a smod val b"
begin

lemma divrem_unique:
  assumes "inv a" "inv b" "val b \<noteq> 0" "divrem a b = Some (q, r)"
  shows "inv q \<and> inv r \<and> val q = val a sdiv val b \<and> val r = val a smod val b"
  using divrem_val [OF assms(1-3)] assms(4) by auto

lemma divrem_reconstructs:
  assumes a: "inv a" and b: "inv b" "val b \<noteq> 0"
    and d: "divrem a b = Some (q, r)" and m: "mul q b = Some p"
  shows "add p r = a"
proof -
  note qr = divrem_unique [OF a b d]
  have p: "inv p \<and> val p = val q * val b" using mul_val [OF _ b(1) m] qr by blast
  have "val (add p r) = (val a sdiv val b) * val b + val a smod val b" using add_val p qr by simp
  also have "\<dots> = val a" by (rule sdiv_mult_smod_eq)
  finally show ?thesis using add_val p qr a by (intro val_inj) auto
qed

lemma divrem_remainder_bound:
  assumes "inv a" "inv b" "val b \<noteq> 0" "divrem a b = Some (q, r)"
  shows "\<bar>val r\<bar> < \<bar>val b\<bar>"
  using divrem_unique [OF assms] assms(3) smod_int_range [of "val b" "val a"]
  by (auto simp: abs_if split: if_splits)

end

end
