(* ===== verification/Bigint_Base.thy ===== *)
theory Bigint_Base
  imports Integer_Interface
begin

text \<open>
  The representation of arbitrary-precision integers (class \<open>Bigint\<close> of
  \<open>runtime/vm/object.h\<close>) and the magnitude arithmetic of
  \<open>runtime/vm/bigint_operations.cc\<close>: clamping, comparison, addition and
  subtraction.

  A \<open>Bigint\<close> stores its sign in the sign of \<open>signed_length_\<close> and its magnitude in
  \<open>Length()\<close> chunks of 32 bits, least significant first, of which the low 28 bits
  are used. The model keeps the chunks in use: allocating a bigint and writing all
  of its chunks is \<open>new_bigint\<close>, and \<open>SetLength\<close> drops the chunks beyond the new
  length, which the code can no longer reach either. Lengths and indices
  (\<open>intptr_t\<close>) are bounded by the address space and are modelled as \<open>nat\<close> or \<open>int\<close>;
  chunks are kept at their width. A \<open>for\<close> loop over the digits of one or two bigints
  is a recursion over the digit lists that yields the digits the loop stores.
\<close>

subsection \<open>Representation\<close>

type_synonym chunk = uint32
type_synonym dchunk = uint64

record bigint =
  signed_length :: int
  chunks :: "chunk list"

definition kDigitBitSize :: nat where
  "kDigitBitSize = 28"

definition kDigitMask :: chunk where
  "kDigitMask = push_bit kDigitBitSize 1 - 1"

abbreviation kDigitMaxValue :: chunk where
  "kDigitMaxValue \<equiv> kDigitMask"

definition kChunkBitSize :: nat where
  "kChunkBitSize = 32"

definition IsZero :: "bigint \<Rightarrow> bool" where
  "IsZero b \<longleftrightarrow> signed_length b = 0"

definition IsNegative :: "bigint \<Rightarrow> bool" where
  "IsNegative b \<longleftrightarrow> signed_length b < 0"

definition Length :: "bigint \<Rightarrow> nat" where
  "Length b = nat \<bar>signed_length b\<bar>"

definition GetChunkAt :: "bigint \<Rightarrow> nat \<Rightarrow> chunk" where
  "GetChunkAt b i = chunks b ! i"

definition ToggleSign :: "bigint \<Rightarrow> bigint" where
  "ToggleSign b = b\<lparr>signed_length := - signed_length b\<rparr>"

definition SetSign :: "bool \<Rightarrow> bigint \<Rightarrow> bigint" where
  "SetSign is_negative b = (if is_negative \<noteq> IsNegative b then ToggleSign b else b)"

definition SetLength :: "nat \<Rightarrow> bigint \<Rightarrow> bigint" where
  "SetLength len b =
     (let is_negative = IsNegative b;
          b' = b\<lparr>signed_length := int len, chunks := take len (chunks b)\<rparr>
      in if is_negative then ToggleSign b' else b')"

definition new_bigint :: "chunk list \<Rightarrow> bigint" where
  "new_bigint ds = \<lparr>signed_length = int (length ds), chunks = ds\<rparr>"

definition Zero :: bigint where
  "Zero = new_bigint []"

definition One :: bigint where
  "One = new_bigint [1]"

definition MinusOne :: bigint where
  "MinusOne = ToggleSign One"

definition IsClamped :: "bigint \<Rightarrow> bool" where
  "IsClamped b \<longleftrightarrow> Length b = 0 \<or> GetChunkAt b (Length b - 1) \<noteq> 0"

fun Clamp_loop :: "bigint \<Rightarrow> nat \<Rightarrow> nat" where
  "Clamp_loop b len =
     (if len > 0 \<and> GetChunkAt b (len - 1) = 0 then Clamp_loop b (len - 1) else len)"

declare Clamp_loop.simps [simp del]

definition Clamp :: "bigint \<Rightarrow> bigint" where
  "Clamp b = SetLength (Clamp_loop b (Length b)) b"

definition Copy :: "bigint \<Rightarrow> bigint" where
  "Copy b = SetSign (IsNegative b) (new_bigint (map (GetChunkAt b) [0..<Length b]))"

function CountBits :: "chunk \<Rightarrow> nat" where
  "CountBits digit = (if digit \<noteq> 0 then CountBits (drop_bit 1 digit) + 1 else 0)"
  by pat_completeness auto
termination
proof (relation "measure unat")
  show "wf (measure unat)" by simp
next
  fix digit :: chunk
  assume "digit \<noteq> 0"
  then have "0 < unat digit" by (simp add: unat_gt_0)
  then show "(drop_bit 1 digit, digit) \<in> measure unat"
    by (simp add: word_nat)
qed

declare CountBits.simps [simp del]

subsection \<open>Comparison, addition and subtraction of magnitudes\<close>

text \<open>The loops of \<open>UnsignedCompare\<close> and of \<open>UnsignedCompareNonClamped\<close> look at the
  digits from index \<open>n - 1\<close> down to 0.\<close>

fun compare_digits :: "bigint \<Rightarrow> bigint \<Rightarrow> nat \<Rightarrow> int" where
  "compare_digits a b 0 = 0"
| "compare_digits a b (Suc i) =
     (let digit_a = GetChunkAt a i; digit_b = GetChunkAt b i
      in if digit_a < digit_b then - 1
         else if digit_a > digit_b then 1
         else compare_digits a b i)"

definition UnsignedCompare :: "bigint \<Rightarrow> bigint \<Rightarrow> int" where
  "UnsignedCompare a b =
     (if Length a < Length b then - 1
      else if Length a > Length b then 1
      else compare_digits a b (Length a))"

fun skip_zeros :: "bigint \<Rightarrow> nat \<Rightarrow> nat \<Rightarrow> nat option" where
  "skip_zeros a a_length b_length =
     (if a_length > b_length
      then (if GetChunkAt a (a_length - 1) \<noteq> 0 then None
            else skip_zeros a (a_length - 1) b_length)
      else Some a_length)"

declare skip_zeros.simps [simp del]

definition UnsignedCompareNonClamped :: "bigint \<Rightarrow> bigint \<Rightarrow> int" where
  "UnsignedCompareNonClamped a b =
     (case skip_zeros a (Length a) (Length b) of
        None \<Rightarrow> 1
      | Some a_length \<Rightarrow>
          (case skip_zeros b (Length b) a_length of
             None \<Rightarrow> - 1
           | Some b_length \<Rightarrow> compare_digits a b a_length))"

definition Compare :: "bigint \<Rightarrow> bigint \<Rightarrow> int" where
  "Compare a b =
     (if IsNegative a \<noteq> IsNegative b then (if IsNegative a then - 1 else 1)
      else if IsNegative a then - UnsignedCompare a b
      else UnsignedCompare a b)"

text \<open>The first loop of \<open>UnsignedAdd\<close> runs over the digits of both operands, the
  second one carries into the remaining digits of the longer operand.\<close>

fun add_loop :: "chunk list \<Rightarrow> chunk list \<Rightarrow> chunk \<Rightarrow> chunk list \<times> chunk" where
  "add_loop (x # xs) (y # ys) carry =
     (let sum = x + y + carry;
          (ds, c) = add_loop xs ys (drop_bit kDigitBitSize sum)
      in ((sum AND kDigitMask) # ds, c))"
| "add_loop (x # xs) [] carry =
     (let sum = x + carry;
          (ds, c) = add_loop xs [] (drop_bit kDigitBitSize sum)
      in ((sum AND kDigitMask) # ds, c))"
| "add_loop [] ys carry = ([], carry)"

function UnsignedAdd :: "bigint \<Rightarrow> bigint \<Rightarrow> bigint" where
  "UnsignedAdd a b =
     (if Length a < Length b then UnsignedAdd b a
      else
        let (ds, carry) = add_loop (chunks a) (chunks b) 0;
            result = new_bigint (ds @ [carry])
        in if carry = 0 then SetLength (Length a) result else result)"
  by pat_completeness auto
termination
  by (relation "measure (\<lambda>(a, b). if Length a < Length b then 1 else 0)") auto

declare UnsignedAdd.simps [simp del]

definition kSignBitPos :: nat where
  "kSignBitPos = 31"

fun sub_loop :: "chunk list \<Rightarrow> chunk list \<Rightarrow> chunk \<Rightarrow> chunk list \<times> chunk" where
  "sub_loop (x # xs) (y # ys) borrow =
     (let difference = x - y - borrow;
          (ds, c) = sub_loop xs ys (drop_bit kSignBitPos difference)
      in ((difference AND kDigitMask) # ds, c))"
| "sub_loop (x # xs) [] borrow =
     (let difference = x - borrow;
          (ds, c) = sub_loop xs [] (drop_bit kSignBitPos difference)
      in ((difference AND kDigitMask) # ds, c))"
| "sub_loop [] ys borrow = ([], borrow)"

definition UnsignedSubtract :: "bigint \<Rightarrow> bigint \<Rightarrow> bigint" where
  "UnsignedSubtract a b = Clamp (new_bigint (fst (sub_loop (chunks a) (chunks b) 0)))"

definition AddSubtract :: "bigint \<Rightarrow> bigint \<Rightarrow> bool \<Rightarrow> bigint" where
  "AddSubtract a b negate_b =
     (let b_is_negative = (if negate_b then \<not> IsNegative b else IsNegative b)
      in if IsNegative a = b_is_negative then SetSign b_is_negative (UnsignedAdd a b)
         else
           let comp = UnsignedCompare a b
           in if comp < 0 then SetSign b_is_negative (UnsignedSubtract b a)
              else if comp > 0 then SetSign (IsNegative a) (UnsignedSubtract a b)
              else Zero)"

definition Add :: "bigint \<Rightarrow> bigint \<Rightarrow> bigint" where
  "Add a b = AddSubtract a b False"

definition Subtract :: "bigint \<Rightarrow> bigint \<Rightarrow> bigint" where
  "Subtract a b = AddSubtract a b True"


subsection \<open>Abstraction and invariant\<close>

text \<open>A digit list denotes a number in base \<open>beta\<close>, and a bigint denotes an
  integer. The invariant \<open>bigint_inv\<close> is what every operation expects and
  returns: the length field agrees with the chunks, every chunk is a digit, and
  the leading digit is not zero.\<close>

definition beta :: nat where
  "beta = 2 ^ kDigitBitSize"

primrec dval :: "chunk list \<Rightarrow> nat" where
  "dval [] = 0"
| "dval (d # ds) = unat d + beta * dval ds"

definition digits_ok :: "chunk list \<Rightarrow> bool" where
  "digits_ok ds \<longleftrightarrow> (\<forall>d \<in> set ds. unat d < beta)"

definition bval :: "bigint \<Rightarrow> int" where
  "bval b = (if IsNegative b then - int (dval (chunks b)) else int (dval (chunks b)))"

definition bigint_ok :: "bigint \<Rightarrow> bool" where
  "bigint_ok b \<longleftrightarrow> length (chunks b) = Length b \<and> digits_ok (chunks b)"

definition bigint_inv :: "bigint \<Rightarrow> bool" where
  "bigint_inv b \<longleftrightarrow> bigint_ok b \<and> IsClamped b"

named_theorems bigint_defs \<open>accessors and constructors of the bigint representation\<close>

declare IsZero_def [bigint_defs] IsNegative_def [bigint_defs] Length_def [bigint_defs]
  GetChunkAt_def [bigint_defs] ToggleSign_def [bigint_defs] SetSign_def [bigint_defs]
  SetLength_def [bigint_defs] new_bigint_def [bigint_defs] IsClamped_def [bigint_defs]

subsection \<open>Digits\<close>

lemma kDigitMask_mask: "kDigitMask = mask 28"
  by (simp add: kDigitMask_def kDigitBitSize_def mask_eq_exp_minus_1)

lemma beta_eq: "beta = 268435456"
  by (simp add: beta_def kDigitBitSize_def)

lemma beta_pos [simp]: "0 < beta" "beta \<noteq> 0" "Suc 0 < beta" "1 < beta" "Suc 0 \<le> beta"
  by (simp_all add: beta_eq)

lemma digits_ok_simps [simp]:
  "digits_ok []"
  "digits_ok (d # ds) \<longleftrightarrow> unat d < beta \<and> digits_ok ds"
  "digits_ok (xs @ ys) \<longleftrightarrow> digits_ok xs \<and> digits_ok ys"
  by (auto simp: digits_ok_def)

lemma digits_ok_take: "digits_ok ds \<Longrightarrow> digits_ok (take n ds)"
  by (auto simp: digits_ok_def dest: in_set_takeD)

lemma digits_ok_drop: "digits_ok ds \<Longrightarrow> digits_ok (drop n ds)"
  by (auto simp: digits_ok_def dest: in_set_dropD)

lemma digits_ok_nth: "digits_ok ds \<Longrightarrow> i < length ds \<Longrightarrow> unat (ds ! i) < beta"
  by (auto simp: digits_ok_def)

lemma digits_ok_replicate_0 [simp]: "digits_ok (replicate n 0)"
  by (auto simp: digits_ok_def)

lemma unat_and_kDigitMask [word_nat]: "unat (w AND kDigitMask) = unat w mod beta"
  by (simp add: kDigitMask_mask unat_and_mask beta_def kDigitBitSize_def)

lemma unat_kDigitMask: "unat kDigitMask = beta - 1"
  by (simp add: kDigitMask_mask beta_eq mask_eq_exp_minus_1)

lemma power_kDigitBitSize [word_nat]: "2 ^ kDigitBitSize = beta"
  by (simp add: beta_def)

lemma dval_append: "dval (xs @ ys) = dval xs + beta ^ length xs * dval ys"
  by (induction xs) (simp_all add: algebra_simps)

lemma dval_bound: "digits_ok ds \<Longrightarrow> dval ds < beta ^ length ds"
proof (induction ds)
  case (Cons d ds)
  then have "dval ds + 1 \<le> beta ^ length ds" and "unat d < beta" by auto
  then have "unat d + beta * dval ds < beta * (dval ds + 1)" by simp
  also have "\<dots> \<le> beta * beta ^ length ds"
    using \<open>dval ds + 1 \<le> beta ^ length ds\<close> by (rule mult_le_mono2)
  finally show ?case by simp
qed simp

lemma dval_replicate_0 [simp]: "dval (replicate n 0) = 0"
  by (induction n) simp_all

lemma dval_eq_0_iff: "dval ds = 0 \<longleftrightarrow> (\<forall>d \<in> set ds. d = 0)"
  by (induction ds) (auto simp: unat_eq_0)

lemma dval_snoc_lower: "d \<noteq> 0 \<Longrightarrow> beta ^ length ds \<le> dval (ds @ [d])"
  by (simp add: dval_append trans_le_add2 Suc_leI unat_gt_0)

lemma dval_take_Suc:
  "i < length ds \<Longrightarrow> dval (take (Suc i) ds) = dval (take i ds) + beta ^ i * unat (ds ! i)"
  by (simp add: take_Suc_conv_app_nth dval_append)

subsection \<open>Accessors\<close>

lemma bigint_ok_digits: "bigint_ok b \<Longrightarrow> digits_ok (chunks b)"
  by (simp add: bigint_ok_def)

lemma bigint_ok_length: "bigint_ok b \<Longrightarrow> Length b = length (chunks b)"
  by (simp add: bigint_ok_def)

lemma new_bigint_simps [simp]:
  "chunks (new_bigint ds) = ds" "Length (new_bigint ds) = length ds"
  "\<not> IsNegative (new_bigint ds)" "bval (new_bigint ds) = int (dval ds)"
  "bigint_ok (new_bigint ds) \<longleftrightarrow> digits_ok ds"
  by (simp_all add: bigint_defs bval_def bigint_ok_def)

lemma IsClamped_iff:
  "bigint_ok b \<Longrightarrow> IsClamped b \<longleftrightarrow> chunks b = [] \<or> last (chunks b) \<noteq> 0"
  by (cases "chunks b = []") (auto simp: IsClamped_def GetChunkAt_def bigint_ok_def last_conv_nth)

lemma ToggleSign_simps [simp]:
  "chunks (ToggleSign b) = chunks b" "Length (ToggleSign b) = Length b"
  "bigint_ok (ToggleSign b) \<longleftrightarrow> bigint_ok b" "IsClamped (ToggleSign b) \<longleftrightarrow> IsClamped b"
  "bigint_inv (ToggleSign b) \<longleftrightarrow> bigint_inv b"
  by (simp_all add: bigint_defs bigint_ok_def bigint_inv_def)

lemma IsNegative_ToggleSign:
  "IsNegative (ToggleSign b) \<longleftrightarrow> \<not> IsNegative b \<and> Length b \<noteq> 0"
  by (auto simp: bigint_defs)

lemma bval_ToggleSign [simp]: "bigint_ok b \<Longrightarrow> bval (ToggleSign b) = - bval b"
  by (auto simp: bval_def IsNegative_ToggleSign bigint_ok_def)

lemma SetSign_simps [simp]:
  "chunks (SetSign s b) = chunks b" "Length (SetSign s b) = Length b"
  "bigint_ok (SetSign s b) \<longleftrightarrow> bigint_ok b" "IsClamped (SetSign s b) \<longleftrightarrow> IsClamped b"
  "bigint_inv (SetSign s b) \<longleftrightarrow> bigint_inv b"
  by (simp_all add: SetSign_def)

lemma IsNegative_SetSign: "IsNegative (SetSign s b) \<longleftrightarrow> s \<and> Length b \<noteq> 0"
  by (auto simp: bigint_defs)

lemma bval_SetSign:
  "bigint_ok b \<Longrightarrow> bval (SetSign s b) = (if s then - int (dval (chunks b)) else int (dval (chunks b)))"
  by (auto simp: bval_def IsNegative_SetSign bigint_ok_def)

lemma bval_abs: "\<bar>bval b\<bar> = int (dval (chunks b))"
  by (simp add: bval_def)

lemma IsZero_iff: "bigint_inv b \<Longrightarrow> IsZero b \<longleftrightarrow> bval b = 0"
proof -
  assume inv: "bigint_inv b"
  then have ok: "bigint_ok b" and cl: "IsClamped b" by (simp_all add: bigint_inv_def)
  have "bval b = 0 \<longleftrightarrow> dval (chunks b) = 0" by (simp add: bval_def)
  also have "\<dots> \<longleftrightarrow> chunks b = []"
    using cl IsClamped_iff [OF ok] last_in_set by (fastforce simp: dval_eq_0_iff)
  also have "\<dots> \<longleftrightarrow> IsZero b"
    using ok by (auto simp: bigint_ok_def bigint_defs)
  finally show ?thesis by simp
qed

lemma IsNegative_iff: "bigint_inv b \<Longrightarrow> IsNegative b \<longleftrightarrow> bval b < 0"
  using IsZero_iff [of b] by (auto simp: bval_def bigint_defs split: if_splits)

lemma bval_nonneg: "bigint_inv b \<Longrightarrow> bval b = int n \<Longrightarrow> \<not> IsNegative b \<and> dval (chunks b) = n"
proof -
  assume inv: "bigint_inv b" and v: "bval b = int n"
  have "\<not> IsNegative b" using IsNegative_iff [OF inv] v by simp
  with v show ?thesis by (simp add: bval_def)
qed

lemma bval_SetSign_nonneg:
  assumes "bigint_inv b" "0 \<le> bval b"
  shows "bval (SetSign s b) = (if s then - bval b else bval b)"
proof -
  have ok: "bigint_ok b" using assms(1) by (simp add: bigint_inv_def)
  obtain n where n: "bval b = int n" using assms(2) nonneg_int_cases by blast
  then have "dval (chunks b) = n" using bval_nonneg [OF assms(1) n] by blast
  then show ?thesis using bval_SetSign [OF ok, of s] n by simp
qed

lemma bigint_eqI:
  assumes "bigint_ok a" "bigint_ok b" "chunks a = chunks b" "IsNegative a = IsNegative b"
  shows "a = b"
  using assms by (cases a; cases b) (auto simp: bigint_ok_def bigint_defs)


subsection \<open>Clamp and Copy\<close>

lemma SetLength_simps:
  "chunks (SetLength n b) = take n (chunks b)" "Length (SetLength n b) = n"
  "IsNegative (SetLength n b) \<longleftrightarrow> IsNegative b \<and> n \<noteq> 0"
  by (auto simp: bigint_defs Let_def)

lemma SetLength_new: "n \<le> length ds \<Longrightarrow> SetLength n (new_bigint ds) = new_bigint (take n ds)"
  by (simp add: bigint_defs Let_def)

lemma Clamp_loop_le: "Clamp_loop b n \<le> n"
proof (induction n)
  case (Suc n)
  then show ?case by (subst Clamp_loop.simps) simp
qed (simp add: Clamp_loop.simps)

lemma Clamp_loop_top: "Clamp_loop b n = 0 \<or> chunks b ! (Clamp_loop b n - 1) \<noteq> 0"
proof (induction n)
  case (Suc n)
  then show ?case by (subst (1 2) Clamp_loop.simps) (simp add: GetChunkAt_def)
qed (simp add: Clamp_loop.simps)

lemma Clamp_loop_dval:
  "n \<le> length (chunks b) \<Longrightarrow> dval (take (Clamp_loop b n) (chunks b)) = dval (take n (chunks b))"
proof (induction n)
  case (Suc n)
  then show ?case
    by (subst Clamp_loop.simps) (simp add: GetChunkAt_def dval_take_Suc)
qed (simp add: Clamp_loop.simps)

lemma Clamp_correct:
  assumes "bigint_ok b"
  shows "bigint_inv (Clamp b)" and "bval (Clamp b) = bval b"
    and "dval (chunks (Clamp b)) = dval (chunks b)"
proof -
  let ?n = "Clamp_loop b (Length b)"
  have len: "Length b = length (chunks b)" using assms by (rule bigint_ok_length)
  have le: "?n \<le> length (chunks b)" using Clamp_loop_le [of b "Length b"] len by simp
  have ch: "chunks (Clamp b) = take ?n (chunks b)" and n: "Length (Clamp b) = ?n"
    and neg: "IsNegative (Clamp b) \<longleftrightarrow> IsNegative b \<and> ?n \<noteq> 0"
    by (simp_all add: Clamp_def SetLength_simps)
  show dv: "dval (chunks (Clamp b)) = dval (chunks b)"
    using Clamp_loop_dval [of "Length b" b] len by (simp add: ch)
  have "?n = 0 \<Longrightarrow> dval (chunks b) = 0" using dv ch by simp
  then show "bval (Clamp b) = bval b" using dv neg by (auto simp: bval_def)
  show "bigint_inv (Clamp b)"
    using Clamp_loop_top [of b "Length b"] le assms
    by (auto simp: bigint_inv_def bigint_ok_def n ch IsClamped_def GetChunkAt_def digits_ok_take)
qed

lemma Copy_correct:
  assumes "bigint_ok b"
  shows "Copy b = b"
proof (rule bigint_eqI)
  have "map (GetChunkAt b) [0..<Length b] = chunks b"
    using assms by (auto simp: GetChunkAt_def bigint_ok_def intro: nth_equalityI)
  then show "chunks (Copy b) = chunks b" "bigint_ok (Copy b)"
    using assms by (simp_all add: Copy_def bigint_ok_digits)
  show "IsNegative (Copy b) = IsNegative b"
    by (auto simp: Copy_def IsNegative_SetSign bigint_defs)
qed (rule assms)

lemma constants_correct [simp]:
  "bigint_inv Zero" "bval Zero = 0" "bigint_inv One" "bval One = 1"
  "bigint_inv MinusOne" "bval MinusOne = - 1"
  by (simp_all add: Zero_def One_def MinusOne_def bigint_inv_def IsClamped_def GetChunkAt_def)

lemma dval_lower: "bigint_inv b \<Longrightarrow> Length b \<noteq> 0 \<Longrightarrow> beta ^ (Length b - 1) \<le> dval (chunks b)"
proof -
  assume inv: "bigint_inv b" and ne: "Length b \<noteq> 0"
  then have ok: "bigint_ok b" and len: "Length b = length (chunks b)"
    by (simp_all add: bigint_inv_def bigint_ok_def)
  then obtain ds d where b: "chunks b = ds @ [d]"
    using ne by (metis append_butlast_last_id length_0_conv)
  then have "d \<noteq> 0" using inv IsClamped_iff [OF ok] by (simp add: bigint_inv_def)
  then show ?thesis using dval_snoc_lower [of d ds] b len by simp
qed

lemma CountBits_bounds: "d \<noteq> 0 \<Longrightarrow> 2 ^ (CountBits d - 1) \<le> unat d \<and> unat d < 2 ^ CountBits d \<and> 0 < CountBits d"
proof (induction d rule: CountBits.induct)
  case (1 d)
  have c: "CountBits d = CountBits (drop_bit 1 d) + 1" using "1.prems" by (simp add: CountBits.simps [of d])
  have h: "unat (drop_bit 1 d) = unat d div 2" by (simp add: unat_drop_bit)
  show ?case
  proof (cases "drop_bit 1 d = 0")
    case True
    then have "unat d div 2 = 0" using h by simp
    moreover have "0 < unat d" using "1.prems" by (simp add: unat_gt_0)
    ultimately show ?thesis using True c by (simp add: CountBits.simps)
  next
    case False
    then have IH: "2 ^ (CountBits (drop_bit 1 d) - 1) \<le> unat d div 2" "unat d div 2 < 2 ^ CountBits (drop_bit 1 d)"
        "0 < CountBits (drop_bit 1 d)"
      using "1.IH" [OF "1.prems"] h by simp_all
    define p :: nat where "p = 2 ^ (CountBits (drop_bit 1 d) - 1)"
    have p: "2 ^ CountBits (drop_bit 1 d) = 2 * p" using IH(3) by (simp add: p_def power_eq_if)
    have "p \<le> unat d div 2" "unat d div 2 < 2 * p" using IH p by (simp_all add: p_def)
    then have "2 * p \<le> unat d" "unat d < 4 * p" by arith+
    then show ?thesis using c p by simp
  qed
qed

lemma leading_digit:
  assumes "bigint_inv b" "Length b \<noteq> 0"
  defines "n \<equiv> Length b - 1"
  shows "dval (chunks b) = dval (take n (chunks b)) + beta ^ n * unat (GetChunkAt b n)"
    and "dval (take n (chunks b)) < beta ^ n" and "GetChunkAt b n \<noteq> 0"
    and "digits_ok (take n (chunks b))" and "unat (GetChunkAt b n) < beta"
proof -
  have ok: "bigint_ok b" "IsClamped b" using assms by (simp_all add: bigint_inv_def)
  then have len: "length (chunks b) = Suc n" and dk: "digits_ok (chunks b)"
    using assms(2) by (simp_all add: bigint_ok_def n_def)
  show "dval (chunks b) = dval (take n (chunks b)) + beta ^ n * unat (GetChunkAt b n)"
    using dval_take_Suc [of n "chunks b"] len by (simp add: GetChunkAt_def)
  show "dval (take n (chunks b)) < beta ^ n" "digits_ok (take n (chunks b))"
    using dval_bound [OF digits_ok_take [OF dk], of n] digits_ok_take [OF dk] len by simp_all
  show "GetChunkAt b n \<noteq> 0" using ok(2) assms(2) by (simp add: IsClamped_def n_def)
  show "unat (GetChunkAt b n) < beta" using digits_ok_nth [OF dk] len by (simp add: GetChunkAt_def)
qed

subsection \<open>Comparison\<close>

lemma compare_digits_correct:
  assumes "digits_ok (chunks a)" "digits_ok (chunks b)"
    and "n \<le> length (chunks a)" "n \<le> length (chunks b)"
  shows "compare_digits a b n = sgn (int (dval (take n (chunks a))) - int (dval (take n (chunks b))))"
  using assms(3,4)
proof (induction n)
  case (Suc i)
  let ?x = "chunks a ! i" and ?y = "chunks b ! i"
  let ?A = "dval (take i (chunks a))" and ?B = "dval (take i (chunks b))"
  have A: "?A < beta ^ i" and B: "?B < beta ^ i"
    using dval_bound [OF digits_ok_take [OF assms(1)], of i]
      dval_bound [OF digits_ok_take [OF assms(2)], of i] Suc.prems by simp_all
  have ta: "dval (take (Suc i) (chunks a)) = ?A + beta ^ i * unat ?x"
    and tb: "dval (take (Suc i) (chunks b)) = ?B + beta ^ i * unat ?y"
    using Suc.prems by (simp_all add: dval_take_Suc)
  have step: "u + p * unat v < w + p * unat z" if "v < z" "u < p" for u p w and v z :: chunk
  proof -
    have "p * (unat v + 1) \<le> p * unat z"
      using that(1) by (intro mult_le_mono2) (simp add: word_less_nat_alt)
    then show ?thesis using that(2) by (simp add: algebra_simps)
  qed
  consider "?x < ?y" | "?x > ?y" | "?x = ?y" by fastforce
  then show ?case
  proof cases
    case 1
    with step [OF 1 A, of ?B] show ?thesis
      unfolding ta tb by (simp add: GetChunkAt_def sgn_int_diff del: of_nat_add)
  next
    case 2
    with step [OF 2 B, of ?A] show ?thesis
      unfolding ta tb
      by (simp add: GetChunkAt_def sgn_int_diff Let_def not_less_iff_gr_or_eq del: of_nat_add)
  next
    case 3
    with Suc show ?thesis by (simp add: ta tb GetChunkAt_def)
  qed
qed simp

lemma dval_mono_length:
  assumes "bigint_inv a" "bigint_inv b" "Length a < Length b"
  shows "dval (chunks a) < dval (chunks b)"
proof -
  have oka: "bigint_ok a" and okb: "bigint_ok b" and cl: "IsClamped b"
    using assms(1,2) by (simp_all add: bigint_inv_def)
  have ne: "chunks b \<noteq> []" using assms(3) okb by (auto simp: bigint_ok_def)
  then obtain ds d where b: "chunks b = ds @ [d]" by (metis append_butlast_last_id)
  then have "d \<noteq> 0" using cl IsClamped_iff [OF okb] by simp
  have "dval (chunks a) < beta ^ Length a"
    using dval_bound [of "chunks a"] oka by (simp add: bigint_ok_def)
  also have "\<dots> \<le> beta ^ length ds"
    using assms(3) okb b by (intro power_increasing) (auto simp: bigint_ok_def)
  also have "\<dots> \<le> dval (chunks b)" using dval_snoc_lower [OF \<open>d \<noteq> 0\<close>] b by simp
  finally show ?thesis .
qed

lemma UnsignedCompare_correct:
  assumes "bigint_inv a" "bigint_inv b"
  shows "UnsignedCompare a b = sgn (int (dval (chunks a)) - int (dval (chunks b)))"
proof -
  have ok: "bigint_ok a" "bigint_ok b" using assms by (simp_all add: bigint_inv_def)
  consider "Length a < Length b" | "Length b < Length a" | "Length a = Length b" by linarith
  then show ?thesis
  proof cases
    case 1
    then show ?thesis using dval_mono_length [OF assms] by (simp add: UnsignedCompare_def)
  next
    case 2
    then show ?thesis using dval_mono_length [OF assms(2,1)] by (simp add: UnsignedCompare_def)
  next
    case 3
    then show ?thesis using compare_digits_correct [of a b "Length a"] ok
      by (simp add: UnsignedCompare_def bigint_ok_def)
  qed
qed

lemma skip_zeros_None:
  "skip_zeros a m n = None \<Longrightarrow> m \<le> length (chunks a) \<Longrightarrow> beta ^ n \<le> dval (take m (chunks a))"
proof (induction m)
  case (Suc m)
  show ?case
  proof (cases "n < Suc m \<and> chunks a ! m \<noteq> 0")
    case True
    then have "beta ^ n \<le> beta ^ m" by (simp add: power_increasing)
    also have "\<dots> \<le> dval (take (Suc m) (chunks a))"
      using True Suc.prems(2) by (simp add: dval_take_Suc trans_le_add2 Suc_leI unat_gt_0)
    finally show ?thesis .
  next
    case False
    with Suc show ?thesis
      by (auto simp: skip_zeros.simps [of a "Suc m"] GetChunkAt_def dval_take_Suc split: if_splits)
  qed
qed (simp add: skip_zeros.simps)

lemma skip_zeros_Some:
  "skip_zeros a m n = Some k \<Longrightarrow> m \<le> length (chunks a) \<Longrightarrow>
     k = min m n \<and> dval (take k (chunks a)) = dval (take m (chunks a))"
proof (induction m)
  case (Suc m)
  show ?case
  proof (cases "n < Suc m")
    case True
    with Suc show ?thesis
      by (auto simp: skip_zeros.simps [of a "Suc m"] GetChunkAt_def dval_take_Suc split: if_splits)
  next
    case False
    with Suc.prems show ?thesis by (auto simp: skip_zeros.simps [of a "Suc m"])
  qed
qed (simp add: skip_zeros.simps)

lemma UnsignedCompareNonClamped_correct:
  assumes "bigint_ok a" "bigint_ok b"
  shows "UnsignedCompareNonClamped a b = sgn (int (dval (chunks a)) - int (dval (chunks b)))"
proof -
  have la: "Length a = length (chunks a)" and lb: "Length b = length (chunks b)"
    and da: "digits_ok (chunks a)" and db: "digits_ok (chunks b)"
    using assms by (simp_all add: bigint_ok_def)
  show ?thesis
  proof (cases "skip_zeros a (Length a) (Length b)")
    case None
    then have "dval (chunks b) < dval (chunks a)"
      using skip_zeros_None [of a "Length a" "Length b"] dval_bound [OF db] la lb by simp
    then show ?thesis using None by (simp add: UnsignedCompareNonClamped_def)
  next
    case a: (Some m)
    note m = skip_zeros_Some [OF a]
    show ?thesis
    proof (cases "skip_zeros b (Length b) m")
      case None
      have "dval (take m (chunks a)) < beta ^ m"
        using dval_bound [OF digits_ok_take [OF da], of m] m la by (simp split: if_splits)
      then have "dval (chunks a) < dval (chunks b)"
        using skip_zeros_None [OF None] m la lb by auto
      then show ?thesis using None a by (simp add: UnsignedCompareNonClamped_def)
    next
      case (Some n)
      then show ?thesis
        using a m skip_zeros_Some [OF Some] compare_digits_correct [OF da db, of m] la lb
        by (simp add: UnsignedCompareNonClamped_def) metis
    qed
  qed
qed

lemma Compare_correct:
  assumes "bigint_inv a" "bigint_inv b"
  shows "Compare a b = sgn (bval a - bval b)"
  using UnsignedCompare_correct [OF assms] IsNegative_iff [OF assms(1)] IsNegative_iff [OF assms(2)]
  by (auto simp: Compare_def bval_def sgn_if)

subsection \<open>Addition and subtraction\<close>

lemma add_digit:
  fixes x y c :: chunk
  assumes "unat x < beta" "unat y < beta" "unat c \<le> 1"
  defines "s \<equiv> x + y + c"
  shows "unat (s AND kDigitMask) + beta * unat (drop_bit kDigitBitSize s) = unat x + unat y + unat c"
    and "unat (s AND kDigitMask) < beta" and "unat (drop_bit kDigitBitSize s) \<le> 1"
proof -
  have "unat (x + y) = unat x + unat y"
    using assms by (simp add: word_nat beta_eq)
  then have s: "unat s = unat x + unat y + unat c"
    using assms by (simp add: word_nat beta_eq)
  then show "unat (s AND kDigitMask) + beta * unat (drop_bit kDigitBitSize s) = unat x + unat y + unat c"
    by (simp add: word_nat)
  show "unat (s AND kDigitMask) < beta" by (simp add: word_nat)
  show "unat (drop_bit kDigitBitSize s) \<le> 1"
    using assms s by (simp add: word_nat beta_eq)
qed

lemma add_loop_correct:
  assumes "digits_ok xs" "digits_ok ys" "length ys \<le> length xs" "unat c \<le> 1"
    and "add_loop xs ys c = (ds, c')"
  shows "length ds = length xs \<and> digits_ok ds \<and> unat c' \<le> 1 \<and>
    dval ds + beta ^ length xs * unat c' = dval xs + dval ys + unat c"
  using assms
proof (induction xs ys c arbitrary: ds c' rule: add_loop.induct)
  case (1 x xs y ys carry)
  let ?s = "x + y + carry"
  obtain es e where rec: "add_loop xs ys (drop_bit kDigitBitSize ?s) = (es, e)" by fastforce
  have d: "unat (?s AND kDigitMask) + beta * unat (drop_bit kDigitBitSize ?s) = unat x + unat y + unat carry"
    and m: "unat (?s AND kDigitMask) < beta" and c: "unat (drop_bit kDigitBitSize ?s) \<le> 1"
    using add_digit [of x y carry] "1.prems" by simp_all
  have IH: "length es = length xs \<and> digits_ok es \<and> unat e \<le> 1 \<and>
      dval es + beta ^ length xs * unat e = dval xs + dval ys + unat (drop_bit kDigitBitSize ?s)"
    using "1.prems" c rec by (intro "1.IH" [OF refl]) simp_all
  have res: "ds = (?s AND kDigitMask) # es" "c' = e" using "1.prems" rec by (simp_all add: Let_def)
  have "dval ds + beta ^ Suc (length xs) * unat c'
      = unat (?s AND kDigitMask) + beta * (dval es + beta ^ length xs * unat e)"
    by (simp add: res algebra_simps)
  also have "\<dots> = dval (x # xs) + dval (y # ys) + unat carry"
    using IH d by (simp add: algebra_simps)
  finally show ?case using IH m res by simp
next
  case (2 x xs carry)
  let ?s = "x + carry"
  obtain es e where rec: "add_loop xs [] (drop_bit kDigitBitSize ?s) = (es, e)" by fastforce
  have d: "unat (?s AND kDigitMask) + beta * unat (drop_bit kDigitBitSize ?s) = unat x + unat carry"
    and m: "unat (?s AND kDigitMask) < beta" and c: "unat (drop_bit kDigitBitSize ?s) \<le> 1"
    using add_digit [of x 0 carry] "2.prems" by simp_all
  have IH: "length es = length xs \<and> digits_ok es \<and> unat e \<le> 1 \<and>
      dval es + beta ^ length xs * unat e = dval xs + dval [] + unat (drop_bit kDigitBitSize ?s)"
    using "2.prems" c rec by (intro "2.IH" [OF refl]) simp_all
  have res: "ds = (?s AND kDigitMask) # es" "c' = e" using "2.prems" rec by (simp_all add: Let_def)
  have "dval ds + beta ^ Suc (length xs) * unat c'
      = unat (?s AND kDigitMask) + beta * (dval es + beta ^ length xs * unat e)"
    by (simp add: res algebra_simps)
  also have "\<dots> = dval (x # xs) + unat carry"
    using IH d by (simp add: algebra_simps)
  finally show ?case using IH m res by simp
qed auto


lemma UnsignedAdd_correct:
  assumes "bigint_inv a" "bigint_inv b"
  shows "bigint_inv (UnsignedAdd a b) \<and> \<not> IsNegative (UnsignedAdd a b) \<and>
    dval (chunks (UnsignedAdd a b)) = dval (chunks a) + dval (chunks b)"
  using assms
proof (induction a b rule: UnsignedAdd.induct)
  case (1 a b)
  show ?case
  proof (cases "Length a < Length b")
    case True
    with 1 show ?thesis by (simp add: UnsignedAdd.simps [of a b] add.commute)
  next
    case False
    obtain ds c where loop: "add_loop (chunks a) (chunks b) 0 = (ds, c)" by fastforce
    have ok: "bigint_ok a" "bigint_ok b" "IsClamped a"
      using "1.prems" by (simp_all add: bigint_inv_def)
    then have L: "length ds = length (chunks a) \<and> digits_ok ds \<and> unat c \<le> 1 \<and>
        dval ds + beta ^ length (chunks a) * unat c = dval (chunks a) + dval (chunks b)"
      using add_loop_correct [OF _ _ _ _ loop] False by (simp add: bigint_ok_def)
    show ?thesis
    proof (cases "c = 0")
      case True
      have "UnsignedAdd a b = new_bigint ds"
        using True False loop L ok
        by (simp add: UnsignedAdd.simps [of a b] SetLength_new bigint_ok_def)
      moreover have "ds \<noteq> [] \<Longrightarrow> last ds \<noteq> 0"
      proof
        assume "ds \<noteq> []" "last ds = 0"
        then obtain es where es: "ds = es @ [0]" by (metis append_butlast_last_id)
        with L True have "dval (chunks a) < beta ^ length es"
          using dval_bound [of es] by (simp add: dval_append)
        moreover have "beta ^ length es \<le> dval (chunks a)"
          using L es IsClamped_iff [OF ok(1)] ok(3) dval_snoc_lower
          by (metis append_butlast_last_id append_is_Nil_conv length_append_singleton length_butlast
              list.distinct(1) diff_Suc_1 length_0_conv)
        ultimately show False by simp
      qed
      ultimately show ?thesis using L True
        by (auto simp: bigint_inv_def IsClamped_iff)
    next
      case False
      then have "UnsignedAdd a b = new_bigint (ds @ [c])"
        using \<open>\<not> Length a < Length b\<close> loop by (simp add: UnsignedAdd.simps [of a b])
      moreover have "unat c < beta" using L by (simp add: beta_eq)
      ultimately show ?thesis using L False
        by (simp add: bigint_inv_def IsClamped_iff dval_append)
    qed
  qed
qed

lemma sub_digit:
  fixes x y c :: chunk
  assumes "unat x < beta" "unat y < beta" "unat c \<le> 1"
  defines "d \<equiv> x - y - c"
  shows "unat (d AND kDigitMask) + unat y + unat c = unat x + beta * unat (drop_bit kSignBitPos d)"
    and "unat (d AND kDigitMask) < beta" and "unat (drop_bit kSignBitPos d) \<le> 1"
proof -
  have yc: "unat (y + c) = unat y + unat c" using assms by (simp add: word_nat beta_eq)
  have d: "d = x - (y + c)" by (simp add: d_def)
  show "unat (d AND kDigitMask) < beta" by (simp add: word_nat)
  have du: "unat d = (if unat y + unat c \<le> unat x then unat x - (unat y + unat c)
      else unat x + 2 ^ 32 - (unat y + unat c))"
    by (simp add: d unat_sub_if' yc)
  show "unat (drop_bit kSignBitPos d) \<le> 1"
    using unat_less [of d] by (simp add: word_nat kSignBitPos_def)
  show "unat (d AND kDigitMask) + unat y + unat c = unat x + beta * unat (drop_bit kSignBitPos d)"
  proof (cases "unat y + unat c \<le> unat x")
    case True
    then show ?thesis using du assms by (simp add: word_nat kSignBitPos_def beta_eq)
  next
    case False
    let ?k = "unat x + beta - (unat y + unat c)"
    have k: "?k < beta" "unat y + unat c \<le> unat x + beta" using False assms by (auto simp: beta_eq)
    have eq: "unat d = ?k + beta * 15" using du False k by (simp add: beta_eq)
    have "unat d mod beta = ?k" using k(1) by (simp only: eq mod_mult_self2 mod_less)
    moreover have "unat d div 2 ^ 31 = 1" using eq k by (simp add: beta_eq)
    ultimately show ?thesis using k by (simp add: word_nat kSignBitPos_def)
  qed
qed

lemma sub_loop_correct:
  assumes "digits_ok xs" "digits_ok ys" "length ys \<le> length xs" "unat c \<le> 1"
    and "sub_loop xs ys c = (ds, c')"
  shows "length ds = length xs \<and> digits_ok ds \<and> unat c' \<le> 1 \<and>
    dval ds + dval ys + unat c = dval xs + beta ^ length xs * unat c'"
  using assms
proof (induction xs ys c arbitrary: ds c' rule: sub_loop.induct)
  case (1 x xs y ys borrow)
  let ?d = "x - y - borrow"
  obtain es e where rec: "sub_loop xs ys (drop_bit kSignBitPos ?d) = (es, e)" by fastforce
  have d: "unat (?d AND kDigitMask) + unat y + unat borrow = unat x + beta * unat (drop_bit kSignBitPos ?d)"
    and m: "unat (?d AND kDigitMask) < beta" and c: "unat (drop_bit kSignBitPos ?d) \<le> 1"
    using sub_digit [of x y borrow] "1.prems" by simp_all
  have IH: "length es = length xs \<and> digits_ok es \<and> unat e \<le> 1 \<and>
      dval es + dval ys + unat (drop_bit kSignBitPos ?d) = dval xs + beta ^ length xs * unat e"
    using "1.prems" c rec by (intro "1.IH" [OF refl]) simp_all
  have res: "ds = (?d AND kDigitMask) # es" "c' = e" using "1.prems" rec by (simp_all add: Let_def)
  have "dval ds + dval (y # ys) + unat borrow
      = unat x + beta * (dval es + dval ys + unat (drop_bit kSignBitPos ?d))"
    using d by (simp add: res algebra_simps)
  also have "\<dots> = dval (x # xs) + beta ^ Suc (length xs) * unat c'"
    unfolding conjunct2 [OF conjunct2 [OF conjunct2 [OF IH]]] by (simp add: res algebra_simps)
  finally show ?case using IH m res by simp
next
  case (2 x xs borrow)
  let ?d = "x - borrow"
  obtain es e where rec: "sub_loop xs [] (drop_bit kSignBitPos ?d) = (es, e)" by fastforce
  have d: "unat (?d AND kDigitMask) + unat borrow = unat x + beta * unat (drop_bit kSignBitPos ?d)"
    and m: "unat (?d AND kDigitMask) < beta" and c: "unat (drop_bit kSignBitPos ?d) \<le> 1"
    using sub_digit [of x 0 borrow] "2.prems" by simp_all
  have IH: "length es = length xs \<and> digits_ok es \<and> unat e \<le> 1 \<and>
      dval es + dval [] + unat (drop_bit kSignBitPos ?d) = dval xs + beta ^ length xs * unat e"
    using "2.prems" c rec by (intro "2.IH" [OF refl]) simp_all
  have res: "ds = (?d AND kDigitMask) # es" "c' = e" using "2.prems" rec by (simp_all add: Let_def)
  have "dval ds + unat borrow
      = unat x + beta * (dval es + dval [] + unat (drop_bit kSignBitPos ?d))"
    using d by (simp add: res algebra_simps)
  also have "\<dots> = dval (x # xs) + beta ^ Suc (length xs) * unat c'"
    unfolding conjunct2 [OF conjunct2 [OF conjunct2 [OF IH]]] by (simp add: res algebra_simps)
  finally show ?case using IH m res by simp
qed auto

text \<open>When the first magnitude is the larger one no borrow is left over, which is the
  \<open>ASSERT(borrow == 0)\<close> of the code.\<close>

lemma UnsignedSubtract_correct:
  assumes "bigint_inv a" "bigint_inv b" "dval (chunks b) \<le> dval (chunks a)"
  shows "bigint_inv (UnsignedSubtract a b)" and "\<not> IsNegative (UnsignedSubtract a b)"
    and "dval (chunks (UnsignedSubtract a b)) = dval (chunks a) - dval (chunks b)"
    and "snd (sub_loop (chunks a) (chunks b) 0) = 0"
proof -
  have ok: "bigint_ok a" "bigint_ok b" using assms by (simp_all add: bigint_inv_def)
  obtain ds c where loop: "sub_loop (chunks a) (chunks b) 0 = (ds, c)" by fastforce
  have "length (chunks b) \<le> length (chunks a)"
    using dval_mono_length [OF assms(1,2)] assms(3) ok by (force simp: bigint_ok_def)
  then have L: "length ds = length (chunks a)" "digits_ok ds"
      and eq: "dval ds + dval (chunks b) = dval (chunks a) + beta ^ length (chunks a) * unat c"
    using sub_loop_correct [OF _ _ _ _ loop] ok by (simp_all add: bigint_ok_def)
  have "unat c = 0"
  proof (rule ccontr)
    assume "unat c \<noteq> 0"
    then have "beta ^ length (chunks a) \<le> beta ^ length (chunks a) * unat c" by simp
    then show False using eq assms(3) dval_bound [OF L(2), unfolded L(1)] by linarith
  qed
  then show "snd (sub_loop (chunks a) (chunks b) 0) = 0" by (simp add: loop unat_eq_0)
  have okn: "bigint_ok (new_bigint ds)" using L by simp
  have U: "UnsignedSubtract a b = Clamp (new_bigint ds)" by (simp add: UnsignedSubtract_def loop)
  show "bigint_inv (UnsignedSubtract a b)" unfolding U by (rule Clamp_correct(1) [OF okn])
  show "\<not> IsNegative (UnsignedSubtract a b)" by (simp add: U Clamp_def SetLength_simps)
  show "dval (chunks (UnsignedSubtract a b)) = dval (chunks a) - dval (chunks b)"
    unfolding U Clamp_correct(3) [OF okn] using eq \<open>unat c = 0\<close> by simp
qed

lemma AddSubtract_correct:
  assumes "bigint_inv a" "bigint_inv b"
  shows "bigint_inv (AddSubtract a b negate_b) \<and>
    bval (AddSubtract a b negate_b) = (if negate_b then bval a - bval b else bval a + bval b)"
proof -
  have ok: "bigint_ok a" "bigint_ok b" using assms by (simp_all add: bigint_inv_def)
  let ?A = "dval (chunks a)" and ?B = "dval (chunks b)"
  let ?n = "if negate_b then \<not> IsNegative b else IsNegative b"
  let ?vb = "if ?n then - int ?B else int ?B"
  have goal_eq: "(if negate_b then bval a - bval b else bval a + bval b) = bval a + ?vb"
    by (simp add: bval_def)
  note add = UnsignedAdd_correct [OF assms]
  note cmp = UnsignedCompare_correct [OF assms]
  show ?thesis
  proof (cases "IsNegative a = ?n")
    case True
    then have "AddSubtract a b negate_b = SetSign ?n (UnsignedAdd a b)"
      by (simp add: AddSubtract_def Let_def)
    then show ?thesis
      unfolding goal_eq using add True by (auto simp: bval_SetSign bigint_inv_def bval_def [of a])
  next
    case False
    consider "?A < ?B" | "?B < ?A" | "?A = ?B" by linarith
    then show ?thesis
    proof cases
      case 1
      then have "AddSubtract a b negate_b = SetSign ?n (UnsignedSubtract b a)"
        using False cmp by (auto simp: AddSubtract_def Let_def)
      then show ?thesis
        unfolding goal_eq using UnsignedSubtract_correct [OF assms(2,1)] 1 False
        by (auto simp: bval_SetSign bigint_inv_def bval_def [of a] of_nat_diff)
    next
      case 2
      then have "AddSubtract a b negate_b = SetSign (IsNegative a) (UnsignedSubtract a b)"
        using False cmp by (auto simp: AddSubtract_def Let_def)
      then show ?thesis
        unfolding goal_eq using UnsignedSubtract_correct [OF assms] 2 False
        by (auto simp: bval_SetSign bigint_inv_def bval_def [of a] of_nat_diff)
    next
      case 3
      then have "AddSubtract a b negate_b = Zero"
        using False cmp by (auto simp: AddSubtract_def Let_def)
      then show ?thesis
        unfolding goal_eq using 3 False by (auto simp: bval_def [of a])
    qed
  qed
qed

lemma Add_correct:
  "bigint_inv a \<Longrightarrow> bigint_inv b \<Longrightarrow> bigint_inv (Add a b) \<and> bval (Add a b) = bval a + bval b"
  using AddSubtract_correct [of a b False] by (simp add: Add_def)

lemma Subtract_correct:
  "bigint_inv a \<Longrightarrow> bigint_inv b \<Longrightarrow> bigint_inv (Subtract a b) \<and> bval (Subtract a b) = bval a - bval b"
  using AddSubtract_correct [of a b True] by (simp add: Subtract_def)

subsection \<open>Bigints as an integer representation\<close>

lemma dval_inj:
  "digits_ok xs \<Longrightarrow> digits_ok ys \<Longrightarrow> length xs = length ys \<Longrightarrow> dval xs = dval ys \<Longrightarrow> xs = ys"
proof (induction xs arbitrary: ys)
  case (Cons x xs)
  then obtain y ys' where ys: "ys = y # ys'" by (cases ys) auto
  have lt: "unat x < beta" "unat y < beta" using Cons.prems ys by auto
  have eq: "unat x + beta * dval xs = unat y + beta * dval ys'" using Cons.prems ys by simp
  have "unat x = (unat x + beta * dval xs) mod beta" using lt by simp
  also have "\<dots> = unat y" unfolding eq using lt by simp
  finally have "x = y" by (simp add: word_unat_eq_iff)
  then show ?case using Cons.IH [of ys'] Cons.prems eq ys by simp
qed simp

lemma bval_inj:
  assumes a: "bigint_inv a" and b: "bigint_inv b" and eq: "bval a = bval b"
  shows "a = b"
proof -
  have d: "dval (chunks a) = dval (chunks b)"
    using eq by (auto simp: bval_def split: if_splits)
  then have "UnsignedCompare a b = 0" using UnsignedCompare_correct [OF a b] by simp
  then have "Length a = Length b" by (auto simp: UnsignedCompare_def split: if_splits)
  then have "chunks a = chunks b"
    using a b d by (intro dval_inj) (simp_all add: bigint_inv_def bigint_ok_def)
  moreover have "IsNegative a = IsNegative b"
    using IsNegative_iff [OF a] IsNegative_iff [OF b] eq by simp
  ultimately show ?thesis using a b by (intro bigint_eqI) (simp_all add: bigint_inv_def)
qed

interpretation big: int_order bigint_inv bval Compare
  by unfold_locales (use bval_inj Compare_correct in blast)+

lemma bigint_inv_new [simp]:
  "bigint_inv (new_bigint ds) \<longleftrightarrow> digits_ok ds \<and> (ds = [] \<or> last ds \<noteq> 0)"
  using IsClamped_iff [of "new_bigint ds"] by (auto simp: bigint_inv_def)

lemma new_bigint_clampedI:
  assumes "digits_ok ds" "ds \<noteq> []" "beta ^ (length ds - 1) \<le> dval ds"
  shows "bigint_inv (new_bigint ds)"
proof -
  have "last ds \<noteq> 0"
  proof
    assume "last ds = 0"
    then obtain es where es: "ds = es @ [0]" using assms(2) by (metis append_butlast_last_id)
    then have "dval ds < beta ^ length es" using dval_bound [of es] assms(1) by (simp add: dval_append)
    then show False using assms(3) es by simp
  qed
  then show ?thesis using assms(1) by simp
qed

lemma IsZero_new [simp]: "IsZero (new_bigint ds) \<longleftrightarrow> ds = []" "IsZero (ToggleSign b) \<longleftrightarrow> IsZero b"
  by (auto simp: bigint_defs)

subsection \<open>Properties\<close>

text \<open>C3: On well-formed bigints, \<open>Add\<close> and \<open>Subtract\<close> return the well-formed bigint
  of the sum and of the difference, for all signs and lengths of the operands.\<close>

theorem add_subtract_exact:
  assumes "bigint_inv a" and "bigint_inv b"
  shows "bigint_inv (Add a b) \<and> bval (Add a b) = bval a + bval b \<and>
    bigint_inv (Subtract a b) \<and> bval (Subtract a b) = bval a - bval b"
  using Add_correct [OF assms] Subtract_correct [OF assms] by simp

theorem add_subtract_exact_witness:
  "bval (Add (new_bigint [268435455, 268435455]) One) = 72057594037927936 \<and>
   bval (Subtract One (new_bigint [0, 1])) = - 268435455"
  using add_subtract_exact [of "new_bigint [268435455, 268435455]" One]
    add_subtract_exact [of One "new_bigint [0, 1]"]
  by (simp add: beta_eq)

text \<open>C5: \<open>Compare\<close> is the three-way comparison of the integers the operands denote;
  it returns 0 only for identical bigints, so it is a total order on well-formed
  bigints.\<close>

theorem compare_total_order:
  assumes "bigint_inv a" and "bigint_inv b" and "bigint_inv c"
  shows "Compare a b = sgn (bval a - bval b) \<and> (Compare a b = 0 \<longleftrightarrow> a = b) \<and>
    Compare b a = - Compare a b \<and> (Compare a b \<le> 0 \<longrightarrow> Compare b c \<le> 0 \<longrightarrow> Compare a c \<le> 0)"
  using assms big.cmp_val big.cmp_eq_0_iff big.cmp_swap big.cmp_trans by blast

theorem compare_total_order_witness:
  "Compare MinusOne (new_bigint [5, 7]) = - 1 \<and> Compare (new_bigint [5, 7]) MinusOne = 1"
  using compare_total_order [of MinusOne "new_bigint [5, 7]" Zero]
  by (simp add: beta_eq)

end
