(* ===== verification/Bigint_Mul.thy ===== *)
theory Bigint_Mul
  imports Bigint_Base
begin

text \<open>
  \<open>BigintOperations::Multiply\<close> and \<open>MultiplyWithDigit\<close>: the product is computed column
  by column (Comba multiplication) in a 64-bit accumulator. The code stops with
  \<open>UNIMPLEMENTED()\<close> when the shorter operand has more than \<open>kMaxDigits\<close> digits, which
  is the result \<open>None\<close> here; below that bound the accumulator does not overflow.
\<close>

subsection \<open>The code\<close>

definition kMaxDigits :: nat where
  "kMaxDigits =
     (let square = ucast kDigitMaxValue * ucast kDigitMaxValue :: dchunk;
          kDoubleChunkMaxValue = - 1 :: dchunk;
          left_over_carry = drop_bit kDigitBitSize kDoubleChunkMaxValue
      in unat ((kDoubleChunkMaxValue - left_over_carry) div square))"

fun column_loop :: "bigint \<Rightarrow> bigint \<Rightarrow> int \<Rightarrow> int \<Rightarrow> nat \<Rightarrow> dchunk \<Rightarrow> dchunk" where
  "column_loop a b a_index b_index 0 accumulator = accumulator"
| "column_loop a b a_index b_index (Suc iterations) accumulator =
     (let chunk_a = ucast (GetChunkAt a (nat a_index)) :: dchunk;
          chunk_b = ucast (GetChunkAt b (nat b_index)) :: dchunk
      in column_loop a b (a_index - 1) (b_index + 1) iterations (accumulator + chunk_a * chunk_b))"

definition column :: "bigint \<Rightarrow> bigint \<Rightarrow> int \<Rightarrow> dchunk \<Rightarrow> dchunk" where
  "column a b i accumulator =
     (let a_index = min (int (Length a) - 1) i;
          b_index = i - a_index;
          iterations = min (int (Length b) - b_index) (a_index + 1)
      in column_loop a b a_index b_index (nat iterations) accumulator)"

fun mult_loop :: "bigint \<Rightarrow> bigint \<Rightarrow> nat \<Rightarrow> int \<Rightarrow> dchunk \<Rightarrow> chunk list \<times> dchunk" where
  "mult_loop a b 0 i accumulator = ([], accumulator)"
| "mult_loop a b (Suc n) i accumulator =
     (let acc = column a b i accumulator;
          (ds, rest) = mult_loop a b n (i + 1) (drop_bit kDigitBitSize acc)
      in (ucast (acc AND ucast kDigitMask) # ds, rest))"

definition Multiply :: "bigint \<Rightarrow> bigint \<Rightarrow> bigint option" where
  "Multiply a b =
     (let result_length = Length a + Length b
      in if min (Length a) (Length b) > kMaxDigits then None
         else
           let result = new_bigint (fst (mult_loop a b result_length 0 0));
               result = (if IsNegative a \<noteq> IsNegative b then ToggleSign result else result)
           in Some (Clamp result))"

definition MultiplyWithDigit :: "bigint \<Rightarrow> chunk \<Rightarrow> bigint option" where
  "MultiplyWithDigit b digit =
     (if digit = 0 then Some Zero else Multiply b (new_bigint [digit]))"

subsection \<open>Columns of a product\<close>

definition coeff :: "chunk list \<Rightarrow> nat \<Rightarrow> nat" where
  "coeff ds i = (if i < length ds then unat (ds ! i) else 0)"

definition col :: "chunk list \<Rightarrow> chunk list \<Rightarrow> nat \<Rightarrow> nat" where
  "col xs ys i = (\<Sum>k<length xs. if k \<le> i then coeff xs k * coeff ys (i - k) else 0)"

lemma coeff_Cons [simp]: "coeff (d # ds) 0 = unat d" "coeff (d # ds) (Suc i) = coeff ds i"
  by (simp_all add: coeff_def)

lemma dval_coeff: "length ds \<le> n \<Longrightarrow> (\<Sum>i<n. coeff ds i * beta ^ i) = dval ds"
proof (induction ds arbitrary: n)
  case (Cons d ds)
  then obtain m where n: "n = Suc m" and m: "length ds \<le> m" by (cases n) auto
  have "(\<Sum>i<n. coeff (d # ds) i * beta ^ i) = unat d + beta * (\<Sum>i<m. coeff ds i * beta ^ i)"
    unfolding n sum.lessThan_Suc_shift by (simp add: sum_distrib_left algebra_simps)
  then show ?case using Cons.IH [OF m] by simp
qed (simp add: coeff_def)

lemma col_Cons:
  "col (x # xs) ys i = unat x * coeff ys i + (if i = 0 then 0 else col xs ys (i - 1))"
proof -
  have "col (x # xs) ys i = unat x * coeff ys i +
      (\<Sum>k<length xs. if Suc k \<le> i then coeff xs k * coeff ys (i - Suc k) else 0)"
    unfolding col_def by (simp add: sum.lessThan_Suc_shift del: sum.lessThan_Suc cong: if_cong)
  moreover have "i \<noteq> 0 \<Longrightarrow> (\<Sum>k<length xs. if Suc k \<le> i then coeff xs k * coeff ys (i - Suc k) else 0)
      = col xs ys (i - 1)"
    unfolding col_def by (intro sum.cong) (auto simp: Suc_le_eq)
  ultimately show ?thesis by auto
qed

lemma dval_mult_col:
  "length xs + length ys \<le> n \<Longrightarrow> (\<Sum>i<n. col xs ys i * beta ^ i) = dval xs * dval ys"
proof (induction xs arbitrary: n)
  case (Cons x xs)
  then obtain m where n: "n = Suc m" and m: "length xs + length ys \<le> m" by (cases n) auto
  have "(\<Sum>i<n. col (x # xs) ys i * beta ^ i)
      = (\<Sum>i<n. unat x * (coeff ys i * beta ^ i)) +
        (\<Sum>i<n. (if i = 0 then 0 else col xs ys (i - 1)) * beta ^ i)"
    by (simp add: col_Cons sum.distrib algebra_simps)
  also have "(\<Sum>i<n. unat x * (coeff ys i * beta ^ i)) = unat x * dval ys"
    using Cons.prems by (simp add: dval_coeff flip: sum_distrib_left)
  also have "(\<Sum>i<n. (if i = 0 then 0 else col xs ys (i - 1)) * beta ^ i)
      = beta * (\<Sum>i<m. col xs ys i * beta ^ i)"
    unfolding n sum.lessThan_Suc_shift by (simp add: sum_distrib_left algebra_simps)
  also have "(\<Sum>i<m. col xs ys i * beta ^ i) = dval xs * dval ys" by (rule Cons.IH [OF m])
  finally show ?case by (simp add: algebra_simps)
qed (simp add: col_def)

subsection \<open>The column loop\<close>

lemma unat_ucast_chunk [simp]: "unat (ucast (c :: chunk) :: dchunk) = unat c"
  using unat_less [of c] by (simp add: unat_ucast_no_wrap)

lemma mult_bound: "x < beta \<Longrightarrow> y < beta \<Longrightarrow> x * y \<le> (beta - 1) ^ 2"
  by (simp add: power2_eq_square mult_le_mono)

lemma column_loop_correct:
  assumes "digits_ok (chunks a)" "digits_ok (chunks b)"
    and "int n \<le> ai + 1" "ai < int (length (chunks a))"
    and "0 \<le> bi" "n = 0 \<or> bi + int n \<le> int (length (chunks b))"
    and "unat acc + n * (beta - 1) ^ 2 < 2 ^ 64"
  shows "unat (column_loop a b ai bi n acc)
    = unat acc + (\<Sum>j<n. unat (chunks a ! nat (ai - int j)) * unat (chunks b ! nat (bi + int j)))"
  using assms(3-)
proof (induction n arbitrary: ai bi acc)
  case (Suc n)
  let ?x = "chunks a ! nat ai" and ?y = "chunks b ! nat bi"
  have "unat ?x < beta" "unat ?y < beta"
    using assms(1,2) Suc.prems by (auto intro: digits_ok_nth)
  then have p: "unat ?x * unat ?y \<le> (beta - 1) ^ 2" by (rule mult_bound)
  define acc' where "acc' = acc + ucast ?x * (ucast ?y :: dchunk)"
  have "unat (ucast ?x * (ucast ?y :: dchunk)) = unat ?x * unat ?y"
    using p by (subst unat_mult_no_wrap) (simp_all add: beta_eq)
  then have acc': "unat acc' = unat acc + unat ?x * unat ?y"
    using p Suc.prems(5) unfolding acc'_def by (subst unat_add_no_wrap) (simp_all add: beta_eq)
  have "unat (column_loop a b ai bi (Suc n) acc) = unat (column_loop a b (ai - 1) (bi + 1) n acc')"
    by (simp add: GetChunkAt_def acc'_def)
  also have "\<dots> = unat acc' +
      (\<Sum>j<n. unat (chunks a ! nat (ai - 1 - int j)) * unat (chunks b ! nat (bi + 1 + int j)))"
    using Suc.prems p acc' by (intro Suc.IH) (simp_all add: algebra_simps)
  finally show ?case
    unfolding sum.lessThan_Suc_shift acc' by (simp add: algebra_simps)
qed simp


lemma col_reindex:
  fixes i :: nat
  assumes "0 < length xs"
  defines "ai \<equiv> min (length xs - 1) i"
  shows "col xs ys i = (\<Sum>j<min (length ys - (i - ai)) (ai + 1).
    unat (xs ! (ai - j)) * unat (ys ! (i - ai + j)))"
proof -
  let ?m = "min (length ys - (i - ai)) (ai + 1)"
  have ai: "ai \<le> i" "ai < length xs" using assms by (auto simp: min_less_iff_disj)
  have "col xs ys i = (\<Sum>k\<in>{..ai}. coeff xs k * coeff ys (i - k))"
    unfolding col_def using ai by (intro sum.mono_neutral_cong_right) (auto simp: ai_def)
  also have "\<dots> = (\<Sum>j\<in>{..ai}. coeff xs (ai - j) * coeff ys (i - ai + j))"
    using ai by (intro sum.reindex_bij_witness [where i = "\<lambda>j. ai - j" and j = "\<lambda>k. ai - k"]) auto
  also have "\<dots> = (\<Sum>j<?m. unat (xs ! (ai - j)) * unat (ys ! (i - ai + j)))"
    using ai by (intro sum.mono_neutral_cong_right) (auto simp: coeff_def)
  finally show ?thesis .
qed

lemma column_correct:
  assumes ok: "bigint_ok a" "bigint_ok b"
    and "min (Length a) (Length b) * (beta - 1) ^ 2 + unat acc < 2 ^ 64"
  shows "unat (column a b (int i) acc) = unat acc + col (chunks a) (chunks b) i"
proof (cases "chunks a = []")
  case True
  then show ?thesis using ok by (simp add: column_def col_def bigint_ok_def)
next
  case False
  let ?xs = "chunks a" and ?ys = "chunks b"
  define ai where "ai = min (length ?xs - 1) i"
  define m where "m = min (length ?ys - (i - ai)) (ai + 1)"
  have len: "Length a = length ?xs" "Length b = length ?ys" using ok by (simp_all add: bigint_ok_def)
  have a_index: "min (int (Length a) - 1) (int i) = int ai"
    using False len by (auto simp: ai_def min_def of_nat_diff Suc_le_eq)
  have ai: "ai \<le> i" "ai < length ?xs" using False by (auto simp: ai_def min_less_iff_disj)
  have b_index: "int i - int ai = int (i - ai)" using ai by simp
  have it: "nat (min (int (Length b) - int (i - ai)) (int ai + 1)) = m"
    using len by (auto simp: m_def min_def)
  have mle: "m \<le> min (Length a) (Length b)" using ai len by (auto simp: m_def Suc_le_eq)
  have "unat (column a b (int i) acc) = unat (column_loop a b (int ai) (int (i - ai)) m acc)"
    by (simp only: column_def Let_def a_index b_index it)
  also have "\<dots> = unat acc + (\<Sum>j<m. unat (?xs ! nat (int ai - int j)) * unat (?ys ! nat (int (i - ai) + int j)))"
  proof (rule column_loop_correct)
    have "m * (beta - 1) ^ 2 \<le> min (Length a) (Length b) * (beta - 1) ^ 2"
      using mle by (rule mult_le_mono1)
    then show "unat acc + m * (beta - 1) ^ 2 < 2 ^ 64" using assms(3) by linarith
  qed (use ok ai in \<open>auto simp: bigint_ok_def m_def\<close>)
  also have "(\<Sum>j<m. unat (?xs ! nat (int ai - int j)) * unat (?ys ! nat (int (i - ai) + int j)))
      = (\<Sum>j<m. unat (?xs ! (ai - j)) * unat (?ys ! (i - ai + j)))"
    by (intro sum.cong) (auto simp: m_def nat_add_distrib nat_diff_distrib)
  also have "\<dots> = col ?xs ?ys i"
    using col_reindex [of ?xs ?ys i] False by (simp add: m_def ai_def)
  finally show ?thesis .
qed

subsection \<open>The product\<close>

lemma ucast_kDigitMask: "ucast kDigitMask = (268435455 :: dchunk)"
  by (rule word_unat_eq_iff [THEN iffD2]) (simp add: unat_kDigitMask beta_eq)

lemma kMaxDigits_eq: "kMaxDigits = 256"
proof -
  have sq: "unat (268435455 * 268435455 :: dchunk) = 72057593501057025"
    by (subst unat_mult_no_wrap) simp_all
  have lc: "unat (drop_bit 28 (- 1 :: dchunk)) = 68719476735"
    unfolding unat_drop_bit unat_minus_1 by simp
  have df: "unat (- 1 - drop_bit 28 (- 1) :: dchunk) = 2 ^ 64 - 2 ^ 36"
    unfolding unat_sub_if' unat_minus_1 lc by simp
  show ?thesis
    unfolding kMaxDigits_def kDigitBitSize_def Let_def ucast_kDigitMask unat_div_distrib df sq by simp
qed

lemma dchunk_split:
  fixes acc :: dchunk
  shows "unat (ucast (acc AND ucast kDigitMask) :: chunk) = unat acc mod beta"
    and "unat (drop_bit kDigitBitSize acc) = unat acc div beta"
proof -
  have mk: "(ucast kDigitMask :: dchunk) = mask 28"
    by (simp add: ucast_kDigitMask mask_eq_exp_minus_1)
  have "unat (acc AND ucast kDigitMask) = unat acc mod beta"
    unfolding mk unat_and_mask by (simp add: beta_eq)
  moreover have "unat acc mod beta < 2 ^ 32"
    by (rule less_trans [of _ beta]) (simp_all add: beta_eq)
  ultimately show "unat (ucast (acc AND ucast kDigitMask) :: chunk) = unat acc mod beta"
    by (simp add: unat_ucast_no_wrap)
  show "unat (drop_bit kDigitBitSize acc) = unat acc div beta" by (simp add: word_nat)
qed

lemma mult_loop_correct:
  assumes ok: "bigint_ok a" "bigint_ok b" and len: "min (Length a) (Length b) \<le> kMaxDigits"
    and "unat acc < 2 ^ 36" and "mult_loop a b n (int i) acc = (ds, r)"
  shows "length ds = n \<and> digits_ok ds \<and>
    dval ds + beta ^ n * unat r = unat acc + (\<Sum>k<n. col (chunks a) (chunks b) (i + k) * beta ^ k)"
  using assms(4,5)
proof (induction n arbitrary: i acc ds r)
  case (Suc n)
  let ?C = "col (chunks a) (chunks b)"
  define acc' where "acc' = column a b (int i) acc"
  obtain es where rec: "mult_loop a b n (int (Suc i)) (drop_bit kDigitBitSize acc') = (es, r)"
      and ds: "ds = ucast (acc' AND ucast kDigitMask) # es"
    using Suc.prems(2) by (auto simp: Let_def acc'_def add.commute split: prod.splits)
  have "min (Length a) (Length b) * (beta - 1) ^ 2 \<le> 256 * (beta - 1) ^ 2"
    using len by (intro mult_le_mono1) (simp add: kMaxDigits_eq)
  moreover have "256 * (beta - 1) ^ 2 + unat acc < 2 ^ 64"
    using Suc.prems(1) unfolding beta_eq by simp
  ultimately have acc': "unat acc' = unat acc + ?C i"
    unfolding acc'_def by (intro column_correct ok) linarith
  have "unat (drop_bit kDigitBitSize acc') < 2 ^ 36"
    using unat_less [of acc'] by (simp add: word_nat beta_eq)
  from Suc.IH [OF this rec] have IH: "length es = n" "digits_ok es"
      "dval es + beta ^ n * unat r = unat acc' div beta + (\<Sum>k<n. ?C (Suc i + k) * beta ^ k)"
    by (simp_all add: dchunk_split)
  have "dval ds + beta ^ Suc n * unat r = unat acc' mod beta + beta * (dval es + beta ^ n * unat r)"
    by (simp add: ds dchunk_split algebra_simps)
  also have "\<dots> = unat acc' + beta * (\<Sum>k<n. ?C (Suc i + k) * beta ^ k)"
    unfolding IH(3) by (simp add: algebra_simps)
  also have "\<dots> = unat acc + (\<Sum>k<Suc n. ?C (i + k) * beta ^ k)"
    unfolding acc' sum.lessThan_Suc_shift by (simp add: sum_distrib_left algebra_simps)
  finally show ?case using IH ds by (simp add: dchunk_split)
qed simp

lemma Multiply_total: "Multiply a b = None \<longleftrightarrow> kMaxDigits < min (Length a) (Length b)"
  by (simp add: Multiply_def Let_def)

lemma Multiply_correct:
  assumes "bigint_ok a" "bigint_ok b" "min (Length a) (Length b) \<le> kMaxDigits"
  shows "\<exists>r. Multiply a b = Some r \<and> bigint_inv r \<and> bval r = bval a * bval b \<and>
    snd (mult_loop a b (Length a + Length b) 0 0) = 0"
proof -
  let ?n = "Length a + Length b"
  obtain ds r where loop: "mult_loop a b ?n 0 0 = (ds, r)" by fastforce
  have L: "length ds = ?n" "digits_ok ds"
      "dval ds + beta ^ ?n * unat r = (\<Sum>k<?n. col (chunks a) (chunks b) k * beta ^ k)"
    using mult_loop_correct [OF assms, of 0 ?n 0 ds r] loop by simp_all
  have "(\<Sum>k<?n. col (chunks a) (chunks b) k * beta ^ k) = dval (chunks a) * dval (chunks b)"
    using assms by (intro dval_mult_col) (simp add: bigint_ok_def)
  with L(3) have eq: "dval ds + beta ^ ?n * unat r = dval (chunks a) * dval (chunks b)" by simp
  moreover have "dval (chunks a) * dval (chunks b) < beta ^ ?n"
    unfolding power_add using assms dval_bound [of "chunks a"] dval_bound [of "chunks b"]
    by (intro mult_strict_mono) (auto simp: bigint_ok_def)
  ultimately have r: "unat r = 0" by (rule no_carry)
  with eq have dv: "dval ds = dval (chunks a) * dval (chunks b)" by simp
  define res where "res = (if IsNegative a \<noteq> IsNegative b then ToggleSign (new_bigint ds) else new_bigint ds)"
  have okr: "bigint_ok res" using L(2) by (simp add: res_def)
  have "Multiply a b = Some (Clamp res)"
    using assms(3) by (auto simp: Multiply_def Let_def loop res_def)
  moreover have "bval res = (if IsNegative a = IsNegative b then int (dval ds) else - int (dval ds))"
    using L(2) by (simp add: res_def)
  then have "bval res = bval a * bval b"
    by (simp add: dv bval_def [of a] bval_def [of b])
  ultimately show ?thesis using Clamp_correct [OF okr] r loop by (simp add: unat_eq_0)
qed

lemma MultiplyWithDigit_correct:
  assumes "bigint_ok b" "unat digit < beta"
  shows "\<exists>r. MultiplyWithDigit b digit = Some r \<and> bigint_inv r \<and> bval r = bval b * int (unat digit)"
proof (cases "digit = 0")
  case False
  have "bigint_ok (new_bigint [digit])" "min (Length b) (Length (new_bigint [digit])) \<le> kMaxDigits"
    using assms by (simp_all add: kMaxDigits_eq)
  from Multiply_correct [OF assms(1) this] False show ?thesis
    by (auto simp: MultiplyWithDigit_def)
qed (simp add: MultiplyWithDigit_def)

subsection \<open>Bigints as a ring\<close>

interpretation big: int_ring bigint_inv bval Add Subtract Multiply
proof unfold_locales
  fix a b r
  assume "bigint_inv a" "bigint_inv b" "Multiply a b = Some r"
  then show "bigint_inv r \<and> bval r = bval a * bval b"
    using Multiply_correct [of a b] Multiply_total [of a b] by (fastforce simp: bigint_inv_def)
qed (use bval_inj Add_correct Subtract_correct in blast)+

subsection \<open>Properties\<close>

text \<open>C2: \<open>Multiply\<close> returns the exact product whenever the shorter operand has at most
  256 digits; no column sum overflows the 64-bit accumulator, and no carry is left
  after the last column (the final \<open>ASSERT\<close> of the code). For longer operands the code stops with
  \<open>UNIMPLEMENTED()\<close>.\<close>

theorem multiply_exact:
  assumes "bigint_inv a" and "bigint_inv b"
  shows "(case Multiply a b of
      Some r \<Rightarrow> min (Length a) (Length b) \<le> 256 \<and> bigint_inv r \<and> bval r = bval a * bval b \<and>
        snd (mult_loop a b (Length a + Length b) 0 0) = 0
    | None \<Rightarrow> 256 < min (Length a) (Length b))"
proof (cases "min (Length a) (Length b) \<le> kMaxDigits")
  case True
  then show ?thesis using Multiply_correct [of a b] assms
    by (auto simp: bigint_inv_def kMaxDigits_eq)
next
  case False
  then have "Multiply a b = None" unfolding Multiply_total by linarith
  then show ?thesis using False by (auto simp: kMaxDigits_eq)
qed

theorem multiply_exact_witness:
  "map_option bval (Multiply (new_bigint [268435455, 3]) MinusOne) = Some (- 1073741823)"
  using multiply_exact [of "new_bigint [268435455, 3]" MinusOne]
  by (auto simp: beta_eq MinusOne_def One_def split: option.splits)

text \<open>Addition, subtraction and multiplication of well-formed bigints obey the ring
  laws on the objects themselves: the results are identical representations.\<close>

lemma arithmetic_ring_laws:
  assumes "bigint_inv a" and "bigint_inv b" and "bigint_inv c"
  shows "Add a b = Add b a \<and> Add (Add a b) c = Add a (Add b c) \<and> Subtract (Add a b) b = a \<and>
    (\<forall>x y z. Multiply a b = Some x \<longrightarrow> Multiply a c = Some y \<longrightarrow> Multiply a (Add b c) = Some z \<longrightarrow> z = Add x y)"
  using assms big.add_commute big.add_assoc big.add_sub_cancel big.mul_add_distrib by blast

end
