(* ===== verification/Bigint_Shift.thy ===== *)
theory Bigint_Shift
  imports Bigint_Base
begin

text \<open>
  \<open>BigintOperations::ShiftLeft\<close>, \<open>ShiftRight\<close> and \<open>DigitsShiftLeft\<close>. A shift moves whole
  digits and then shifts the remaining bits with a carry between digits; a right
  shift of a negative number rounds towards minus infinity.
\<close>

subsection \<open>The code\<close>

fun shl_loop :: "nat \<Rightarrow> chunk list \<Rightarrow> chunk \<Rightarrow> chunk list \<times> chunk" where
  "shl_loop bit_shift [] carry = ([], carry)"
| "shl_loop bit_shift (digit # digits) carry =
     (let shifted_digit = (push_bit bit_shift digit AND kDigitMask) + carry;
          (ds, c) = shl_loop bit_shift digits (drop_bit (kDigitBitSize - bit_shift) digit)
      in (shifted_digit # ds, c))"

definition ShiftLeft :: "bigint \<Rightarrow> nat \<Rightarrow> bigint" where
  "ShiftLeft b amount =
     (if IsZero b then Zero
      else if amount = 0 then Copy b
      else
        let digit_shift = amount div kDigitBitSize;
            bit_shift = amount mod kDigitBitSize
        in if bit_shift = 0
           then
             let result = new_bigint (replicate digit_shift 0 @ chunks b)
             in if IsNegative b then ToggleSign result else result
           else
             let (ds, carry) = shl_loop bit_shift (chunks b) 0;
                 result = new_bigint (replicate digit_shift 0 @ ds @ [carry])
             in Clamp (if IsNegative b then ToggleSign result else result))"

definition DigitsShiftLeft :: "bigint \<Rightarrow> nat \<Rightarrow> bigint" where
  "DigitsShiftLeft b amount = ShiftLeft b (amount * kDigitBitSize)"

text \<open>The loop of \<open>ShiftRight\<close> runs from the most significant digit down, so the
  recursion handles the higher digits first and hands their carry to the digit below.\<close>

fun shr_loop :: "nat \<Rightarrow> chunk list \<Rightarrow> chunk list \<times> chunk" where
  "shr_loop bit_shift [] = ([], 0)"
| "shr_loop bit_shift (digit # digits) =
     (let (ds, carry) = shr_loop bit_shift digits;
          shifted_digit = drop_bit bit_shift digit + carry
      in (shifted_digit # ds, push_bit (kDigitBitSize - bit_shift) digit AND kDigitMask))"

definition needs_rounding :: "bigint \<Rightarrow> nat \<Rightarrow> nat \<Rightarrow> bool" where
  "needs_rounding b digit_shift bit_shift =
     (if list_ex (\<lambda>d. d \<noteq> 0) (take digit_shift (chunks b)) then True
      else if bit_shift > 0
      then push_bit (kChunkBitSize - bit_shift) (GetChunkAt b digit_shift) \<noteq> 0
      else False)"

definition ShiftRight :: "bigint \<Rightarrow> nat \<Rightarrow> bigint" where
  "ShiftRight b amount =
     (if IsZero b then Zero
      else if amount = 0 then Copy b
      else
        let digit_shift = amount div kDigitBitSize;
            bit_shift = amount mod kDigitBitSize
        in if digit_shift \<ge> Length b then (if IsNegative b then MinusOne else Zero)
           else
             let result =
                   (if bit_shift = 0 then new_bigint (drop digit_shift (chunks b))
                    else Clamp (new_bigint (fst (shr_loop bit_shift (drop digit_shift (chunks b))))))
             in if IsNegative b
                then
                  let result = ToggleSign result
                  in if needs_rounding b digit_shift bit_shift then Subtract result One else result
                else result)"

subsection \<open>Shifting left\<close>

lemma beta_split: "s \<le> kDigitBitSize \<Longrightarrow> beta = 2 ^ s * 2 ^ (kDigitBitSize - s)"
  by (simp add: beta_def flip: power_add)

lemma unat_push_bit_mask:
  fixes d :: chunk
  shows "unat (push_bit s d AND kDigitMask) = (unat d * 2 ^ s) mod beta"
proof -
  have "beta dvd 2 ^ LENGTH(32)" by (simp add: beta_eq)
  then show ?thesis by (simp only: unat_and_kDigitMask unat_push_bit mod_mod_cancel)
qed

lemma mod_mult_pow: "(d * 2 ^ s) mod (2 ^ s * 2 ^ t) = 2 ^ s * (d mod 2 ^ t)" for d :: nat
  unfolding mult.commute [of d] by (rule mult_mod_right [symmetric])

lemma shl_digit:
  fixes d c :: chunk
  assumes "s < kDigitBitSize" "unat d < beta" "unat c < 2 ^ s"
  defines "x \<equiv> (push_bit s d AND kDigitMask) + c"
  shows "unat x + beta * unat (drop_bit (kDigitBitSize - s) d) = unat d * 2 ^ s + unat c"
    and "unat x < beta" and "unat (drop_bit (kDigitBitSize - s) d) < 2 ^ s"
proof -
  let ?t = "kDigitBitSize - s"
  have b: "beta = 2 ^ s * 2 ^ ?t" using assms(1) by (intro beta_split) simp
  have p: "unat (push_bit s d AND kDigitMask) = 2 ^ s * (unat d mod 2 ^ ?t)"
    using assms(1) by (simp add: unat_push_bit_mask b mod_mult_pow)
  have "unat d mod 2 ^ ?t + 1 \<le> 2 ^ ?t" by (simp add: Suc_leI)
  then have "2 ^ s * (unat d mod 2 ^ ?t + 1) \<le> beta" unfolding b by (rule mult_le_mono2)
  then have lt: "2 ^ s * (unat d mod 2 ^ ?t) + unat c < beta"
    using assms(3) by (simp add: algebra_simps)
  then have x: "unat x = 2 ^ s * (unat d mod 2 ^ ?t) + unat c"
    unfolding x_def by (subst unat_add_no_wrap) (simp_all add: p beta_eq)
  show "unat x < beta" using lt x by simp
  show "unat (drop_bit ?t d) < 2 ^ s"
    using assms(2) unfolding b unat_drop_bit by (simp add: less_mult_imp_div_less)
  have "2 ^ s * (unat d mod 2 ^ ?t) + beta * (unat d div 2 ^ ?t)
      = 2 ^ s * (unat d mod 2 ^ ?t + 2 ^ ?t * (unat d div 2 ^ ?t))"
    unfolding b by (simp only: algebra_simps)
  also have "\<dots> = unat d * 2 ^ s" by (simp add: mult.commute)
  finally show "unat x + beta * unat (drop_bit ?t d) = unat d * 2 ^ s + unat c"
    by (simp add: x unat_drop_bit)
qed

lemma shl_loop_correct:
  assumes "s < kDigitBitSize" "digits_ok ds" "unat c < 2 ^ s" "shl_loop s ds c = (rs, c')"
  shows "length rs = length ds \<and> digits_ok rs \<and> unat c' < 2 ^ s \<and>
    dval rs + beta ^ length ds * unat c' = dval ds * 2 ^ s + unat c"
  using assms(2-)
proof (induction ds arbitrary: c rs c')
  case (Cons d ds)
  let ?x = "(push_bit s d AND kDigitMask) + c" and ?c = "drop_bit (kDigitBitSize - s) d"
  have d: "unat ?x + beta * unat ?c = unat d * 2 ^ s + unat c" "unat ?x < beta" "unat ?c < 2 ^ s"
    using shl_digit [OF assms(1), of d c] Cons.prems by simp_all
  obtain es where rec: "shl_loop s ds ?c = (es, c')" and rs: "rs = ?x # es"
    using Cons.prems(3) by (auto simp: Let_def split: prod.splits)
  have IH: "length es = length ds" "digits_ok es" "unat c' < 2 ^ s"
      "dval es + beta ^ length ds * unat c' = dval ds * 2 ^ s + unat ?c"
    using Cons.IH [OF _ d(3) rec] Cons.prems by simp_all
  have "dval rs + beta ^ length (d # ds) * unat c' = unat ?x + beta * (dval es + beta ^ length ds * unat c')"
    by (simp add: rs algebra_simps)
  also have "\<dots> = dval (d # ds) * 2 ^ s + unat c"
    unfolding IH(4) using d(1) by (simp add: algebra_simps)
  finally show ?case using IH d rs by simp
qed simp

lemma beta_power_shift: "beta ^ n = 2 ^ (n * kDigitBitSize)"
  by (simp add: beta_def power_mult mult.commute)

lemma ShiftLeft_correct:
  assumes "bigint_inv b"
  shows "bigint_inv (ShiftLeft b n) \<and> bval (ShiftLeft b n) = bval b * 2 ^ n"
proof -
  have ok: "bigint_ok b" using assms by (simp add: bigint_inv_def)
  let ?q = "n div kDigitBitSize" and ?s = "n mod kDigitBitSize"
  let ?sgn = "\<lambda>r. if IsNegative b then ToggleSign r else r"
  have pow: "(2 :: nat) ^ n = beta ^ ?q * 2 ^ ?s"
    by (simp add: beta_power_shift flip: power_add)
  have sgn: "bval (?sgn (new_bigint ds)) = bval b * 2 ^ n"
    if "digits_ok ds" "dval ds = dval (chunks b) * 2 ^ n" for ds
    using that by (simp add: bval_def [of b])
  consider "IsZero b" | "\<not> IsZero b" "n = 0" | "\<not> IsZero b" "n \<noteq> 0" "?s = 0"
    | "\<not> IsZero b" "n \<noteq> 0" "?s \<noteq> 0" by blast
  then show ?thesis
  proof cases
    case 1
    then show ?thesis using IsZero_iff [OF assms] by (simp add: ShiftLeft_def)
  next
    case 2
    then show ?thesis using assms Copy_correct [OF ok] by (simp add: ShiftLeft_def)
  next
    case 3
    let ?ds = "replicate ?q 0 @ chunks b"
    have S: "ShiftLeft b n = ?sgn (new_bigint ?ds)" using 3 by (simp add: ShiftLeft_def Let_def)
    have dk: "digits_ok ?ds" using ok by (simp add: bigint_ok_def)
    have "chunks b \<noteq> []" using 3 ok by (auto simp: bigint_ok_def bigint_defs)
    then have "bigint_inv (new_bigint ?ds)"
      using assms dk IsClamped_iff [OF ok] by (simp add: bigint_inv_def IsClamped_iff)
    moreover have "dval ?ds = dval (chunks b) * 2 ^ n"
      using 3 by (simp add: dval_append pow)
    ultimately show ?thesis unfolding S using sgn [OF dk] by simp
  next
    case 4
    obtain ds c where loop: "shl_loop ?s (chunks b) 0 = (ds, c)" by fastforce
    have L: "length ds = length (chunks b)" "digits_ok ds" "unat c < 2 ^ ?s"
        "dval ds + beta ^ length (chunks b) * unat c = dval (chunks b) * 2 ^ ?s"
      using shl_loop_correct [OF _ _ _ loop] ok 4 by (simp_all add: bigint_ok_def kDigitBitSize_def)
    let ?ds = "replicate ?q 0 @ ds @ [c]"
    have S: "ShiftLeft b n = Clamp (?sgn (new_bigint ?ds))"
      using 4 loop by (simp add: ShiftLeft_def Let_def)
    have "(2 :: nat) ^ ?s < beta"
      unfolding beta_def by (intro power_strict_increasing) (simp_all add: kDigitBitSize_def)
    with L(3) have "unat c < beta" by (rule less_trans)
    then have dk: "digits_ok ?ds" using L(2) by simp
    have "dval ?ds = beta ^ ?q * (dval (chunks b) * 2 ^ ?s)"
      by (simp add: dval_append L(1) flip: L(4))
    then have "dval ?ds = dval (chunks b) * 2 ^ n" by (simp add: pow)
    then show ?thesis unfolding S using sgn [OF dk] Clamp_correct [of "?sgn (new_bigint ?ds)"] dk by simp
  qed
qed

lemma DigitsShiftLeft_correct:
  "bigint_inv b \<Longrightarrow> bigint_inv (DigitsShiftLeft b n) \<and> bval (DigitsShiftLeft b n) = bval b * int beta ^ n"
  using ShiftLeft_correct [of b "n * kDigitBitSize"]
  by (simp add: DigitsShiftLeft_def beta_def power_mult mult.commute)


subsection \<open>Shifting right\<close>

lemma shr_digit:
  fixes d c :: chunk
  assumes "s < kDigitBitSize" "unat d < beta" "unat c = r * 2 ^ (kDigitBitSize - s)" "r < 2 ^ s"
  shows "unat (drop_bit s d + c) = unat d div 2 ^ s + r * 2 ^ (kDigitBitSize - s)"
    and "unat (drop_bit s d + c) < beta"
proof -
  let ?t = "kDigitBitSize - s"
  have b: "beta = 2 ^ s * 2 ^ ?t" using assms(1) by (intro beta_split) simp
  have "unat d div 2 ^ s < 2 ^ ?t"
    using assms(2) unfolding b by (simp add: less_mult_imp_div_less mult.commute)
  moreover have "(r + 1) * 2 ^ ?t \<le> beta" unfolding b using assms(4) by (intro mult_le_mono1) simp
  ultimately have lt: "unat d div 2 ^ s + r * 2 ^ ?t < beta" by (simp add: algebra_simps)
  show eq: "unat (drop_bit s d + c) = unat d div 2 ^ s + r * 2 ^ ?t"
    using lt by (subst unat_add_no_wrap) (simp_all add: unat_drop_bit assms(3) beta_eq)
  show "unat (drop_bit s d + c) < beta" using lt eq by simp
qed

lemma shr_loop_correct:
  assumes "s < kDigitBitSize" "digits_ok ds" "shl = shr_loop s ds"
  shows "length (fst shl) = length ds \<and> digits_ok (fst shl) \<and> dval (fst shl) = dval ds div 2 ^ s \<and>
    unat (snd shl) = (dval ds mod 2 ^ s) * 2 ^ (kDigitBitSize - s)"
  using assms(2,3)
proof (induction ds arbitrary: shl)
  case (Cons d ds)
  let ?t = "kDigitBitSize - s"
  obtain es c where rec: "shr_loop s ds = (es, c)" by fastforce
  let ?V = "dval ds" and ?x = "drop_bit s d + c"
  have b: "beta = 2 ^ s * 2 ^ ?t" using assms(1) by (intro beta_split) simp
  have d: "unat d < beta" using Cons.prems by simp
  have IH: "length es = length ds" "digits_ok es" "dval es = ?V div 2 ^ s"
      "unat c = (?V mod 2 ^ s) * 2 ^ ?t"
    using Cons.IH [of "(es, c)"] Cons.prems rec by simp_all
  note x = shr_digit [OF assms(1) d IH(4)]
  have V: "beta * ?V = 2 ^ s * (?V mod 2 ^ s * 2 ^ ?t + beta * (?V div 2 ^ s))"
  proof -
    have "beta * ?V = beta * (?V mod 2 ^ s + 2 ^ s * (?V div 2 ^ s))" by simp
    also have "\<dots> = 2 ^ s * (?V mod 2 ^ s * 2 ^ ?t + beta * (?V div 2 ^ s))"
      unfolding b by (simp only: algebra_simps)
    finally show ?thesis .
  qed
  have "dval (d # ds) div 2 ^ s = unat d div 2 ^ s + (?V mod 2 ^ s * 2 ^ ?t + beta * (?V div 2 ^ s))"
    by (simp add: V)
  moreover have "dval (d # ds) mod 2 ^ s = unat d mod 2 ^ s" by (simp add: V)
  moreover have "unat (push_bit ?t d AND kDigitMask) = (unat d mod 2 ^ s) * 2 ^ ?t"
    unfolding unat_push_bit_mask b mult.commute [of "2 ^ s" "2 ^ ?t"] mod_mult_pow
    by (rule mult.commute)
  ultimately show ?case using IH x Cons.prems(2) rec by (simp add: Let_def)
qed simp

lemma dval_drop: "digits_ok ds \<Longrightarrow> n \<le> length ds \<Longrightarrow> dval (drop n ds) = dval ds div beta ^ n"
  and dval_take: "digits_ok ds \<Longrightarrow> n \<le> length ds \<Longrightarrow> dval (take n ds) = dval ds mod beta ^ n"
proof -
  assume ok: "digits_ok ds" and n: "n \<le> length ds"
  have eq: "dval ds = dval (take n ds) + beta ^ n * dval (drop n ds)"
    using dval_append [of "take n ds" "drop n ds"] n by simp
  have lt: "dval (take n ds) < beta ^ n" using dval_bound [OF digits_ok_take [OF ok], of n] n by simp
  show "dval (drop n ds) = dval ds div beta ^ n" unfolding eq using lt by simp
  show "dval (take n ds) = dval ds mod beta ^ n" unfolding eq using lt by simp
qed

lemma push_bit_top_eq_0:
  fixes d :: chunk
  assumes "s \<le> 32"
  shows "push_bit (32 - s) d = 0 \<longleftrightarrow> unat d mod 2 ^ s = 0"
proof -
  have p: "(2 :: nat) ^ LENGTH(32) = 2 ^ (32 - s) * 2 ^ s" using assms by (simp flip: power_add)
  have "unat (push_bit (32 - s) d) = 2 ^ (32 - s) * (unat d mod 2 ^ s)"
    unfolding unat_push_bit p by (rule mod_mult_pow)
  then show ?thesis by (simp flip: unat_eq_0)
qed

lemma needs_rounding_correct:
  assumes "bigint_ok b" "q < Length b" "s < kDigitBitSize"
  shows "needs_rounding b q s \<longleftrightarrow> dval (chunks b) mod (beta ^ q * 2 ^ s) \<noteq> 0"
proof -
  let ?ds = "chunks b"
  have ok: "digits_ok ?ds" and q: "q < length ?ds" using assms by (simp_all add: bigint_ok_def)
  obtain rest where dr: "drop q ?ds = ?ds ! q # rest" using q Cons_nth_drop_Suc by metis
  have "2 ^ s dvd beta" using assms(3) by (simp add: beta_def le_imp_power_dvd)
  then have top: "dval (drop q ?ds) mod 2 ^ s = unat (?ds ! q) mod 2 ^ s"
    unfolding dr dval.simps by (metis dvd_mult2 mod_add_right_eq mod_0_imp_dvd dvd_imp_mod_0 add.right_neutral)
  have "dval ?ds mod (beta ^ q * 2 ^ s) = beta ^ q * (dval ?ds div beta ^ q mod 2 ^ s) + dval ?ds mod beta ^ q"
    by (rule mod_mult2_eq)
  also have "\<dots> = beta ^ q * (unat (?ds ! q) mod 2 ^ s) + dval (take q ?ds)"
    using ok q by (simp add: dval_take top flip: dval_drop)
  finally have "dval ?ds mod (beta ^ q * 2 ^ s) = 0 \<longleftrightarrow> unat (?ds ! q) mod 2 ^ s = 0 \<and> (\<forall>d \<in> set (take q ?ds). d = 0)"
    by (auto simp: dval_eq_0_iff)
  moreover have "needs_rounding b q s \<longleftrightarrow>
      \<not> (unat (?ds ! q) mod 2 ^ s = 0 \<and> (\<forall>d \<in> set (take q ?ds). d = 0))"
    using assms(3) push_bit_top_eq_0 [of s "?ds ! q"]
    by (auto simp: needs_rounding_def list_ex_iff GetChunkAt_def kChunkBitSize_def kDigitBitSize_def)
  ultimately show ?thesis by simp
qed

lemma neg_div_pow:
  assumes "p \<noteq> 0"
  shows "(- int n) div int p = (if n mod p = 0 then - int (n div p) else - int (n div p) - 1)"
  using zdiv_zminus1_eq_if [of "int p" "int n"] assms by (simp flip: zdiv_int zmod_int)

lemma ShiftRight_correct:
  assumes "bigint_inv b"
  shows "bigint_inv (ShiftRight b n) \<and> bval (ShiftRight b n) = bval b div 2 ^ n"
proof -
  have ok: "bigint_ok b" using assms by (simp add: bigint_inv_def)
  let ?q = "n div kDigitBitSize" and ?s = "n mod kDigitBitSize" and ?ds = "chunks b"
  have dk: "digits_ok ?ds" and len: "Length b = length ?ds" using ok by (simp_all add: bigint_ok_def)
  have s: "?s < kDigitBitSize" by (simp add: kDigitBitSize_def)
  have pow: "(2 :: nat) ^ n = beta ^ ?q * 2 ^ ?s"
    by (simp add: beta_power_shift flip: power_add)
  have neg: "(- int (dval ?ds)) div 2 ^ n
      = (if dval ?ds mod 2 ^ n = 0 then - int (dval ?ds div 2 ^ n) else - int (dval ?ds div 2 ^ n) - 1)"
    using neg_div_pow [of "2 ^ n" "dval ?ds"] by simp
  consider "IsZero b" | "\<not> IsZero b" "n = 0" | "\<not> IsZero b" "n \<noteq> 0" "Length b \<le> ?q"
    | "\<not> IsZero b" "n \<noteq> 0" "?q < Length b" by linarith
  then show ?thesis
  proof cases
    case 1
    then show ?thesis using IsZero_iff [OF assms] by (simp add: ShiftRight_def)
  next
    case 2
    then show ?thesis using assms Copy_correct [OF ok] by (simp add: ShiftRight_def)
  next
    case 3
    have "dval ?ds < beta ^ length ?ds" by (rule dval_bound [OF dk])
    also have "\<dots> \<le> beta ^ ?q" using 3 len by (intro power_increasing) auto
    also have "\<dots> \<le> 2 ^ n" by (simp add: pow)
    finally have lt: "dval ?ds < 2 ^ n" .
    have "dval ?ds \<noteq> 0" using 3(1) IsZero_iff [OF assms] by (auto simp: bval_def split: if_splits)
    then show ?thesis using 3 lt neg by (simp add: ShiftRight_def Let_def bval_def [of b] flip: of_nat_power zdiv_int)
  next
    case 4
    define r where "r = (if ?s = 0 then new_bigint (drop ?q ?ds)
        else Clamp (new_bigint (fst (shr_loop ?s (drop ?q ?ds)))))"
    have "bigint_inv r \<and> \<not> IsNegative r \<and> dval (chunks r) = dval ?ds div 2 ^ n"
    proof (cases "?s = 0")
      case True
      then show ?thesis using assms 4 len dk ok
        by (auto simp: r_def bigint_inv_def IsClamped_iff digits_ok_drop pow dval_drop)
    next
      case False
      note L = shr_loop_correct [OF s digits_ok_drop [OF dk] refl, of ?q]
      then have "bigint_ok (new_bigint (fst (shr_loop ?s (drop ?q ?ds))))" by simp
      note C = Clamp_correct [OF this]
      show ?thesis using False L C dk 4 len
        by (simp add: r_def pow div_mult2_eq dval_drop) (simp add: Clamp_def SetLength_simps)
    qed
    then have r: "bigint_inv r" "\<not> IsNegative r" "bval r = int (dval ?ds div 2 ^ n)"
      by (simp_all add: bval_def)
    have okr: "bigint_ok r" using r by (simp add: bigint_inv_def)
    have nr: "needs_rounding b ?q ?s \<longleftrightarrow> dval ?ds mod 2 ^ n \<noteq> 0"
      unfolding pow using needs_rounding_correct [OF ok 4(3) s] .
    have S: "ShiftRight b n = (if IsNegative b then
        if needs_rounding b ?q ?s then Subtract (ToggleSign r) One else ToggleSign r else r)"
      using 4 by (simp add: ShiftRight_def Let_def r_def)
    show ?thesis
    proof (cases "IsNegative b")
      case True
      then show ?thesis using r okr Subtract_correct [of "ToggleSign r" One] neg
        by (simp add: S nr bval_def [of b])
    next
      case False
      then show ?thesis using r by (simp add: S bval_def [of b] zdiv_int)
    qed
  qed
qed

subsection \<open>Properties\<close>

text \<open>C4: \<open>ShiftLeft\<close> multiplies by a power of two, and \<open>ShiftRight\<close> divides by it rounding
  towards minus infinity, also for negative numbers; the results are well formed.\<close>

theorem shift_exact:
  assumes "bigint_inv a"
  shows "bigint_inv (ShiftLeft a n) \<and> bval (ShiftLeft a n) = bval a * 2 ^ n \<and>
    bigint_inv (ShiftRight a n) \<and> bval (ShiftRight a n) = bval a div 2 ^ n"
  using ShiftLeft_correct [OF assms] ShiftRight_correct [OF assms] by simp

theorem shift_exact_witness:
  "bval (ShiftRight (ToggleSign (new_bigint [5])) 2) = - 2 \<and> bval (ShiftLeft One 28) = 268435456"
  using shift_exact [of "ToggleSign (new_bigint [5])" 2] shift_exact [of One 28]
  by (simp add: beta_eq)

text \<open>Shifting left and then right by the same amount returns the original object.\<close>

lemma shift_round_trip:
  assumes "bigint_inv a"
  shows "ShiftRight (ShiftLeft a n) n = a"
proof (rule bval_inj)
  show "bval (ShiftRight (ShiftLeft a n) n) = bval a"
    using ShiftLeft_correct [OF assms, of n] ShiftRight_correct [of "ShiftLeft a n" n] by simp
qed (use assms ShiftLeft_correct [OF assms, of n] ShiftRight_correct [of "ShiftLeft a n" n] in simp_all)

end
