(* ===== verification/Bigint_Div.thy ===== *)
theory Bigint_Div
  imports Bigint_Mul Bigint_Shift "HOL-Library.Signed_Division"
begin

text \<open>
  \<open>BigintOperations::DivideRemainder\<close> and its callers \<open>Divide\<close>, \<open>Remainder\<close> and \<open>Modulo\<close>:
  schoolbook division in base \<open>beta\<close> on normalised operands. Every quotient digit is
  estimated from the two leading digits of the dividend, refined with the two leading
  digits of the divisor, and corrected once if it is still too large.

  \<open>None\<close> is a run that does not return a result: a division by zero (the code asserts
  that the divisor is not zero and then reads its digit at index -1), or a
  \<open>while\<close> loop that does not stop. The lemmas below show that the two loops
  always stop.
\<close>

subsection \<open>The code\<close>

partial_function (option) first_digit_loop :: "bigint \<Rightarrow> bigint \<Rightarrow> chunk \<Rightarrow> (chunk \<times> bigint) option"
  where
  [code]: "first_digit_loop shifted_divisor dividend first_quotient_digit =
     (if UnsignedCompare dividend shifted_divisor \<ge> 0
      then first_digit_loop shifted_divisor (Subtract dividend shifted_divisor) (first_quotient_digit + 1)
      else Some (first_quotient_digit, dividend))"

partial_function (option) refine_loop :: "bigint \<Rightarrow> bigint \<Rightarrow> chunk \<Rightarrow> chunk option" where
  [code]: "refine_loop short_divisor target quotient_digit =
     Option.bind (MultiplyWithDigit short_divisor ((quotient_digit - 1) AND kDigitMask))
       (\<lambda>estimation_product.
          if UnsignedCompareNonClamped estimation_product target > 0
          then refine_loop short_divisor target ((quotient_digit - 1) AND kDigitMask)
          else Some ((quotient_digit - 1) AND kDigitMask))"

definition estimate_digit :: "chunk \<Rightarrow> chunk \<Rightarrow> chunk \<Rightarrow> chunk" where
  "estimate_digit first_divisor_digit dividend_digit next_digit =
     (if dividend_digit = first_divisor_digit then kDigitMaxValue
      else
        let two_dividend_digits = push_bit kDigitBitSize (ucast dividend_digit) + ucast next_digit :: dchunk;
            q = two_dividend_digits div ucast first_divisor_digit;
            q = (if q > ucast kDigitMaxValue then ucast kDigitMaxValue else q)
        in ucast q)"

definition div_step :: "bigint \<Rightarrow> bigint \<Rightarrow> chunk \<Rightarrow> int \<Rightarrow> bigint \<Rightarrow> (chunk \<times> bigint) option" where
  "div_step divisor short_divisor first_divisor_digit i dividend =
     (let divisor_length = int (Length divisor);
          dividend_length = int (Length dividend)
      in if i > dividend_length then Some (0, dividend)
         else
           let dividend_digit = (if i = dividend_length then 0 else GetChunkAt dividend (nat i));
               quotient_digit =
                 estimate_digit first_divisor_digit dividend_digit (GetChunkAt dividend (nat (i - 1)));
               target = new_bigint
                 [if i - 2 < 0 then 0 else GetChunkAt dividend (nat (i - 2)),
                  if i - 1 < 0 then 0 else GetChunkAt dividend (nat (i - 1)),
                  dividend_digit]
           in do {
             quotient_digit \<leftarrow> refine_loop short_divisor target (quotient_digit + 1);
             product \<leftarrow> MultiplyWithDigit divisor quotient_digit;
             let shifted_divisor = DigitsShiftLeft product (nat (i - divisor_length));
             let dividend = Subtract dividend shifted_divisor;
             (if IsNegative dividend
              then
                let quotient_digit = quotient_digit - 1;
                    shifted_divisor = DigitsShiftLeft divisor (nat (i - divisor_length));
                    dividend = Add dividend shifted_divisor
                in Some (quotient_digit, dividend)
              else Some (quotient_digit, dividend))
           })"

text \<open>The loop stores the quotient digits from the most significant one down, so
  each new digit goes in front of the digits found so far.\<close>

function div_loop :: "bigint \<Rightarrow> bigint \<Rightarrow> chunk \<Rightarrow> int \<Rightarrow> bigint \<Rightarrow> chunk list \<Rightarrow>
    (bigint \<times> chunk list) option" where
  "div_loop divisor short_divisor first_divisor_digit i dividend quotient_digits =
     (if i \<ge> int (Length divisor)
      then do {
        (quotient_digit, dividend') \<leftarrow> div_step divisor short_divisor first_divisor_digit i dividend;
        div_loop divisor short_divisor first_divisor_digit (i - 1) dividend' (quotient_digit # quotient_digits)
      }
      else Some (dividend, quotient_digits))"
  by pat_completeness auto
termination
  by (relation "measure (\<lambda>(divisor, _, _, i, _, _). nat (i + 1 - int (Length divisor)))") auto

declare div_loop.simps [simp del]

definition DivideRemainder :: "bigint \<Rightarrow> bigint \<Rightarrow> (bigint \<times> bigint) option" where
  "DivideRemainder a b =
     (if IsZero b then None
      else
        let comp = UnsignedCompare a b
        in if comp < 0 then Some (Zero, Copy a)
           else if comp = 0 then Some (SetSign (IsNegative a \<noteq> IsNegative b) One, Zero)
           else
             let b_length = Length b;
                 normalization_shift = kDigitBitSize - CountBits (GetChunkAt b (b_length - 1));
                 dividend = SetSign False (ShiftLeft a normalization_shift);
                 divisor = SetSign False (ShiftLeft b normalization_shift);
                 dividend_length = Length dividend;
                 divisor_length = b_length;
                 shifted_divisor = DigitsShiftLeft divisor (dividend_length - divisor_length)
             in do {
               (first_quotient_digit, dividend) \<leftarrow> first_digit_loop shifted_divisor dividend 0;
               let first_divisor_digit = GetChunkAt divisor (divisor_length - 1);
               let short_divisor = new_bigint
                 [if divisor_length > 1 then GetChunkAt divisor (divisor_length - 2) else 0,
                  first_divisor_digit];
               (dividend, quotient_digits) \<leftarrow>
                 div_loop divisor short_divisor first_divisor_digit (int dividend_length - 1)
                   dividend [first_quotient_digit];
               Some (Clamp (SetSign (IsNegative a \<noteq> IsNegative b) (new_bigint quotient_digits)),
                     SetSign (IsNegative a) (ShiftRight dividend normalization_shift))
             })"

definition Divide :: "bigint \<Rightarrow> bigint \<Rightarrow> bigint option" where
  "Divide a b = do { (q, r) \<leftarrow> DivideRemainder a b; Some q }"

definition Modulo :: "bigint \<Rightarrow> bigint \<Rightarrow> bigint option" where
  "Modulo a b = do { (q, modulo) \<leftarrow> DivideRemainder a b; Some modulo }"

definition Remainder :: "bigint \<Rightarrow> bigint \<Rightarrow> bigint option" where
  "Remainder a b = do { (q, r) \<leftarrow> DivideRemainder a b; Some r }"


subsection \<open>Leading digits\<close>

lemma Length_le: "bigint_inv b \<Longrightarrow> dval (chunks b) < beta ^ n \<Longrightarrow> Length b \<le> n"
proof (rule ccontr)
  assume inv: "bigint_inv b" and lt: "dval (chunks b) < beta ^ n" and "\<not> Length b \<le> n"
  then have "beta ^ n \<le> beta ^ (Length b - 1)" by (intro power_increasing) auto
  also have "\<dots> \<le> dval (chunks b)" using inv \<open>\<not> Length b \<le> n\<close> by (intro dval_lower) auto
  finally show False using lt by simp
qed

lemma dval_upper: "bigint_ok b \<Longrightarrow> dval (chunks b) < beta ^ Length b"
  using dval_bound [of "chunks b"] by (simp add: bigint_ok_def)

lemma coeff_div: "digits_ok ds \<Longrightarrow> coeff ds j = dval ds div beta ^ j mod beta"
proof (induction ds arbitrary: j)
  case (Cons d ds)
  show ?case
  proof (cases j)
    case 0
    with Cons.prems show ?thesis by simp
  next
    case (Suc k)
    have "dval (d # ds) div beta ^ Suc k = dval ds div beta ^ k"
      using Cons.prems by (simp add: div_mult2_eq)
    with Suc Cons show ?thesis by simp
  qed
qed (simp add: coeff_def)

lemma leading_two:
  fixes x :: nat
  assumes "x < beta ^ 2"
  shows "x mod beta + beta * (x div beta mod beta) = x"
proof -
  have "x div beta < beta" using assms by (simp add: power2_eq_square less_mult_imp_div_less)
  then show ?thesis by simp
qed

lemma leading_three:
  fixes x :: nat
  assumes "x < beta ^ 3"
  shows "x mod beta + beta * (x div beta mod beta + beta * (x div beta ^ 2 mod beta)) = x"
proof -
  have "x div beta < beta ^ 2" using assms by (simp add: power3_eq_cube power2_eq_square less_mult_imp_div_less)
  then have "x div beta mod beta + beta * (x div beta ^ 2 mod beta) = x div beta"
    using leading_two [of "x div beta"] by (simp add: power2_eq_square div_mult2_eq)
  then show ?thesis by simp
qed

lemma div_beta_Suc: "x div beta ^ Suc k = x div beta ^ k div beta" for x :: nat
  by (simp only: power_Suc2 div_mult2_eq)

lemma div_bounds:
  fixes x p :: nat
  assumes "0 < p"
  shows "(x div p) * p \<le> x" "x < (x div p + 1) * p"
  using assms by (simp_all add: dividend_less_div_times)

subsection \<open>The quotient digit\<close>

text \<open>\<open>D\<close> and \<open>V\<close> are the dividend and the divisor, \<open>T\<close> and \<open>S\<close> their leading digits
  (three of the dividend, two of the divisor). The true quotient digit passes the test
  of the refinement loop, and a digit that passes it is at most one too large.\<close>

lemma quotient_passes:
  fixes D V S T :: nat
  assumes TU: "D * beta ^ 2 < (T + 1) * beta ^ (n + t)" and SL: "S * beta ^ n \<le> V * beta ^ 2"
  shows "(D div (V * beta ^ t)) * S \<le> T"
proof -
  let ?Q = "D div (V * beta ^ t)"
  have "?Q * S * beta ^ (n + t) = ?Q * beta ^ t * (S * beta ^ n)"
    by (simp add: power_add algebra_simps)
  also have "\<dots> \<le> ?Q * beta ^ t * (V * beta ^ 2)" using SL by (rule mult_le_mono2)
  also have "\<dots> = ?Q * (V * beta ^ t) * beta ^ 2" by (simp add: algebra_simps)
  also have "\<dots> \<le> D * beta ^ 2" by (intro mult_le_mono1) simp
  also have "\<dots> < (T + 1) * beta ^ (n + t)" by (rule TU)
  finally have "?Q * S < T + 1" by (simp only: mult_less_cancel2)
  then show ?thesis by simp
qed

lemma passes_quotient:
  fixes D V S T q :: nat
  assumes TL: "T * beta ^ (n + t) \<le> D * beta ^ 2" and SU: "V * beta ^ 2 \<le> (S + 1) * beta ^ n"
    and VL: "beta ^ n \<le> V * beta" and q: "q * S \<le> T" "q < beta"
  shows "q * (V * beta ^ t) < D + V * beta ^ t"
proof -
  have "q * (V * beta ^ t) * beta ^ 2 = q * beta ^ t * (V * beta ^ 2)" by (simp add: algebra_simps)
  also have "\<dots> \<le> q * beta ^ t * ((S + 1) * beta ^ n)" using SU by (rule mult_le_mono2)
  also have "\<dots> = q * S * beta ^ (n + t) + q * beta ^ (n + t)"
    by (simp add: power_add algebra_simps)
  also have "\<dots> \<le> D * beta ^ 2 + q * beta ^ (n + t)"
    using mult_le_mono1 [OF q(1), of "beta ^ (n + t)"] TL by linarith
  also have "\<dots> < D * beta ^ 2 + beta * beta ^ (n + t)" using q(2) by simp
  also have "beta * beta ^ (n + t) = beta ^ n * (beta * beta ^ t)" by (simp add: power_add)
  also have "D * beta ^ 2 + beta ^ n * (beta * beta ^ t) \<le> D * beta ^ 2 + (V * beta) * (beta * beta ^ t)"
    by (intro add_left_mono mult_le_mono1 VL)
  also have "\<dots> = (D + V * beta ^ t) * beta ^ 2" by (simp add: power2_eq_square algebra_simps)
  finally show ?thesis by (simp only: mult_less_cancel2)
qed

lemma refine_loop_correct:
  assumes "bigint_ok short" "\<not> IsNegative short" "bigint_ok target"
    and "unat c = Suc q" "q < beta" "Q \<le> q" "Q * dval (chunks short) \<le> dval (chunks target)"
  shows "\<exists>r. refine_loop short target c = Some r \<and> Q \<le> unat r \<and> unat r < beta \<and>
    unat r * dval (chunks short) \<le> dval (chunks target)"
  using assms(4-6)
proof (induction q arbitrary: c)
  case (0 c)
  have "c = 1" using "0.prems"(1) by (metis One_nat_def unat_1 word_unat_eq_iff)
  then have "refine_loop short target c = Some 0"
    unfolding refine_loop.simps [of short target c]
    using UnsignedCompareNonClamped_correct [of Zero target] assms(3)
    by (simp add: MultiplyWithDigit_def Zero_def sgn_if)
  with "0.prems" show ?case by simp
next
  case (Suc q c)
  let ?r = "(c - 1) AND kDigitMask"
  have "c \<noteq> 0" using Suc.prems(1) by auto
  then have "unat (c - 1) = Suc q" using unat_minus_one [of c] Suc.prems(1) by simp
  then have r: "unat ?r = Suc q" using Suc.prems(2) by (simp add: word_nat)
  obtain p where p: "MultiplyWithDigit short ?r = Some p" "bigint_inv p" "bval p = bval short * int (unat ?r)"
    using MultiplyWithDigit_correct [OF assms(1), of ?r] r Suc.prems(2) by auto
  have "int (dval (chunks p)) = \<bar>bval p\<bar>" by (simp add: bval_abs)
  then have "int (dval (chunks p)) = int (dval (chunks short) * Suc q)"
    using p(3) assms(2) r by (simp add: bval_def [of short] algebra_simps)
  then have dp: "dval (chunks p) = dval (chunks short) * Suc q" by (simp only: of_nat_eq_iff)
  have cmp: "UnsignedCompareNonClamped p target > 0 \<longleftrightarrow> dval (chunks target) < dval (chunks short) * Suc q"
    using UnsignedCompareNonClamped_correct [of p target] p(2) assms(3)
    by (simp only: bigint_inv_def sgn_int_diff_iff dp)
  show ?case
  proof (cases "dval (chunks target) < dval (chunks short) * Suc q")
    case True
    then have "Q \<noteq> Suc q" using assms(7) by (auto simp: mult.commute)
    then have "Q \<le> q" using Suc.prems(3) by simp
    moreover have "refine_loop short target c = refine_loop short target ?r"
      using True cmp p(1) by (simp add: refine_loop.simps [of short target c])
    ultimately show ?thesis using Suc.IH [OF r] Suc.prems(2) by simp
  next
    case False
    then have "refine_loop short target c = Some ?r"
      using cmp p(1) by (simp add: refine_loop.simps [of short target c])
    with False r Suc.prems show ?thesis by (simp add: mult.commute)
  qed
qed


lemma estimate_digit_correct:
  assumes "unat u1 < beta" "unat u0 < beta" "v1 \<noteq> 0"
    and "Q * unat v1 \<le> unat u1 * beta + unat u0" "Q < beta"
  shows "Q \<le> unat (estimate_digit v1 u1 u0) \<and> unat (estimate_digit v1 u1 u0) < beta"
proof (cases "u1 = v1")
  case True
  then show ?thesis using assms(5) by (simp add: estimate_digit_def unat_kDigitMask)
next
  case False
  let ?uu = "push_bit kDigitBitSize (ucast u1) + ucast u0 :: dchunk"
  let ?q = "?uu div ucast v1"
  have "unat (push_bit kDigitBitSize (ucast u1) :: dchunk) = unat u1 * beta"
    using assms(1) by (simp add: unat_push_bit power_kDigitBitSize beta_eq)
  then have uu: "unat ?uu = unat u1 * beta + unat u0"
    using assms(1,2) by (subst unat_add_no_wrap) (simp_all add: beta_eq)
  have q: "unat ?q = (unat u1 * beta + unat u0) div unat v1"
    by (simp add: unat_div_distrib uu)
  have Q: "Q \<le> unat ?q"
    unfolding q using assms(3,4) by (simp add: less_eq_div_iff_mult_less_eq unat_gt_0)
  have m: "unat (ucast kDigitMask :: dchunk) = beta - 1" by (simp add: unat_kDigitMask)
  define e where "e = (if ?q > ucast kDigitMask then ucast kDigitMask else ?q)"
  have e: "unat e = min (unat ?q) (beta - 1)"
    by (auto simp: e_def unat_kDigitMask word_less_nat_alt)
  then have "unat e < beta" using beta_pos(1) by linarith
  then have "unat (ucast e :: chunk) = unat e"
    by (intro unat_ucast_no_wrap) (simp add: beta_eq)
  moreover have "estimate_digit v1 u1 u0 = ucast e"
    using False by (simp add: estimate_digit_def Let_def e_def)
  ultimately show ?thesis using Q e assms(5) \<open>unat e < beta\<close> by simp
qed

text \<open>The leading digits of the divisor: \<open>first\<close> is its top digit and \<open>short\<close> its top two
  digits, with a zero below the top digit of a one-digit divisor.\<close>

definition short_divisor_of :: "bigint \<Rightarrow> bigint" where
  "short_divisor_of v =
     new_bigint [if Length v > 1 then GetChunkAt v (Length v - 2) else 0, GetChunkAt v (Length v - 1)]"

lemma divisor_digits:
  assumes "bigint_inv v" "Length v \<noteq> 0"
  defines "V \<equiv> dval (chunks v)" and "S \<equiv> dval (chunks (short_divisor_of v))" and "n \<equiv> Length v"
  shows "S * beta ^ n \<le> V * beta ^ 2" "V * beta ^ 2 \<le> (S + 1) * beta ^ n"
    and "beta ^ n \<le> V * beta" "unat (GetChunkAt v (n - 1)) * beta ^ (n - 1) \<le> V"
    and "GetChunkAt v (n - 1) \<noteq> 0" "bigint_ok (short_divisor_of v)"
proof -
  have ok: "bigint_ok v" and dk: "digits_ok (chunks v)" and len: "length (chunks v) = n"
    using assms(1) by (simp_all add: bigint_inv_def bigint_ok_def n_def)
  have n: "0 < n" using assms(2) by (simp add: n_def)
  have dig: "unat (GetChunkAt v j) = V div beta ^ j mod beta" if "j < n" for j
    using coeff_div [OF dk, of j] that len by (simp add: coeff_def GetChunkAt_def V_def)
  have up: "V < beta ^ n" using dval_upper [OF ok] by (simp add: V_def n_def)
  show "GetChunkAt v (n - 1) \<noteq> 0"
    using assms(1) n by (simp add: bigint_inv_def IsClamped_def n_def)
  have "beta ^ (n - 1) \<le> V" using dval_lower [OF assms(1,2)] by (simp add: V_def n_def)
  then have "beta ^ (n - 1) * beta \<le> V * beta" by (rule mult_le_mono1)
  then show "beta ^ n \<le> V * beta" using n by (simp add: power_eq_if mult.commute)
  have "V div beta ^ (n - 1) < beta"
    using up n by (intro less_mult_imp_div_less) (simp add: power_eq_if)
  then have v1: "unat (GetChunkAt v (n - 1)) = V div beta ^ (n - 1)" using dig [of "n - 1"] n by simp
  show "unat (GetChunkAt v (n - 1)) * beta ^ (n - 1) \<le> V" unfolding v1 by (rule div_bounds) simp
  show "bigint_ok (short_divisor_of v)"
    using ok n by (auto simp: short_divisor_of_def GetChunkAt_def bigint_ok_def n_def intro: digits_ok_nth)
  have "S * beta ^ n \<le> V * beta ^ 2 \<and> V * beta ^ 2 \<le> (S + 1) * beta ^ n"
  proof (cases "n = 1")
    case True
    then have "S = V * beta" using v1 by (simp add: S_def short_divisor_of_def n_def [symmetric])
    then show ?thesis using True by (simp add: power2_eq_square)
  next
    case False
    define m where "m = n - 2"
    have nm: "n = m + 2" using False n by (simp add: m_def)
    have lt: "V div beta ^ m < beta ^ 2"
      using up unfolding nm by (intro less_mult_imp_div_less) (simp only: power_add mult.commute)
    have "S = V div beta ^ m mod beta + beta * (V div beta ^ m div beta mod beta)"
      using dig [of m] dig [of "Suc m"] nm
      by (simp add: S_def short_divisor_of_def n_def [symmetric] div_beta_Suc del: power_Suc)
    then have S: "S = V div beta ^ m" using leading_two [OF lt] by simp
    have "S * beta ^ m * beta ^ 2 \<le> V * beta ^ 2" unfolding S by (intro mult_le_mono1) simp
    moreover have "V * beta ^ 2 \<le> (S + 1) * beta ^ m * beta ^ 2"
      unfolding S using div_bounds(2) [of "beta ^ m" V] by (intro mult_le_mono1) simp
    ultimately show ?thesis by (simp only: nm power_add mult.assoc simp_thms)
  qed
  then show "S * beta ^ n \<le> V * beta ^ 2" "V * beta ^ 2 \<le> (S + 1) * beta ^ n" by simp_all
qed

text \<open>The leading digits of the dividend, as \<open>div_step\<close> reads them.\<close>

lemma dividend_digits:
  assumes "bigint_ok u" "dval (chunks u) < beta ^ Suc i" "0 < i" "i \<le> Length u"
  defines "D \<equiv> dval (chunks u)"
    and "u2 \<equiv> if int i = int (Length u) then 0 else GetChunkAt u i" and "u1 \<equiv> GetChunkAt u (i - 1)"
    and "u0 \<equiv> if int i - 2 < 0 then 0 else GetChunkAt u (nat (int i - 2))"
  defines "T \<equiv> dval [u0, u1, u2]"
  shows "D < (unat u2 * beta + unat u1 + 1) * beta ^ (i - 1)"
    and "T * beta ^ i \<le> D * beta ^ 2" "D * beta ^ 2 < (T + 1) * beta ^ i"
    and "digits_ok [u0, u1, u2]"
proof -
  have dk: "digits_ok (chunks u)" and len: "length (chunks u) = Length u"
    using assms(1) by (simp_all add: bigint_ok_def)
  have dig: "unat (GetChunkAt u j) = D div beta ^ j mod beta" if "j < Length u" for j
    using coeff_div [OF dk, of j] that len by (simp add: coeff_def GetChunkAt_def D_def)
  have "D div beta ^ i < beta"
    using assms(2) by (intro less_mult_imp_div_less) (simp add: D_def)
  moreover have "Length u = i \<Longrightarrow> D div beta ^ i = 0" using dval_upper [OF assms(1)] by (simp add: D_def)
  moreover have "Length u \<noteq> i \<Longrightarrow> unat u2 = D div beta ^ i mod beta"
    using dig [of i] assms(4) by (simp add: u2_def)
  ultimately have u2: "unat u2 = D div beta ^ i" and u2b: "unat u2 < beta"
    by (auto simp: u2_def)
  have u1: "unat u1 = D div beta ^ (i - 1) mod beta" using dig [of "i - 1"] assms(3,4) by (simp add: u1_def)
  have step: "D div beta ^ i = D div beta ^ (i - 1) div beta"
    using assms(3) div_beta_Suc [of D "i - 1"] by simp
  have "D div beta ^ (i - 1) div beta < beta" using u2b unfolding u2 step .
  then have lt2: "D div beta ^ (i - 1) < beta ^ 2" by (simp add: div_less_iff_less_mult power2_eq_square)
  have uu: "unat u2 * beta + unat u1 = D div beta ^ (i - 1)"
    using leading_two [OF lt2] u2b by (simp add: u1 u2 step mult.commute)
  show "D < (unat u2 * beta + unat u1 + 1) * beta ^ (i - 1)"
    unfolding uu by (rule div_bounds(2)) simp
  have u0b: "unat u0 < beta"
    using assms(3,4) len dk by (auto simp: u0_def GetChunkAt_def intro!: digits_ok_nth)
  show "digits_ok [u0, u1, u2]" using u0b u2b u1 by simp
  have "T * beta ^ i \<le> D * beta ^ 2 \<and> D * beta ^ 2 < (T + 1) * beta ^ i"
  proof (cases "i = 1")
    case True
    then have "T = beta * D" using uu by (simp add: T_def u0_def algebra_simps)
    then show ?thesis using True by (simp add: power2_eq_square)
  next
    case False
    define m where "m = i - 2"
    have im: "i = m + 2" using False assms(3) by (simp add: m_def)
    have u0: "unat u0 = D div beta ^ m mod beta"
      using dig [of m] assms(4) im by (simp add: u0_def nat_diff_distrib)
    have "D div beta ^ (i - 1) = D div beta ^ m div beta"
      using div_beta_Suc [of D m] by (simp add: im)
    then have "unat u1 + beta * unat u2 = D div beta ^ m div beta" using uu by (simp add: algebra_simps)
    then have "T = D div beta ^ m" using u0 by (simp add: T_def)
    then have "T * beta ^ m \<le> D" "D < (T + 1) * beta ^ m"
      using div_bounds [of "beta ^ m" D] by simp_all
    then have "T * beta ^ m * beta ^ 2 \<le> D * beta ^ 2" "D * beta ^ 2 < (T + 1) * beta ^ m * beta ^ 2"
      by (auto intro: mult_le_mono1 simp: mult_less_cancel2)
    then show ?thesis by (simp only: im power_add mult.assoc simp_thms)
  qed
  then show "T * beta ^ i \<le> D * beta ^ 2" "D * beta ^ 2 < (T + 1) * beta ^ i" by simp_all
qed


lemma digit_multiple:
  assumes "bigint_inv v" "\<not> IsNegative v" "unat q < beta"
  shows "\<exists>p. MultiplyWithDigit v q = Some p \<and> bigint_inv (DigitsShiftLeft p t) \<and>
    bval (DigitsShiftLeft p t) = int (unat q * (dval (chunks v) * beta ^ t))"
proof -
  obtain p where p: "MultiplyWithDigit v q = Some p" "bigint_inv p" "bval p = bval v * int (unat q)"
    using MultiplyWithDigit_correct [of v q] assms by (auto simp: bigint_inv_def)
  then show ?thesis
    using DigitsShiftLeft_correct [OF p(2), of t] assms(2) by (simp add: bval_def [of v])
qed

lemma quotient_one_too_big:
  fixes D W q :: nat
  assumes "D div W \<le> q" "q * W < D + W" "0 < W"
  shows "D < q * W \<Longrightarrow> q = D div W + 1 \<and> D + W - q * W = D mod W"
    and "q * W \<le> D \<Longrightarrow> q = D div W \<and> D - q * W = D mod W"
proof -
  have "q * W < (D div W + 2) * W"
    using assms(2) div_bounds(2) [OF assms(3), of D] by (simp add: algebra_simps)
  then have "q < D div W + 2" by (simp only: mult_less_cancel2)
  then consider "q = D div W" | "q = D div W + 1" using assms(1) by linarith
  then have "(D < q * W \<longrightarrow> q = D div W + 1) \<and> (q * W \<le> D \<longrightarrow> q = D div W)"
  proof cases
    case 1
    then show ?thesis using div_bounds(1) [OF assms(3), of D] by (simp add: not_less)
  next
    case 2
    then show ?thesis using div_bounds(2) [OF assms(3), of D] by simp
  qed
  then show "D < q * W \<Longrightarrow> q = D div W + 1 \<and> D + W - q * W = D mod W"
    and "q * W \<le> D \<Longrightarrow> q = D div W \<and> D - q * W = D mod W"
    by (auto simp: minus_div_mult_eq_mod)
qed

text \<open>The digits of the dividend that \<open>div_step\<close> looks at, and the digit it settles on
  before the final correction.\<close>

definition step_digits :: "bigint \<Rightarrow> nat \<Rightarrow> chunk \<times> chunk \<times> chunk" where
  "step_digits u i =
     (if int i - 2 < 0 then 0 else GetChunkAt u (nat (int i - 2)), GetChunkAt u (i - 1),
      if int i = int (Length u) then 0 else GetChunkAt u i)"

lemma refined_digit:
  assumes v: "bigint_inv v" "Length v \<noteq> 0" and u: "bigint_ok u"
    and lt: "dval (chunks u) < dval (chunks v) * beta ^ Suc t" and i: "Length v + t \<le> Length u"
    and digs: "step_digits u (Length v + t) = (u0, u1, u2)"
  defines "W \<equiv> dval (chunks v) * beta ^ t" and "D \<equiv> dval (chunks u)"
  shows "\<exists>q. refine_loop (short_divisor_of v) (new_bigint [u0, u1, u2])
      (estimate_digit (GetChunkAt v (Length v - 1)) u2 u1 + 1) = Some q
    \<and> D div W \<le> unat q \<and> unat q < beta \<and> unat q * W < D + W"
proof -
  let ?V = "dval (chunks v)" and ?n = "Length v" and ?i = "Length v + t"
  let ?first = "GetChunkAt v (Length v - 1)" and ?Q = "D div W"
  note vd = divisor_digits [OF v]
  have Q: "?Q < beta"
    using lt by (intro less_mult_imp_div_less) (simp add: W_def D_def algebra_simps)
  have "?V < beta ^ ?n" using v(1) by (intro dval_upper) (simp add: bigint_inv_def)
  then have "?V * beta ^ Suc t < beta ^ ?n * beta ^ Suc t" by simp
  also have "\<dots> = beta ^ Suc ?i" by (simp only: power_add [symmetric] add_Suc_right)
  finally have "dval (chunks u) < beta ^ Suc ?i" using lt by (rule less_trans [rotated])
  moreover have "0 < ?i" using v(2) by simp
  ultimately have ud: "D < (unat u2 * beta + unat u1 + 1) * beta ^ (?i - 1)"
      "dval [u0, u1, u2] * beta ^ ?i \<le> D * beta ^ 2" "D * beta ^ 2 < (dval [u0, u1, u2] + 1) * beta ^ ?i"
      "digits_ok [u0, u1, u2]"
    using dividend_digits [OF u _ _ i] digs by (simp_all only: D_def step_digits_def prod.inject)
  have "beta ^ (?i - 1) = beta ^ t * beta ^ (?n - 1)" using v(2) by (simp flip: power_add)
  then have "?Q * unat ?first * beta ^ (?i - 1) = ?Q * beta ^ t * (unat ?first * beta ^ (?n - 1))"
    by (simp only: ac_simps)
  also have "\<dots> \<le> ?Q * beta ^ t * ?V" using vd(4) by (rule mult_le_mono2)
  also have "\<dots> = ?Q * W" by (simp add: W_def algebra_simps)
  also have "\<dots> \<le> D" by simp
  also have "\<dots> < (unat u2 * beta + unat u1 + 1) * beta ^ (?i - 1)" by (rule ud(1))
  finally have "?Q * unat ?first < unat u2 * beta + unat u1 + 1" by (simp only: mult_less_cancel2)
  then have est: "?Q \<le> unat (estimate_digit ?first u2 u1)" "unat (estimate_digit ?first u2 u1) < beta"
    using ud(4) vd(5) Q estimate_digit_correct [of u2 u1 ?first ?Q] by simp_all
  then have est1: "unat (estimate_digit ?first u2 u1 + 1) = Suc (unat (estimate_digit ?first u2 u1))"
    by (subst unat_add_no_wrap) (simp_all add: beta_eq)
  have neg: "\<not> IsNegative (short_divisor_of v)" and okt: "bigint_ok (new_bigint [u0, u1, u2])"
    using ud(4) by (simp_all add: short_divisor_of_def)
  have "?Q * dval (chunks (short_divisor_of v)) \<le> dval (chunks (new_bigint [u0, u1, u2]))"
    unfolding W_def new_bigint_simps by (rule quotient_passes [OF ud(3) vd(1)])
  from refine_loop_correct [OF vd(6) neg okt est1 est(2,1) this]
  obtain q where q: "refine_loop (short_divisor_of v) (new_bigint [u0, u1, u2])
      (estimate_digit ?first u2 u1 + 1) = Some q" "?Q \<le> unat q" "unat q < beta"
      "unat q * dval (chunks (short_divisor_of v)) \<le> dval [u0, u1, u2]"
    unfolding new_bigint_simps by blast
  moreover have "unat q * W < D + W"
    unfolding W_def by (rule passes_quotient [OF ud(2) vd(2,3) q(4,3)])
  ultimately show ?thesis by blast
qed

lemma div_step_unfold:
  assumes "\<not> Length u < Length v + t" "Length v \<noteq> 0" "step_digits u (Length v + t) = (u0, u1, u2)"
  shows "div_step v short_divisor first (int (Length v + t)) u = do {
      q \<leftarrow> refine_loop short_divisor (new_bigint [u0, u1, u2]) (estimate_digit first u2 u1 + 1);
      p \<leftarrow> MultiplyWithDigit v q;
      let r = Subtract u (DigitsShiftLeft p t);
      (if IsNegative r then Some (q - 1, Add r (DigitsShiftLeft v t)) else Some (q, r))
    }"
proof -
  define i where "i = Length v + t"
  have i: "nat (int i) = i" "nat (int i - 1) = i - 1" "nat (int i - int (Length v)) = t" "\<not> int i - 1 < 0"
      "\<not> int (Length u) < int i"
    using assms(1,2) by (simp_all add: i_def nat_diff_distrib)
  have d: "u0 = (if int i - 2 < 0 then 0 else GetChunkAt u (nat (int i - 2)))"
      "u1 = GetChunkAt u (i - 1)" "u2 = (if int i = int (Length u) then 0 else GetChunkAt u i)"
    using assms(3) by (simp_all only: i_def step_digits_def prod.inject)
  show ?thesis
    unfolding i_def [symmetric] div_step_def Let_def d i if_not_P [OF i(4)] if_not_P [OF i(5)] ..
qed

lemma div_step_correct:
  assumes v: "bigint_inv v" "\<not> IsNegative v" "Length v \<noteq> 0"
    and u: "bigint_inv u" "\<not> IsNegative u" and lt: "dval (chunks u) < dval (chunks v) * beta ^ Suc t"
  defines "W \<equiv> dval (chunks v) * beta ^ t" and "D \<equiv> dval (chunks u)"
  shows "\<exists>q u'. div_step v (short_divisor_of v) (GetChunkAt v (Length v - 1)) (int (Length v + t)) u = Some (q, u')
    \<and> unat q = D div W \<and> unat q < beta \<and> bigint_inv u' \<and> \<not> IsNegative u' \<and> dval (chunks u') = D mod W"
proof (cases "Length u < Length v + t")
  case True
  have "D < beta ^ Length u" unfolding D_def using u(1) by (intro dval_upper) (simp add: bigint_inv_def)
  also have "\<dots> \<le> beta ^ (Length v - 1) * beta ^ t"
    unfolding power_add [symmetric] using True v(3) by (intro power_increasing) auto
  also have "\<dots> \<le> W" unfolding W_def by (intro mult_le_mono1 dval_lower v)
  finally have "D < W" .
  with True u show ?thesis by (simp add: div_step_def Let_def D_def)
next
  case False
  have "0 < beta ^ (Length v - 1)" by simp
  also have "\<dots> \<le> dval (chunks v)" by (rule dval_lower [OF v(1,3)])
  finally have Wpos: "0 < W" by (simp add: W_def)
  obtain u0 u1 u2 where digs: "step_digits u (Length v + t) = (u0, u1, u2)" by (metis prod.exhaust)
  obtain q where q: "refine_loop (short_divisor_of v) (new_bigint [u0, u1, u2])
      (estimate_digit (GetChunkAt v (Length v - 1)) u2 u1 + 1) = Some q"
      "D div W \<le> unat q" "unat q < beta" "unat q * W < D + W"
    using refined_digit [OF v(1,3) _ lt _ digs] u(1) False by (auto simp: bigint_inv_def W_def D_def)
  obtain p where p: "MultiplyWithDigit v q = Some p" "bigint_inv (DigitsShiftLeft p t)"
      "bval (DigitsShiftLeft p t) = int (unat q * W)"
    using digit_multiple [OF v(1,2) q(3), of t] by (auto simp: W_def)
  define r where "r = Subtract u (DigitsShiftLeft p t)"
  have r: "bigint_inv r" "bval r = int D - int (unat q * W)"
    using Subtract_correct [OF u(1) p(2)] u(2) p(3) by (simp_all add: r_def bval_def [of u] D_def)
  have step: "div_step v (short_divisor_of v) (GetChunkAt v (Length v - 1)) (int (Length v + t)) u =
      (if IsNegative r then Some (q - 1, Add r (DigitsShiftLeft v t)) else Some (q, r))"
    unfolding div_step_unfold [OF False v(3) digs] q(1) by (simp add: p(1) Let_def r_def)
  note too_big = quotient_one_too_big [OF q(2,4) Wpos]
  show ?thesis
  proof (cases "IsNegative r")
    case True
    then have "D < unat q * W" using IsNegative_iff [OF r(1)] r(2) by linarith
    with too_big(1) have Q: "unat q = D div W + 1" and m: "D + W - unat q * W = D mod W" by blast+
    have "q \<noteq> 0" using Q by auto
    then have "unat (q - 1) = D div W" using unat_minus_one [of q] Q by simp
    moreover define s where "s = Add r (DigitsShiftLeft v t)"
    have s: "bigint_inv s" "bval s = bval r + int W"
      using Add_correct [OF r(1), of "DigitsShiftLeft v t"] DigitsShiftLeft_correct [OF v(1), of t] v(2)
      by (simp_all add: s_def bval_def [of v] W_def)
    have "bval s = int (D + W - unat q * W)" using s(2) r(2) q(4) by linarith
    then have "\<not> IsNegative s" "dval (chunks s) = D mod W"
      unfolding m using bval_nonneg [OF s(1)] by blast+
    ultimately show ?thesis using True step s q(3) Q by (simp add: s_def)
  next
    case False
    then have le: "unat q * W \<le> D" using IsNegative_iff [OF r(1)] r(2) by linarith
    with too_big(2) have Q: "unat q = D div W" and m: "D - unat q * W = D mod W" by blast+
    have "bval r = int (D - unat q * W)" using r(2) le by linarith
    then have "dval (chunks r) = D mod W" unfolding m using bval_nonneg [OF r(1)] by blast
    then show ?thesis using False step r Q q(3) by simp
  qed
qed


subsection \<open>The loop over the quotient digits\<close>

lemma div_loop_correct:
  assumes v: "bigint_inv v" "\<not> IsNegative v" "Length v \<noteq> 0"
    and "bigint_inv u" "\<not> IsNegative u" "dval (chunks u) < dval (chunks v) * beta ^ t"
  shows "\<exists>ds u'. div_loop v (short_divisor_of v) (GetChunkAt v (Length v - 1)) (int (Length v + t) - 1) u qs
      = Some (u', ds @ qs) \<and> length ds = t \<and> digits_ok ds \<and> dval ds = dval (chunks u) div dval (chunks v) \<and>
    bigint_inv u' \<and> \<not> IsNegative u' \<and> dval (chunks u') = dval (chunks u) mod dval (chunks v)"
  using assms(4-)
proof (induction t arbitrary: u qs)
  case 0
  then show ?case by (simp add: div_loop.simps)
next
  case (Suc t)
  let ?V = "dval (chunks v)" and ?D = "dval (chunks u)"
  let ?loop = "div_loop v (short_divisor_of v) (GetChunkAt v (Length v - 1))"
  let ?W = "?V * beta ^ t"
  obtain q u' where step: "div_step v (short_divisor_of v) (GetChunkAt v (Length v - 1)) (int (Length v + t)) u = Some (q, u')"
    and q: "unat q = ?D div ?W" "unat q < beta"
    and u': "bigint_inv u'" "\<not> IsNegative u'" "dval (chunks u') = ?D mod ?W"
    using div_step_correct [OF v Suc.prems] by blast
  have "0 < beta ^ (Length v - 1)" by simp
  also have "\<dots> \<le> ?V" by (rule dval_lower [OF v(1,3)])
  finally have W: "0 < ?W" by simp
  then obtain ds u'' where rec: "?loop (int (Length v + t) - 1) u' (q # qs) = Some (u'', ds @ q # qs)"
    and ds: "length ds = t" "digits_ok ds" "dval ds = ?D mod ?W div ?V"
    and u'': "bigint_inv u''" "\<not> IsNegative u''" "dval (chunks u'') = ?D mod ?W mod ?V"
    using Suc.IH [OF u'(1,2), of "q # qs"] u'(3) by (metis mod_less_divisor)
  have "int (Length v + Suc t) - 1 = int (Length v + t)" by simp
  then have "?loop (int (Length v + Suc t) - 1) u qs = Some (u'', (ds @ [q]) @ qs)"
    using step rec by (subst div_loop.simps) simp
  moreover have "dval (ds @ [q]) = ?D div ?V"
  proof -
    have "?D div ?V = (?D div ?W * ?W + ?D mod ?W) div ?V" by (simp only: div_mult_mod_eq)
    also have "\<dots> = (?V * (?D div ?W * beta ^ t) + ?D mod ?W) div ?V" by (simp only: ac_simps)
    also have "\<dots> = ?D div ?W * beta ^ t + ?D mod ?W div ?V" using W by simp
    finally show ?thesis using ds q by (simp add: dval_append algebra_simps)
  qed
  moreover have "dval (chunks u'') = ?D mod ?V" using u''(3) by (simp add: mod_mod_cancel)
  ultimately show ?case
    using ds q u'' by (intro exI [of _ "ds @ [q]"] exI [of _ u'']) simp
qed

lemma first_digit_loop_correct:
  assumes "bigint_inv w" "\<not> IsNegative w" "0 < dval (chunks w)"
    and "bigint_inv u" "\<not> IsNegative u" "unat c + dval (chunks u) div dval (chunks w) < beta"
  shows "\<exists>q u'. first_digit_loop w u c = Some (q, u') \<and> unat q = unat c + dval (chunks u) div dval (chunks w) \<and>
    bigint_inv u' \<and> \<not> IsNegative u' \<and> dval (chunks u') = dval (chunks u) mod dval (chunks w)"
  using assms(4-)
proof (induction "dval (chunks u)" arbitrary: u c rule: less_induct)
  case less
  let ?D = "dval (chunks u)" and ?W = "dval (chunks w)"
  have cmp: "UnsignedCompare u w \<ge> 0 \<longleftrightarrow> ?W \<le> ?D"
    by (simp only: UnsignedCompare_correct [OF less.prems(1) assms(1)] sgn_int_diff_iff)
  show ?case
  proof (cases "?W \<le> ?D")
    case True
    define s where "s = Subtract u w"
    have s: "bigint_inv s" "bval s = int (?D - ?W)"
      using Subtract_correct [OF less.prems(1) assms(1)] True less.prems(2) assms(2)
      by (simp_all add: s_def bval_def [of u] bval_def [of w] of_nat_diff)
    then have s': "\<not> IsNegative s" "dval (chunks s) = ?D - ?W" using bval_nonneg by blast+
    have dv: "?D div ?W = Suc ((?D - ?W) div ?W)" by (rule le_div_geq [OF assms(3) True])
    have "unat c < beta" using less.prems(3) by linarith
    then have c: "unat (c + 1) = Suc (unat c)" by (subst unat_add_no_wrap) (simp_all add: beta_eq)
    have unf: "first_digit_loop w u c = first_digit_loop w s (c + 1)"
      using cmp True by (simp add: first_digit_loop.simps [of w u c] s_def)
    have lt: "dval (chunks s) < ?D" using True assms(3) s'(2) by linarith
    have d: "unat (c + 1) + dval (chunks s) div ?W = unat c + ?D div ?W" unfolding c s'(2) dv by simp
    have m: "dval (chunks s) mod ?W = ?D mod ?W" unfolding s'(2) using True by (rule le_mod_geq [symmetric])
    show ?thesis
      unfolding unf d [symmetric] m [symmetric] using less.prems(3)
      by (intro less.hyps lt s(1) s'(1)) (simp only: d)
  next
    case False
    then show ?thesis using cmp less.prems by (simp add: first_digit_loop.simps [of w u c])
  qed
qed

subsection \<open>Normalisation\<close>

lemma magnitude_shifted:
  fixes k :: nat
  assumes "bigint_inv b"
  defines "v \<equiv> SetSign False (ShiftLeft b k)"
  shows "bigint_inv v" "\<not> IsNegative v" "dval (chunks v) = dval (chunks b) * 2 ^ k"
proof -
  have S: "bigint_inv (ShiftLeft b k)" "bval (ShiftLeft b k) = bval b * 2 ^ k"
    using ShiftLeft_correct [OF assms(1)] by blast+
  then show "bigint_inv v" "\<not> IsNegative v" by (simp_all add: v_def IsNegative_SetSign)
  have "int (dval (chunks v)) = \<bar>bval b * 2 ^ k\<bar>" unfolding S(2) [symmetric] bval_abs by (simp add: v_def)
  also have "\<dots> = int (dval (chunks b) * 2 ^ k)" by (simp add: abs_mult bval_abs)
  finally show "dval (chunks v) = dval (chunks b) * 2 ^ k" by (simp only: of_nat_eq_iff)
qed

lemma normalised_divisor:
  assumes "bigint_inv b" "Length b \<noteq> 0"
  defines "k \<equiv> kDigitBitSize - CountBits (GetChunkAt b (Length b - 1))"
  shows "Length (SetSign False (ShiftLeft b k)) = Length b"
proof -
  let ?n = "Length b" and ?top = "GetChunkAt b (Length b - 1)" and ?V = "dval (chunks b)"
  let ?v = "SetSign False (ShiftLeft b k)"
  note v = magnitude_shifted [OF assms(1), of k]
  have dk: "digits_ok (chunks b)" and len: "length (chunks b) = ?n"
    using assms(1) by (simp_all add: bigint_inv_def bigint_ok_def)
  have top: "?top \<noteq> 0" "unat ?top < 2 ^ CountBits ?top" "2 ^ (CountBits ?top - 1) \<le> unat ?top"
    using divisor_digits(5) [OF assms(1,2)] CountBits_bounds by blast+
  have "unat ?top < beta" using digits_ok_nth [OF dk] assms(2) len by (simp add: GetChunkAt_def)
  with top(3) have "2 ^ (CountBits ?top - 1) < beta" by (rule le_less_trans)
  then have "CountBits ?top - 1 < kDigitBitSize" unfolding beta_def by (rule power_less_imp_less_exp [rotated]) simp
  then have c: "CountBits ?top \<le> kDigitBitSize" by simp
  have "?V = dval (take (?n - 1) (chunks b)) + beta ^ (?n - 1) * unat ?top"
    using dval_take_Suc [of "?n - 1" "chunks b"] assms(2) len by (simp add: GetChunkAt_def)
  moreover have "dval (take (?n - 1) (chunks b)) < beta ^ (?n - 1)"
    using dval_bound [OF digits_ok_take [OF dk], of "?n - 1"] len by simp
  ultimately have "?V < beta ^ (?n - 1) * (unat ?top + 1)" by simp
  also have "\<dots> \<le> beta ^ (?n - 1) * 2 ^ CountBits ?top" using top(2) by (intro mult_le_mono2) simp
  finally have "?V * 2 ^ k < beta ^ (?n - 1) * 2 ^ CountBits ?top * 2 ^ k" by simp
  also have "\<dots> = beta ^ (?n - 1) * beta"
    using c by (simp add: k_def beta_def mult.assoc flip: power_add)
  also have "\<dots> = beta ^ ?n" using assms(2) by (simp add: power_eq_if)
  finally have "Length ?v \<le> ?n" using Length_le [OF v(1)] v(3) by simp
  moreover have "?n \<le> Length ?v"
  proof (rule ccontr)
    assume "\<not> ?n \<le> Length ?v"
    then have "dval (chunks ?v) < dval (chunks b)" using dval_mono_length [OF v(1) assms(1)] by simp
    then show False using v(3) by simp
  qed
  ultimately show ?thesis by simp
qed

text \<open>Division of the magnitudes: the part of \<open>DivideRemainder\<close> after the comparison.\<close>

lemma divide_magnitudes:
  assumes u: "bigint_inv u" "\<not> IsNegative u" and v: "bigint_inv v" "\<not> IsNegative v" "Length v \<noteq> 0"
    and le: "dval (chunks v) \<le> dval (chunks u)"
  shows "\<exists>q0 u1 u2 qs. first_digit_loop (DigitsShiftLeft v (Length u - Length v)) u 0 = Some (q0, u1) \<and>
    div_loop v (short_divisor_of v) (GetChunkAt v (Length v - 1)) (int (Length u) - 1) u1 [q0] = Some (u2, qs) \<and>
    digits_ok qs \<and> dval qs = dval (chunks u) div dval (chunks v) \<and>
    bigint_inv u2 \<and> \<not> IsNegative u2 \<and> dval (chunks u2) = dval (chunks u) mod dval (chunks v)"
proof -
  let ?D = "dval (chunks u)" and ?V = "dval (chunks v)" and ?t = "Length u - Length v"
  define w where "w = DigitsShiftLeft v ?t"
  have len: "Length v \<le> Length u"
    using dval_mono_length [OF u(1) v(1)] le by (meson not_less)
  have "bigint_inv w \<and> bval w = int (?V * beta ^ ?t)"
    using DigitsShiftLeft_correct [OF v(1), of ?t] v(2) by (simp add: w_def bval_def [of v])
  then have w: "bigint_inv w" "\<not> IsNegative w" "dval (chunks w) = ?V * beta ^ ?t"
    using bval_nonneg by blast+
  have low: "beta ^ (Length v - 1) * beta ^ ?t \<le> dval (chunks w)"
    unfolding w(3) by (intro mult_le_mono1 dval_lower v)
  then have pos: "0 < dval (chunks w)" by (rule less_le_trans [rotated]) simp
  have "?D < beta ^ Length u" using u(1) by (intro dval_upper) (simp add: bigint_inv_def)
  also have "\<dots> = beta * (beta ^ (Length v - 1) * beta ^ ?t)"
    using len v(3) by (simp flip: power_add power_Suc)
  also have "\<dots> \<le> beta * dval (chunks w)" using low by (rule mult_le_mono2)
  finally have "?D div dval (chunks w) < beta" by (rule less_mult_imp_div_less)
  then obtain q0 u1 where f: "first_digit_loop w u 0 = Some (q0, u1)"
      and q0: "unat q0 = ?D div (?V * beta ^ ?t)" "unat q0 < beta"
      and u1: "bigint_inv u1" "\<not> IsNegative u1" "dval (chunks u1) = ?D mod (?V * beta ^ ?t)"
    using first_digit_loop_correct [OF w(1,2) pos u, of 0] unfolding w(3) by auto
  have "dval (chunks u1) < ?V * beta ^ ?t" using u1(3) pos w(3) by simp
  then obtain ds u2 where l: "div_loop v (short_divisor_of v) (GetChunkAt v (Length v - 1))
        (int (Length v + ?t) - 1) u1 [q0] = Some (u2, ds @ [q0])"
      and ds: "length ds = ?t" "digits_ok ds" "dval ds = dval (chunks u1) div ?V"
      and u2: "bigint_inv u2" "\<not> IsNegative u2" "dval (chunks u2) = dval (chunks u1) mod ?V"
    using div_loop_correct [OF v u1(1,2)] by blast
  have "dval (ds @ [q0]) = ?D div ?V"
  proof -
    have "?D div ?V = (?V * (?D div (?V * beta ^ ?t) * beta ^ ?t) + ?D mod (?V * beta ^ ?t)) div ?V"
      by (metis div_mult_mod_eq mult.assoc mult.commute)
    also have "\<dots> = ?D div (?V * beta ^ ?t) * beta ^ ?t + ?D mod (?V * beta ^ ?t) div ?V"
      using pos w(3) by simp
    finally show ?thesis using ds q0(1) u1(3) by (simp add: dval_append algebra_simps)
  qed
  then show ?thesis
    using f l ds q0(2) u2 u1(3) len by (simp add: w_def mod_mod_cancel)
qed

lemma DivideRemainder_correct:
  assumes a: "bigint_inv a" and b: "bigint_inv b" "bval b \<noteq> 0"
  shows "\<exists>q r. DivideRemainder a b = Some (q, r) \<and> bigint_inv q \<and> bigint_inv r \<and>
    bval q = bval a sdiv bval b \<and> bval r = bval a smod bval b"
proof -
  let ?A = "dval (chunks a)" and ?B = "dval (chunks b)"
  have nz: "\<not> IsZero b" using IsZero_iff [OF b(1)] b(2) by simp
  then have len: "Length b \<noteq> 0" by (simp add: bigint_defs)
  have ok: "bigint_ok a" using a by (simp add: bigint_inv_def)
  have B: "0 < ?B" using b(2) by (auto simp: bval_def split: if_splits)
  have sdiv: "bval a sdiv bval b = (if IsNegative a \<noteq> IsNegative b then - int (?A div ?B) else int (?A div ?B))"
    using B by (auto simp: signed_divide_int_def bval_def zdiv_int sgn_if)
  have smod: "bval a smod bval b = (if IsNegative a then - int (?A mod ?B) else int (?A mod ?B))"
    using B by (auto simp: signed_modulo_int_def bval_def zmod_int sgn_if)
  note cmp = UnsignedCompare_correct [OF a b(1)]
  consider "?A < ?B" | "?A = ?B" | "?B < ?A" by linarith
  then show ?thesis
  proof cases
    case 1
    then have "DivideRemainder a b = Some (Zero, a)"
      using nz cmp Copy_correct [OF ok] by (simp add: DivideRemainder_def sgn_int_diff)
    then show ?thesis using 1 a unfolding sdiv smod by (simp add: bval_def [of a])
  next
    case 2
    then have "DivideRemainder a b = Some (SetSign (IsNegative a \<noteq> IsNegative b) One, Zero)"
      using nz cmp by (simp add: DivideRemainder_def)
    moreover have "bigint_ok One" using constants_correct by (simp only: bigint_inv_def)
    ultimately show ?thesis using 2 B unfolding sdiv smod
      by (simp add: bval_SetSign) (simp add: One_def)
  next
    case 3
    define k where "k = kDigitBitSize - CountBits (GetChunkAt b (Length b - 1))"
    define u where "u = SetSign False (ShiftLeft a k)"
    define v where "v = SetSign False (ShiftLeft b k)"
    have u: "bigint_inv u" "\<not> IsNegative u" "dval (chunks u) = ?A * 2 ^ k"
      using magnitude_shifted [OF a] by (simp_all add: u_def)
    have v: "bigint_inv v" "\<not> IsNegative v" "dval (chunks v) = ?B * 2 ^ k"
      using magnitude_shifted [OF b(1)] by (simp_all add: v_def)
    have lv: "Length v = Length b" unfolding v_def k_def by (rule normalised_divisor [OF b(1) len])
    have le: "dval (chunks v) \<le> dval (chunks u)" using 3 by (simp add: u v)
    obtain q0 u1 u2 qs where loops:
        "first_digit_loop (DigitsShiftLeft v (Length u - Length b)) u 0 = Some (q0, u1)"
        "div_loop v (short_divisor_of v) (GetChunkAt v (Length b - 1)) (int (Length u) - 1) u1 [q0] = Some (u2, qs)"
      and qs: "digits_ok qs" "dval qs = ?A div ?B"
      and u2: "bigint_inv u2" "\<not> IsNegative u2" "dval (chunks u2) = (?A mod ?B) * 2 ^ k"
      using divide_magnitudes [OF u(1,2) v(1,2) _ le] len lv by (auto simp: u v simp flip: mult_mod_left)
    let ?q = "SetSign (IsNegative a \<noteq> IsNegative b) (new_bigint qs)"
    let ?r = "SetSign (IsNegative a) (ShiftRight u2 k)"
    have sd: "new_bigint [if Length b > 1 then GetChunkAt v (Length b - 2) else 0, GetChunkAt v (Length b - 1)]
        = short_divisor_of v" by (simp add: short_divisor_of_def lv)
    have "DivideRemainder a b = Some (Clamp ?q, ?r)"
      unfolding DivideRemainder_def Let_def k_def [symmetric] u_def [symmetric] v_def [symmetric] sd
      using nz cmp 3 loops by (simp add: sgn_int_diff)
    moreover have "bval u2 div 2 ^ k = int (?A mod ?B)"
      using u2 by (simp add: bval_def zdiv_int)
    then have "bigint_inv (ShiftRight u2 k)" "bval (ShiftRight u2 k) = int (?A mod ?B)"
      using ShiftRight_correct [OF u2(1), of k] by simp_all
    then have "bigint_inv ?r" "bval ?r = bval a smod bval b"
      using bval_nonneg [of "ShiftRight u2 k"] unfolding smod
      by (simp_all add: bval_SetSign bigint_inv_def)
    moreover have "bigint_ok ?q" using qs by simp
    then have "bigint_inv (Clamp ?q)" "bval (Clamp ?q) = bval a sdiv bval b"
      using Clamp_correct [of ?q] qs unfolding sdiv by (simp_all add: bval_SetSign)
    ultimately show ?thesis by blast
  qed
qed

subsection \<open>Bigints as a ring with truncated division\<close>

interpretation big: int_division bigint_inv bval Add Subtract Multiply DivideRemainder
  by unfold_locales (rule DivideRemainder_correct)

subsection \<open>Properties\<close>

text \<open>C1: Division by a non-zero divisor always returns (both inner loops stop), and
  yields the truncated quotient and the remainder with the sign of the dividend,
  both well formed. \<open>Divide\<close>, \<open>Remainder\<close> and \<open>Modulo\<close> select its components.\<close>

theorem divide_remainder_exact:
  assumes "bigint_inv a" and "bigint_inv b" and "\<not> IsZero b"
  shows "\<exists>q r. DivideRemainder a b = Some (q, r) \<and> bigint_inv q \<and> bigint_inv r \<and>
    bval q = bval a sdiv bval b \<and> bval r = bval a smod bval b \<and>
    Divide a b = Some q \<and> Remainder a b = Some r \<and> Modulo a b = Some r"
  using DivideRemainder_correct [of a b] assms IsZero_iff [of b]
  by (auto simp: Divide_def Remainder_def Modulo_def)

theorem divide_remainder_exact_witness:
  "\<exists>q r. DivideRemainder (ToggleSign (new_bigint [0, 0, 1])) (new_bigint [3]) = Some (q, r) \<and>
     bval q = - 24019198012642645 \<and> bval r = - 1"
  using divide_remainder_exact [of "ToggleSign (new_bigint [0, 0, 1])" "new_bigint [3]"]
  by (auto simp: beta_eq)

text \<open>The quotient and the remainder reconstruct the dividend: when the product of
  quotient and divisor is computed, adding the remainder gives back the identical
  object, and the remainder is smaller than the divisor in magnitude.\<close>

lemma divide_reconstructs:
  assumes "bigint_inv a" and "bigint_inv b" and "\<not> IsZero b"
    and "DivideRemainder a b = Some (q, r)"
  shows "(\<forall>p. Multiply q b = Some p \<longrightarrow> Add p r = a) \<and> \<bar>bval r\<bar> < \<bar>bval b\<bar>"
  using assms IsZero_iff [of b] big.divrem_reconstructs big.divrem_remainder_bound by blast

end
