(* ===== verification/Bigint_Conv.thy ===== *)
theory Bigint_Conv
  imports Bigint_Base
begin

text \<open>
  Conversions between bigints and machine integers in
  \<open>runtime/vm/bigint_operations.cc\<close>: \<open>NewFromSmi\<close>, \<open>NewFromInt64\<close>, \<open>NewFromUint64\<close>,
  \<open>FitsIntoSmi\<close>, \<open>FitsIntoMint\<close>, \<open>AbsFitsIntoUint64\<close>, \<open>FitsIntoUint64\<close>, \<open>ToSmi\<close>,
  \<open>ToMint\<close>, \<open>ToUint64\<close>, on the 64-bit build, where \<open>intptr_t\<close> has 64 bits and a small
  integer (\<open>Smi\<close>) has 62 bits and a sign.
\<close>

subsection \<open>The code\<close>

definition Smi_kBits :: nat where
  "Smi_kBits = 62"

definition Smi_kMaxValue :: int64 where
  "Smi_kMaxValue = push_bit Smi_kBits 1 - 1"

definition Smi_kMinValue :: int64 where
  "Smi_kMinValue = - push_bit Smi_kBits 1"

definition Smi_IsValid64 :: "int64 \<Rightarrow> bool" where
  "Smi_IsValid64 value \<longleftrightarrow> Smi_kMinValue \<le>s value \<and> value \<le>s Smi_kMaxValue"

definition Mint_kMaxValue :: int64 where
  "Mint_kMaxValue = 0x7FFFFFFFFFFFFFFF"

definition Mint_kMinValue :: int64 where
  "Mint_kMinValue = 0x8000000000000000"

text \<open>The counting loop and the copying loop of \<open>NewFromUint64\<close>, and the loops of
  \<open>NewFromSmi\<close>, which work on a signed value.\<close>

function count_digits :: "uint64 \<Rightarrow> nat" where
  "count_digits count_value =
     (if count_value > 0 then count_digits (drop_bit kDigitBitSize count_value) + 1 else 0)"
  by pat_completeness auto
termination
proof (relation "measure unat")
  fix v :: uint64
  assume "v > 0"
  then have "0 < unat v" by (simp add: word_less_nat_alt)
  then show "(drop_bit kDigitBitSize v, v) \<in> measure unat" by (simp add: word_nat)
qed simp

fun copy_digits :: "nat \<Rightarrow> uint64 \<Rightarrow> chunk list" where
  "copy_digits 0 value = []"
| "copy_digits (Suc n) value =
     ucast (value AND ucast kDigitMask) # copy_digits n (drop_bit kDigitBitSize value)"

definition NewFromUint64 :: "uint64 \<Rightarrow> bigint" where
  "NewFromUint64 value =
     (if value = 0 then Zero
      else SetSign False (new_bigint (copy_digits (count_digits value) value)))"

definition NewFromInt64 :: "int64 \<Rightarrow> bigint" where
  "NewFromInt64 value =
     (let is_negative = value <s 0;
          value = (if is_negative then - value else value)
      in SetSign is_negative (NewFromUint64 value))"

function count_smi_digits :: "int64 \<Rightarrow> nat" where
  "count_smi_digits count_value =
     (if 0 <s count_value then count_smi_digits (signed_drop_bit kDigitBitSize count_value) + 1 else 0)"
  by pat_completeness auto
termination
proof (relation "measure unat")
  fix v :: int64
  assume "0 <s v"
  then have "0 < sint v" by (simp add: word_sless_alt)
  then have "0 < unat v" "signed_drop_bit kDigitBitSize v = drop_bit kDigitBitSize v"
    using signed_drop_bit_nonneg [of v] by (auto simp: unat_gt_0)
  then show "(signed_drop_bit kDigitBitSize v, v) \<in> measure unat" by (simp add: word_nat)
qed simp

fun copy_smi_digits :: "nat \<Rightarrow> int64 \<Rightarrow> chunk list" where
  "copy_smi_digits 0 value = []"
| "copy_smi_digits (Suc n) value =
     ucast (value AND ucast kDigitMask) # copy_smi_digits n (signed_drop_bit kDigitBitSize value)"

declare count_digits.simps [simp del] count_smi_digits.simps [simp del]

definition NewFromSmi :: "int64 \<Rightarrow> bigint" where
  "NewFromSmi value =
     (if value = 0 then Zero
      else
        let is_negative = value <s 0;
            value = (if is_negative then - value else value)
        in SetSign is_negative (new_bigint (copy_smi_digits (count_smi_digits value) value)))"

text \<open>The common loop of \<open>FitsIntoSmi\<close> and \<open>FitsIntoMint\<close> over all digits but the leading
  one; \<open>None\<close> is the early return \<open>false\<close>.\<close>

fun fits_loop :: "chunk list \<Rightarrow> uint64 \<Rightarrow> bool \<Rightarrow> (uint64 \<times> bool) option" where
  "fits_loop [] limit bigint_is_greater = Some (limit, bigint_is_greater)"
| "fits_loop (bigint_digit # digits) limit bigint_is_greater =
     (let limit_digit = ucast (limit AND ucast kDigitMask);
          bigint_is_greater =
            (if limit_digit < bigint_digit then True
             else if limit_digit > bigint_digit then False
             else bigint_is_greater);
          limit = drop_bit kDigitBitSize limit
      in if limit = 0 then None else fits_loop digits limit bigint_is_greater)"

definition fits_limit :: "bigint \<Rightarrow> uint64 \<Rightarrow> bool" where
  "fits_limit b limit =
     (case fits_loop (take (Length b - 1) (chunks b)) limit False of
        None \<Rightarrow> False
      | Some (limit, bigint_is_greater) \<Rightarrow>
          let most_significant_digit = ucast (GetChunkAt b (Length b - 1)) :: uint64
          in if limit > most_significant_digit then True
             else if limit < most_significant_digit then False
             else \<not> bigint_is_greater)"

definition FitsIntoSmi :: "bigint \<Rightarrow> bool" where
  "FitsIntoSmi b =
     (if Length b = 0 then True
      else if Length b = 1 \<and> kDigitBitSize < 64 then True
      else fits_limit b (if IsNegative b then - Smi_kMinValue else Smi_kMaxValue))"

definition FitsIntoMint :: "bigint \<Rightarrow> bool" where
  "FitsIntoMint b =
     (if Length b = 0 then True
      else if Length b < 3 \<and> kDigitBitSize < 64 then True
      else fits_limit b (if IsNegative b then Mint_kMinValue else Mint_kMaxValue))"

text \<open>The loops that read the digits from the most significant one down.\<close>

definition digits_to_word :: "chunk list \<Rightarrow> uint64" where
  "digits_to_word ds = foldr (\<lambda>digit value. push_bit kDigitBitSize value + ucast digit) ds 0"

definition ToSmi :: "bigint \<Rightarrow> int64" where
  "ToSmi b =
     (let value = digits_to_word (chunks b)
      in if IsNegative b then - value else value)"

definition AbsToUint64 :: "bigint \<Rightarrow> uint64" where
  "AbsToUint64 b = digits_to_word (chunks b)"

definition ToMint :: "bigint \<Rightarrow> int64" where
  "ToMint b = (let value = AbsToUint64 b in if IsNegative b then - value else value)"



definition ToUint64 :: "bigint \<Rightarrow> uint64" where
  "ToUint64 b = AbsToUint64 b"

subsection \<open>From machine integers\<close>

lemma mod_beta_Suc: "x mod beta ^ Suc n = x mod beta + beta * (x div beta mod beta ^ n)" for x :: nat
  by (simp only: power_Suc mod_mult2_eq)

lemma digit_of_word: "unat (ucast (v AND ucast kDigitMask) :: chunk) = unat v mod beta" for v :: uint64
proof -
  have "unat (ucast kDigitMask :: uint64) = beta - 1"
    by (simp add: word_nat unat_kDigitMask beta_eq)
  then have m: "ucast kDigitMask = (mask 28 :: uint64)"
    by (simp add: word_unat_eq_iff beta_eq mask_eq_exp_minus_1)
  have "unat (v AND ucast kDigitMask) = unat v mod beta"
    unfolding m unat_and_mask by (simp add: beta_eq)
  moreover have "unat v mod beta < 2 ^ 32" using mod_less_divisor [of beta "unat v"] by (simp add: beta_eq)
  ultimately show ?thesis by (simp add: unat_ucast_no_wrap)
qed

lemma copy_digits_correct: "digits_ok (copy_digits n v) \<and> dval (copy_digits n v) = unat v mod beta ^ n"
proof (induction n v rule: copy_digits.induct)
  case (2 n v)
  then show ?case
    by (simp only: copy_digits.simps digits_ok_simps dval.simps digit_of_word mod_beta_Suc
        unat_drop_bit power_kDigitBitSize mod_less_divisor beta_pos simp_thms)
qed simp

lemma length_copy_digits [simp]: "length (copy_digits n v) = n"
  by (induction n v rule: copy_digits.induct) simp_all

lemma count_digits_bounds:
  "v \<noteq> 0 \<Longrightarrow> 0 < count_digits v \<and> beta ^ (count_digits v - 1) \<le> unat v \<and> unat v < beta ^ count_digits v"
proof (induction v rule: count_digits.induct)
  case (1 v)
  have pos: "v > 0" using "1.prems" by (simp add: word_neq_0_conv)
  have c: "count_digits v = count_digits (drop_bit kDigitBitSize v) + 1"
    using pos by (simp add: count_digits.simps [of v])
  have h: "unat (drop_bit kDigitBitSize v) = unat v div beta" by (simp add: word_nat)
  show ?case
  proof (cases "drop_bit kDigitBitSize v = 0")
    case True
    then have "unat v < beta" using h by (simp add: div_eq_0_iff)
    then show ?thesis using True c "1.prems" by (simp add: count_digits.simps [of 0] unat_gt_0 Suc_leI)
  next
    case False
    let ?c = "count_digits (drop_bit kDigitBitSize v)"
    have IH: "0 < ?c" "beta ^ (?c - 1) \<le> unat v div beta" "unat v div beta < beta ^ ?c"
      using "1.IH" [OF pos False] h by simp_all
    then have "beta ^ (?c - 1) * beta \<le> unat v" "unat v < beta ^ ?c * beta"
      by (simp_all add: less_eq_div_iff_mult_less_eq div_less_iff_less_mult)
    then show ?thesis using IH(1) c by (simp add: power_eq_if mult.commute)
  qed
qed

lemma NewFromUint64_correct: "bigint_inv (NewFromUint64 v) \<and> bval (NewFromUint64 v) = uint v"
proof (cases "v = 0")
  case False
  let ?ds = "copy_digits (count_digits v) v"
  note b = count_digits_bounds [OF False]
  then have d: "dval ?ds = unat v" "digits_ok ?ds" using copy_digits_correct [of "count_digits v" v] by simp_all
  have "?ds \<noteq> []" using b length_copy_digits [of "count_digits v" v] by (metis length_greater_0_conv)
  then have "bigint_inv (new_bigint ?ds)" using d b by (intro new_bigint_clampedI) simp_all
  then show ?thesis using False d by (simp add: NewFromUint64_def SetSign_def)
qed (simp add: NewFromUint64_def)

lemma uint_neg: "sint v < 0 \<Longrightarrow> uint (- v) = - sint v" for v :: int64
proof -
  assume neg: "sint v < 0"
  then have s: "sint v = uint v - 2 ^ 64" "0 < uint v"
    using sint_uint_cases [of v] by (auto split: if_splits)
  have "uint (- v) = (- uint v) mod 2 ^ 64" by (simp add: uint_word_ariths)
  also have "\<dots> = 2 ^ 64 - uint v" using s(2) uint_lt2p [of v] by (simp add: zmod_zminus1_eq_if)
  finally show ?thesis using s by simp
qed

lemma NewFromInt64_correct: "bigint_inv (NewFromInt64 v) \<and> bval (NewFromInt64 v) = sint v"
proof (cases "sint v < 0")
  case True
  then show ?thesis using NewFromUint64_correct [of "- v"] uint_neg [OF True]
    by (simp add: NewFromInt64_def word_sless_alt bval_SetSign_nonneg)
qed (use NewFromUint64_correct [of v] uint_eq_sint [of v] in \<open>simp add: NewFromInt64_def word_sless_alt bval_SetSign_nonneg\<close>)

lemma sint_signed_drop_bit_nonneg: "0 \<le> sint v \<Longrightarrow> 0 \<le> sint (signed_drop_bit n v)" for v :: int64
  by (simp add: sint_signed_drop_bit_eq)

lemma smi_loops:
  assumes "0 \<le> sint v"
  shows "count_smi_digits v = count_digits v" and "copy_smi_digits n v = copy_digits n v"
proof -
  show "count_smi_digits v = count_digits v" using assms
  proof (induction v rule: count_digits.induct)
    case (1 v)
    then have "0 <s v \<longleftrightarrow> v > 0" by (auto simp: word_sless_alt word_gt_0 order.strict_iff_order signed_eq_0_iff)
    then show ?case
      using 1 sint_signed_drop_bit_nonneg [OF "1.prems", of kDigitBitSize] signed_drop_bit_nonneg [OF "1.prems"]
      by (simp add: count_smi_digits.simps [of v] count_digits.simps [of v])
  qed
  show "copy_smi_digits n v = copy_digits n v" using assms
  proof (induction n v rule: copy_digits.induct)
    case (2 n v)
    then show ?case
      using sint_signed_drop_bit_nonneg [OF "2.prems", of kDigitBitSize] signed_drop_bit_nonneg [OF "2.prems"] by simp
  qed simp
qed

lemma Smi_IsValid64_iff: "Smi_IsValid64 v \<longleftrightarrow> - (2 ^ 62) \<le> sint v \<and> sint v < 2 ^ 62"
  by (auto simp: Smi_IsValid64_def Smi_kMinValue_def Smi_kMaxValue_def Smi_kBits_def word_sle_eq push_bit_eq_mult)

lemma NewFromSmi_correct:
  assumes "Smi_IsValid64 v"
  shows "NewFromSmi v = NewFromInt64 v"
proof -
  let ?w = "if sint v < 0 then - v else v"
  have r: "- (2 ^ 62) \<le> sint v" "sint v < 2 ^ 62" using assms by (simp_all add: Smi_IsValid64_iff)
  have "uint ?w = \<bar>sint v\<bar>" using uint_neg [of v] uint_eq_sint [of v] by auto
  then have "0 \<le> sint ?w" using sint_uint_cases [of ?w] r by auto
  note l = smi_loops [OF this]
  show ?thesis using l
    by (auto simp: NewFromSmi_def NewFromInt64_def NewFromUint64_def Let_def word_sless_alt SetSign_def Zero_def)
qed

subsection \<open>Range checks\<close>

lemma fits_loop_correct:
  assumes "digits_ok ds"
  shows "case fits_loop ds l g of
      None \<Rightarrow> unat l div beta ^ length ds = 0
    | Some (l', g') \<Rightarrow> unat l' = unat l div beta ^ length ds \<and>
        (g' \<longleftrightarrow> unat l mod beta ^ length ds < dval ds \<or> unat l mod beta ^ length ds = dval ds \<and> g)"
  using assms
proof (induction ds l g rule: fits_loop.induct)
  case (2 d ds l g)
  let ?ld = "ucast (l AND ucast kDigitMask) :: chunk" and ?l = "drop_bit kDigitBitSize l"
  let ?g = "if ?ld < d then True else if ?ld > d then False else g"
  have ld: "unat ?ld = unat l mod beta" by (rule digit_of_word)
  have l: "unat ?l = unat l div beta" by (simp add: word_nat)
  have cmp: "?ld < d \<longleftrightarrow> unat l mod beta < unat d" "?ld > d \<longleftrightarrow> unat d < unat l mod beta"
    by (simp_all add: word_less_nat_alt ld)
  have dv: "unat l div beta ^ length (d # ds) = unat ?l div beta ^ length ds"
    by (simp add: l div_mult2_eq)
  have md: "unat l mod beta ^ length (d # ds) = unat l mod beta + beta * (unat ?l mod beta ^ length ds)"
    by (simp only: l list.size(4) add_Suc_right add_0_right mod_beta_Suc)
  show ?case
  proof (cases "?l = 0")
    case True
    then show ?thesis using l dv by (simp add: Let_def)
  next
    case False
    have dk: "digits_ok ds" "unat d < beta" "unat l mod beta < beta" using "2.prems" by simp_all
    have step: "fits_loop (d # ds) l g = fits_loop ds ?l ?g" using False by (simp add: Let_def)
    show ?thesis using "2.IH" [OF refl refl refl False dk(1)] cmp
      unfolding step dv md dval.simps using lex_less [OF dk(3,2)] lex_eq [OF dk(3,2)]
      by (auto split: option.splits if_splits)
  qed
qed simp

lemma fits_limit_correct:
  assumes "bigint_inv b" "Length b \<noteq> 0"
  shows "fits_limit b l \<longleftrightarrow> dval (chunks b) \<le> unat l"
proof -
  define n where "n = Length b - 1"
  let ?lo = "take n (chunks b)" and ?top = "GetChunkAt b n"
  note ld = leading_digit [OF assms, folded n_def]
  have len: "length ?lo = n" using assms by (simp add: n_def bigint_inv_def bigint_ok_def)
  have top: "unat (ucast ?top :: uint64) = unat ?top" using unat_less [of ?top] by (simp add: word_nat)
  have l: "unat l = unat l mod beta ^ n + beta ^ n * (unat l div beta ^ n)" by simp
  have m: "unat l mod beta ^ n < beta ^ n" by simp
  show ?thesis
  proof (cases "fits_loop ?lo l False")
    case None
    then have "unat l < beta ^ n"
      using fits_loop_correct [OF ld(4), of l False] len by (simp add: div_eq_0_iff)
    moreover have "beta ^ n * 1 \<le> beta ^ n * unat ?top"
      using ld(3) by (intro mult_le_mono2) (simp add: Suc_leI unat_gt_0)
    ultimately have "unat l < dval (chunks b)" unfolding ld(1) by linarith
    then show ?thesis using None by (simp add: fits_limit_def n_def)
  next
    case (Some r)
    then obtain l' g where r: "fits_loop ?lo l False = Some (l', g)" by (cases r) auto
    then have l': "unat l' = unat l div beta ^ n" and g: "g \<longleftrightarrow> unat l mod beta ^ n < dval ?lo"
      using fits_loop_correct [OF ld(4), of l False] len by simp_all
    have "unat l < dval (chunks b) \<longleftrightarrow> unat l' < unat ?top \<or> unat l' = unat ?top \<and> g"
      using lex_less [OF m ld(2), of "unat l div beta ^ n" "unat ?top"] l l' g unfolding ld(1) by simp
    then show ?thesis using r top
      by (auto simp: fits_limit_def n_def Let_def word_less_nat_alt not_le [symmetric])
  qed
qed

lemma Length_small: "bigint_inv b \<Longrightarrow> Length b \<le> n \<Longrightarrow> dval (chunks b) < beta ^ n"
proof -
  assume b: "bigint_inv b" "Length b \<le> n"
  then have "dval (chunks b) < beta ^ Length b"
    using dval_bound [of "chunks b"] by (simp add: bigint_inv_def bigint_ok_def)
  also have "\<dots> \<le> beta ^ n" using b(2) by (intro power_increasing) simp_all
  finally show ?thesis .
qed

lemma magnitude_range:
  "0 < m \<Longrightarrow> dval (chunks b) \<le> (if IsNegative b then m else m - 1) \<longleftrightarrow> - int m \<le> bval b \<and> bval b < int m"
  by (auto simp: bval_def)

lemma limits:
  "unat (- Smi_kMinValue) = 2 ^ 62" "unat Smi_kMaxValue = 2 ^ 62 - 1"
  "unat Mint_kMinValue = 2 ^ 63" "unat Mint_kMaxValue = 2 ^ 63 - 1"
  by (simp_all add: Smi_kMinValue_def Smi_kMaxValue_def Smi_kBits_def Mint_kMinValue_def Mint_kMaxValue_def
      push_bit_eq_mult)

lemma FitsIntoSmi_correct:
  assumes "bigint_inv b"
  shows "FitsIntoSmi b \<longleftrightarrow> - (2 ^ 62) \<le> bval b \<and> bval b < 2 ^ 62"
proof -
  let ?d = "dval (chunks b)"
  have "FitsIntoSmi b \<longleftrightarrow> ?d \<le> (if IsNegative b then 2 ^ 62 else 2 ^ 62 - 1)"
  proof (cases "Length b \<le> 1")
    case True
    then have "?d < 2 ^ 28" using Length_small [OF assms True] by (simp add: beta_eq)
    then have "?d \<le> (if IsNegative b then 2 ^ 62 else 2 ^ 62 - 1)" by simp
    moreover have "FitsIntoSmi b" using True by (auto simp: FitsIntoSmi_def kDigitBitSize_def)
    ultimately show ?thesis by blast
  next
    case False
    then have "Length b \<noteq> 0" "Length b \<noteq> 1" by simp_all
    then show ?thesis using fits_limit_correct [OF assms] limits by (simp add: FitsIntoSmi_def)
  qed
  then show ?thesis using magnitude_range [of "2 ^ 62" b] by simp
qed

lemma FitsIntoMint_correct:
  assumes "bigint_inv b"
  shows "FitsIntoMint b \<longleftrightarrow> - (2 ^ 63) \<le> bval b \<and> bval b < 2 ^ 63"
proof -
  let ?d = "dval (chunks b)"
  have "FitsIntoMint b \<longleftrightarrow> ?d \<le> (if IsNegative b then 2 ^ 63 else 2 ^ 63 - 1)"
  proof (cases "Length b \<le> 2")
    case True
    then have "?d < 2 ^ 56" using Length_small [OF assms True] by (simp add: beta_eq)
    then have "?d \<le> (if IsNegative b then 2 ^ 63 else 2 ^ 63 - 1)" by simp
    moreover have "FitsIntoMint b" using True by (auto simp: FitsIntoMint_def kDigitBitSize_def)
    ultimately show ?thesis by blast
  next
    case False
    then have "Length b \<noteq> 0" "\<not> Length b < 3" by simp_all
    then show ?thesis using fits_limit_correct [OF assms] limits by (simp add: FitsIntoMint_def)
  qed
  then show ?thesis using magnitude_range [of "2 ^ 63" b] by simp
qed

subsection \<open>To machine integers\<close>

lemma digits_to_word_eq: "digits_to_word ds = of_nat (dval ds)"
proof (induction ds)
  case (Cons d ds)
  have "ucast d = (of_nat (unat d) :: uint64)" by simp
  moreover have "push_bit kDigitBitSize (of_nat (dval ds)) = (of_nat (beta * dval ds) :: uint64)"
    by (simp add: push_bit_eq_mult beta_def mult.commute)
  ultimately show ?case using Cons by (simp add: digits_to_word_def)
qed (simp add: digits_to_word_def)

lemma ToMint_eq: "ToMint b = word_of_int (bval b)"
  by (simp add: ToMint_def AbsToUint64_def digits_to_word_eq bval_def Let_def)

lemma ToSmi_eq: "ToSmi b = word_of_int (bval b)"
  by (simp add: ToSmi_def digits_to_word_eq bval_def Let_def)

lemma ToMint_correct: "bigint_inv b \<Longrightarrow> FitsIntoMint b \<Longrightarrow> sint (ToMint b) = bval b"
  using FitsIntoMint_correct [of b] by (simp add: ToMint_eq sint_of_int_no_wrap)

lemma ToSmi_correct: "bigint_inv b \<Longrightarrow> FitsIntoSmi b \<Longrightarrow> sint (ToSmi b) = bval b"
  using FitsIntoSmi_correct [of b] by (simp add: ToSmi_eq sint_of_int_no_wrap)








lemma AbsToUint64_correct: "\<bar>bval b\<bar> < 2 ^ 64 \<Longrightarrow> uint (AbsToUint64 b) = \<bar>bval b\<bar>"
  by (simp add: AbsToUint64_def digits_to_word_eq bval_abs uint_nat unat_of_nat)

subsection \<open>Properties\<close>




text \<open>C8: Converting a machine integer to a bigint is exact for every input, including the
  most negative one, and converting back returns the input; every well-formed bigint that
  fits is recovered from its machine integer.\<close>

theorem machine_integer_round_trip:
  "bigint_inv (NewFromInt64 v) \<and> bval (NewFromInt64 v) = sint v \<and> ToMint (NewFromInt64 v) = v \<and>
   bigint_inv (NewFromUint64 w) \<and> bval (NewFromUint64 w) = uint w \<and> ToUint64 (NewFromUint64 w) = w \<and>
   (bigint_inv b \<and> FitsIntoMint b \<longrightarrow> NewFromInt64 (ToMint b) = b)"
proof -
  have "ToMint (NewFromInt64 v) = v" using NewFromInt64_correct [of v] by (simp add: ToMint_eq)
  moreover have "ToUint64 (NewFromUint64 w) = w"
    using NewFromUint64_correct [of w] AbsToUint64_correct [of "NewFromUint64 w"] uint_lt2p [of w]
    by (simp add: ToUint64_def word_uint_eq_iff)
  moreover have "NewFromInt64 (ToMint b) = b" if "bigint_inv b" "FitsIntoMint b"
    using that NewFromInt64_correct [of "ToMint b"] ToMint_correct [of b] by (intro bval_inj) simp_all
  ultimately show ?thesis using NewFromInt64_correct [of v] NewFromUint64_correct [of w] by blast
qed

theorem machine_integer_round_trip_witness:
  "NewFromInt64 (ToMint (new_bigint [1, 2])) = new_bigint [1, 2]"
proof -
  have "bigint_inv (new_bigint [1, 2])" "FitsIntoMint (new_bigint [1, 2])"
    by (simp_all add: beta_eq FitsIntoMint_def kDigitBitSize_def)
  then show ?thesis using machine_integer_round_trip [of 0 0 "new_bigint [1, 2]"] by blast
qed

text \<open>On the values a small integer can hold, \<open>NewFromSmi\<close> agrees with \<open>NewFromInt64\<close>, and
  \<open>ToSmi\<close> recovers the value.\<close>

lemma smi_round_trip:
  assumes "Smi_IsValid64 v"
  shows "NewFromSmi v = NewFromInt64 v \<and> FitsIntoSmi (NewFromSmi v) \<and> ToSmi (NewFromSmi v) = v"
  using NewFromSmi_correct [OF assms] NewFromInt64_correct [of v] FitsIntoSmi_correct [of "NewFromInt64 v"]
    assms by (simp add: ToSmi_eq Smi_IsValid64_iff)

end
