(* ===== verification/Dart_Utils.thy ===== *)
theory Dart_Utils
  imports Dart_Prelude
begin

text \<open>
  The helpers of \<open>runtime/platform/utils.h\<close> and \<open>utils.cc\<close>: alignment and powers of two,
  range checks on integers, halves of machine words, character classes, hashes of
  strings and words. The templates are modelled at the types the VM uses them with:
  \<open>uword\<close> and \<open>intptr_t\<close> are 64-bit words (the latter read with \<open>sint\<close>).
\<close>

type_synonym uword = uint64
type_synonym intptr = int64
type_synonym int32 = "32 word"

subsection \<open>The code\<close>

definition IsPowerOfTwo :: "uword \<Rightarrow> bool" where
  "IsPowerOfTwo x \<longleftrightarrow> x AND (x - 1) = 0"

function ShiftForPowerOfTwo_loop :: "uword \<Rightarrow> nat \<Rightarrow> nat" where
  "ShiftForPowerOfTwo_loop x num_shifts =
     (if x > 1 then ShiftForPowerOfTwo_loop (drop_bit 1 x) (num_shifts + 1) else num_shifts)"
  by pat_completeness auto
termination
proof (relation "measure (\<lambda>(x, _). unat x)")
  fix x :: uword and n :: nat
  assume "x > 1"
  then have "1 < unat x" by (simp add: word_less_nat_alt)
  then show "((drop_bit 1 x, n + 1), x, n) \<in> measure (\<lambda>(x, _). unat x)"
    by (simp add: unat_drop_bit)
qed simp

declare ShiftForPowerOfTwo_loop.simps [simp del]

definition ShiftForPowerOfTwo :: "uword \<Rightarrow> nat" where
  "ShiftForPowerOfTwo x = ShiftForPowerOfTwo_loop x 0"

definition IsAligned :: "uword \<Rightarrow> uword \<Rightarrow> bool" where
  "IsAligned x n \<longleftrightarrow> x AND (n - 1) = 0"

definition RoundDown :: "uword \<Rightarrow> uword \<Rightarrow> uword" where
  "RoundDown x n = x AND - n"

definition RoundUp :: "uword \<Rightarrow> uword \<Rightarrow> uword" where
  "RoundUp x n = RoundDown (x + n - 1) n"

definition RoundUpToPowerOfTwo :: "uint32 \<Rightarrow> uint32" where
  "RoundUpToPowerOfTwo x =
     (let x = x - 1;
          x = x OR drop_bit 1 x;
          x = x OR drop_bit 2 x;
          x = x OR drop_bit 4 x;
          x = x OR drop_bit 8 x;
          x = x OR drop_bit 16 x
      in x + 1)"

definition CountOneBits :: "uint32 \<Rightarrow> nat" where
  "CountOneBits x =
     (let x = x - (drop_bit 1 x AND 0x55555555);
          x = (x AND 0x33333333) + (drop_bit 2 x AND 0x33333333);
          x = (x + drop_bit 4 x) AND 0x0F0F0F0F;
          x = x + drop_bit 8 x;
          x = x + drop_bit 16 x
      in unat (x AND 0x3F))"

definition IsInt :: "nat \<Rightarrow> int64 \<Rightarrow> bool" where
  "IsInt N value =
     (let limit = push_bit (N - 1) 1 in - limit \<le>s value \<and> value <s limit)"

definition IsUint :: "nat \<Rightarrow> int64 \<Rightarrow> bool" where
  "IsUint N value = (let limit = push_bit N 1 in 0 \<le>s value \<and> value <s limit)"

definition IsAbsoluteUint :: "nat \<Rightarrow> int64 \<Rightarrow> bool" where
  "IsAbsoluteUint N value = IsUint N (if value <s 0 then - value else value)"

definition Low16Bits :: "int32 \<Rightarrow> int32" where
  "Low16Bits value = value AND 0xFFFF"

definition High16Bits :: "int32 \<Rightarrow> int32" where
  "High16Bits value = signed_drop_bit 16 value"

definition Low32Bits :: "int64 \<Rightarrow> int32" where
  "Low32Bits value = ucast value"

definition High32Bits :: "int64 \<Rightarrow> int32" where
  "High32Bits value = ucast (signed_drop_bit 32 value)"

definition LowHighTo64Bits :: "uint32 \<Rightarrow> int32 \<Rightarrow> int64" where
  "LowHighTo64Bits low high = push_bit 32 (scast high) OR (ucast low AND 0x0FFFFFFFF)"

abbreviation code :: "char \<Rightarrow> int" where
  "code \<equiv> of_char"

definition IsDecimalDigit :: "char \<Rightarrow> bool" where
  "IsDecimalDigit c \<longleftrightarrow> code CHR ''0'' \<le> code c \<and> code c \<le> code CHR ''9''"

definition IsHexDigit :: "char \<Rightarrow> bool" where
  "IsHexDigit c \<longleftrightarrow> IsDecimalDigit c
     \<or> code CHR ''A'' \<le> code c \<and> code c \<le> code CHR ''F''
     \<or> code CHR ''a'' \<le> code c \<and> code c \<le> code CHR ''f''"

definition HexDigitToInt :: "char \<Rightarrow> int" where
  "HexDigitToInt c =
     (if IsDecimalDigit c then code c - code CHR ''0''
      else if code CHR ''A'' \<le> code c \<and> code c \<le> code CHR ''F'' then 10 + (code c - code CHR ''A'')
      else 10 + (code c - code CHR ''a''))"

definition IntToHexDigit :: "int \<Rightarrow> char" where
  "IntToHexDigit i =
     (if i < 10 then char_of (code CHR ''0'' + i) else char_of (code CHR ''A'' + (i - 10)))"

definition RangeCheck :: "intptr \<Rightarrow> intptr \<Rightarrow> intptr \<Rightarrow> bool" where
  "RangeCheck offset count len \<longleftrightarrow>
     0 \<le>s offset \<and> 0 \<le>s count \<and> 0 \<le>s len \<and> count \<le>s len - offset"

text \<open>\<open>StringHash\<close> (MurmurHash 2) reads four bytes at a time, on a little-endian machine.\<close>

definition hash_M :: uint32 where
  "hash_M = 0x5bd1e995"

fun StringHash_loop :: "uint8 list \<Rightarrow> uint32 \<Rightarrow> uint8 list \<times> uint32" where
  "StringHash_loop (b0 # b1 # b2 # b3 # cursor) hash =
     (let part = ucast b0 OR push_bit 8 (ucast b1) OR push_bit 16 (ucast b2) OR push_bit 24 (ucast b3);
          part = part * hash_M;
          part = part XOR drop_bit 24 part;
          part = part * hash_M;
          hash = hash * hash_M;
          hash = hash XOR part
      in StringHash_loop cursor hash)"
| "StringHash_loop cursor hash = (cursor, hash)"

definition StringHash_tail :: "uint8 list \<Rightarrow> uint32 \<Rightarrow> uint32" where
  "StringHash_tail cursor hash =
     (case cursor of
        [] \<Rightarrow> hash
      | c0 # rest \<Rightarrow>
          (let hash = (case rest of c1 # c2 # _ \<Rightarrow> hash XOR push_bit 16 (ucast c2) | _ \<Rightarrow> hash);
               hash = (case rest of c1 # _ \<Rightarrow> hash XOR push_bit 8 (ucast c1) | _ \<Rightarrow> hash)
           in (hash XOR ucast c0) * hash_M))"

definition StringHash :: "uint8 list \<Rightarrow> uint32" where
  "StringHash data =
     (let (cursor, hash) = StringHash_loop data (of_nat (length data));
          hash = StringHash_tail cursor hash;
          hash = hash XOR drop_bit 13 hash;
          hash = hash * hash_M
      in hash XOR drop_bit 15 hash)"

definition WordHash :: "int64 \<Rightarrow> uint32" where
  "WordHash key =
     (let a = key;
          a = (a + 0x7ed55d16) + push_bit 12 a;
          a = (a XOR 0xc761c23c) XOR drop_bit 19 a;
          a = (a + 0x165667b1) + push_bit 5 a;
          a = (a + 0xd3a2646c) XOR push_bit 9 a;
          a = (a + 0xfd7046c5) + push_bit 3 a;
          a = (a XOR 0xb55a4f09) XOR drop_bit 16 a
      in ucast a)"

subsection \<open>Powers of two and alignment\<close>

lemma highest_bit:
  fixes m :: nat
  assumes "0 < m"
  obtains n where "2 ^ n \<le> m" "m < 2 ^ Suc n"
proof -
  define k where "k = (LEAST k. m < 2 ^ k)"
  have k: "m < 2 ^ k" unfolding k_def using less_exp by (rule LeastI)
  moreover have "k \<noteq> 0" using k assms by (cases k) auto
  moreover have "\<not> m < 2 ^ (k - 1)" unfolding k_def by (rule not_less_Least) (use \<open>k \<noteq> 0\<close> k_def in simp)
  ultimately show thesis using that [of "k - 1"] by simp
qed

lemma bit_of_bounds: "2 ^ n \<le> m \<Longrightarrow> m < 2 ^ Suc n \<Longrightarrow> bit m n" for m :: nat
proof -
  assume "2 ^ n \<le> m" "m < 2 ^ Suc n"
  then have "m div 2 ^ n = 1" by (intro div_nat_eqI) simp_all
  then show ?thesis by (simp add: bit_iff_odd)
qed

lemma bit_unat: "bit (unat w) n \<longleftrightarrow> bit w n" for w :: "'a::len word"
  using bit_imp_le_length [of w n] by (auto simp: bit_simps)

lemma unat_pow2: "k < 64 \<Longrightarrow> unat (2 ^ k :: uword) = 2 ^ k"
proof -
  assume "k < 64"
  then have "(2::nat) ^ k < 2 ^ 64" by (intro power_strict_increasing) simp_all
  then show ?thesis using unat_of_nat [of "2 ^ k", where 'a = 64] by simp
qed

lemma IsPowerOfTwo_iff: "IsPowerOfTwo x \<longleftrightarrow> x = 0 \<or> (\<exists>n < 64. x = 2 ^ n)"
proof
  assume "x = 0 \<or> (\<exists>n < 64. x = 2 ^ n)"
  then show "IsPowerOfTwo x"
  proof
    assume "\<exists>n < 64. x = 2 ^ n"
    then obtain n where "x = 2 ^ n" by blast
    then have "x AND (x - 1) = 2 ^ n AND mask n" by (simp add: mask_eq_exp_minus_1)
    also have "\<dots> = 0" by (auto intro!: bit_word_eqI simp: bit_simps)
    finally have "x AND (x - 1) = 0" .
    then show ?thesis by (simp add: IsPowerOfTwo_def)
  qed (simp add: IsPowerOfTwo_def)
next
  assume pow: "IsPowerOfTwo x"
  show "x = 0 \<or> (\<exists>n < 64. x = 2 ^ n)"
  proof (cases "x = 0")
    case False
    then have "0 < unat x" by (simp add: unat_gt_0)
    then obtain n where n: "2 ^ n \<le> unat x" "unat x < 2 ^ Suc n" by (rule highest_bit)
    have bx: "bit x n" using bit_of_bounds [OF n] by (simp add: bit_unat)
    then have n64: "n < 64" using bit_imp_le_length by fastforce
    have pred: "unat (x - 1) = unat x - 1" using False by (simp add: unat_minus_one)
    have "unat x = 2 ^ n"
    proof (rule ccontr)
      assume "unat x \<noteq> 2 ^ n"
      then have "2 ^ n \<le> unat (x - 1)" "unat (x - 1) < 2 ^ Suc n" using n pred by simp_all
      then have "bit (x - 1) n" using bit_of_bounds bit_unat by blast
      then have "bit (x AND (x - 1)) n" using bx by (simp add: bit_and_iff)
      then show False using pow by (simp add: IsPowerOfTwo_def)
    qed
    then have "x = 2 ^ n" using unat_pow2 [OF n64] by (simp add: word_unat_eq_iff)
    then show ?thesis using n64 by blast
  qed simp
qed

lemma RoundDown_correct: "k < 64 \<Longrightarrow> unat (RoundDown x (2 ^ k)) = unat x div 2 ^ k * 2 ^ k"
proof -
  assume "k < 64"
  have "x AND - (2 ^ k) = push_bit k (drop_bit k x)"
    unfolding minus_exp_eq_not_mask by (auto intro!: bit_word_eqI simp: bit_simps)
  moreover have "unat x div 2 ^ k * 2 ^ k < 2 ^ 64"
    using unat_less [of x] div_times_less_eq_dividend [of "unat x" "2 ^ k"]
    by (simp add: le_less_trans [OF div_times_less_eq_dividend])
  ultimately show ?thesis by (simp add: RoundDown_def unat_push_bit unat_drop_bit)
qed

lemma IsAligned_correct: "k < 64 \<Longrightarrow> IsAligned x (2 ^ k) \<longleftrightarrow> 2 ^ k dvd unat x"
proof -
  assume "k < 64"
  have "unat (x AND (2 ^ k - 1)) = unat x mod 2 ^ k"
    unfolding mask_eq_exp_minus_1 [symmetric] by (rule unat_and_mask)
  then show ?thesis unfolding IsAligned_def by (metis dvd_eq_mod_eq_0 unat_eq_0)
qed

lemma RoundUp_correct:
  assumes "k < 64" "unat x + 2 ^ k \<le> 2 ^ 64"
  shows "2 ^ k dvd unat (RoundUp x (2 ^ k)) \<and> unat x \<le> unat (RoundUp x (2 ^ k)) \<and>
    unat (RoundUp x (2 ^ k)) < unat x + 2 ^ k"
proof -
  let ?s = "unat x + (2 ^ k - 1)"
  have "unat (2 ^ k - 1 :: uword) = 2 ^ k - 1"
    using unat_pow2 [OF assms(1)] unat_minus_one [of "2 ^ k :: uword"]
    by (metis power_not_zero unat_0 zero_neq_numeral)
  then have "unat (x + (2 ^ k - 1)) = ?s"
    using assms by (subst unat_add_no_wrap) simp_all
  then have r: "unat (RoundUp x (2 ^ k)) = ?s div 2 ^ k * 2 ^ k"
    using RoundDown_correct [OF assms(1), of "x + 2 ^ k - 1"] by (simp add: RoundUp_def algebra_simps)
  have "?s = ?s div 2 ^ k * 2 ^ k + ?s mod 2 ^ k" by (rule div_mult_mod_eq [symmetric])
  moreover have "?s mod 2 ^ k < 2 ^ k" by simp
  ultimately show ?thesis unfolding r by (intro conjI dvd_triv_right; linarith)
qed

lemma ShiftForPowerOfTwo_correct: "n < 64 \<Longrightarrow> ShiftForPowerOfTwo (2 ^ n) = n"
proof -
  assume n: "n < 64"
  have "ShiftForPowerOfTwo_loop (2 ^ n) k = n + k" for k
    using n
  proof (induction n arbitrary: k)
    case (Suc n)
    have "(1::uword) < 2 ^ Suc n"
      unfolding word_less_nat_alt unat_pow2 [OF Suc.prems] unat_1 by (rule one_less_power) simp_all
    moreover have "drop_bit 1 (2 ^ Suc n) = (2 ^ n :: uword)"
      using Suc.prems by (auto intro!: bit_word_eqI simp: bit_simps)
    ultimately show ?case using Suc by (simp add: ShiftForPowerOfTwo_loop.simps [of "2 ^ Suc n"] del: power_Suc)
  qed (simp add: ShiftForPowerOfTwo_loop.simps)
  then show ?thesis by (simp add: ShiftForPowerOfTwo_def)
qed

text \<open>The steps of \<open>RoundUpToPowerOfTwo\<close> copy every bit into all lower positions: after the
  step with distance \<open>m\<close> bit \<open>i\<close> is set if one of the \<open>2 * m\<close> bits from \<open>i\<close> on was set.\<close>

lemma smear_step:
  fixes x y :: uint32
  assumes "\<And>i. bit y i \<longleftrightarrow> (\<exists>j < m. bit x (i + j))"
  shows "bit (y OR drop_bit m y) i \<longleftrightarrow> (\<exists>j < 2 * m. bit x (i + j))"
proof -
  have "(\<exists>j < 2 * m. bit x (i + j)) \<longleftrightarrow> (\<exists>j < m. bit x (i + j)) \<or> (\<exists>j < m. bit x (i + m + j))"
    (is "?l \<longleftrightarrow> ?r")
  proof
    assume ?l
    then obtain j where j: "j < 2 * m" "bit x (i + j)" by blast
    show ?r
    proof (cases "j < m")
      case False
      then have "j - m < m" "i + m + (j - m) = i + j" using j by simp_all
      then show ?thesis using j by metis
    qed (use j in blast)
  next
    assume ?r
    then show ?l by (metis (no_types, lifting) add.assoc add_strict_mono less_add_same_cancel1 mult_2
          not_add_less1 not_less order_less_le_trans trans_less_add1 nat_add_left_cancel_less)
  qed
  then show ?thesis by (simp add: bit_or_iff bit_drop_bit_eq assms add.commute)
qed

lemma RoundUpToPowerOfTwo_correct:
  assumes "0 < unat x" "unat x \<le> 2 ^ 31"
  shows "\<exists>n \<le> 31. unat (RoundUpToPowerOfTwo x) = 2 ^ n \<and> unat x \<le> 2 ^ n \<and> 2 ^ n < 2 * unat x"
proof -
  define z where "z = x - 1"
  have z: "unat z = unat x - 1" using assms(1) by (simp add: z_def unat_minus_one unat_gt_0)
  let ?s = "\<lambda>m y. y OR drop_bit m y"
  let ?y = "?s 16 (?s 8 (?s 4 (?s 2 (?s 1 z))))"
  have "bit z i \<longleftrightarrow> (\<exists>j < 1. bit z (i + j))" for i by simp
  note s1 = smear_step [OF this, simplified]
  note s2 = smear_step [OF s1, simplified]
  note s4 = smear_step [OF s2, simplified]
  note s8 = smear_step [OF s4, simplified]
  note s16 = smear_step [OF s8, simplified]
  have r: "RoundUpToPowerOfTwo x = ?y + 1" by (simp add: RoundUpToPowerOfTwo_def Let_def z_def)
  show ?thesis
  proof (cases "unat z = 0")
    case True
    then have "z = 0" "unat x = 1" using z assms(1) by (simp_all add: unat_eq_0)
    then show ?thesis using r by (intro exI [of _ 0]) simp
  next
    case False
    then have "0 < unat z" by simp
    then obtain n where n: "2 ^ n \<le> unat z" "unat z < 2 ^ Suc n" by (rule highest_bit)
    have bz: "bit z n" using bit_of_bounds [OF n] by (simp add: bit_unat)
    have hi: "\<not> bit z i" if "n < i" for i
    proof -
      have "unat z < 2 ^ i" using n(2) power_increasing [of "Suc n" i "2::nat"] that by simp
      then show ?thesis using bit_unat [of z i] by (simp add: bit_iff_odd)
    qed
    have "(2::nat) ^ n < 2 ^ 31" using n(1) z assms by simp
    then have n31: "n < 31" by (rule power_less_imp_less_exp [rotated]) simp
    have "?y = mask (Suc n)"
    proof (rule bit_word_eqI)
      fix i assume "i < LENGTH(32)"
      have "(\<exists>j < 32. bit z (i + j)) \<longleftrightarrow> i \<le> n"
      proof
        assume "i \<le> n"
        then have "n - i < 32" "bit z (i + (n - i))" using bz n31 by simp_all
        then show "\<exists>j < 32. bit z (i + j)" by blast
      next
        assume "\<exists>j < 32. bit z (i + j)"
        then obtain j where "bit z (i + j)" by blast
        then have "\<not> n < i + j" using hi by blast
        then show "i \<le> n" by simp
      qed
      then show "bit ?y i \<longleftrightarrow> bit (mask (Suc n) :: uint32) i"
        using s16 [of i] \<open>i < LENGTH(32)\<close> by (simp add: bit_mask_iff less_Suc_eq_le)
    qed
    then have "RoundUpToPowerOfTwo x = 2 ^ Suc n" using r by (simp add: mask_eq_exp_minus_1)
    moreover have "unat (2 ^ Suc n :: uint32) = 2 ^ Suc n"
    proof -
      have "(2::nat) ^ Suc n < 2 ^ 32" using n31 by (intro power_strict_increasing) simp_all
      then show ?thesis using unat_of_nat [of "2 ^ Suc n", where 'a = 32] by simp
    qed
    moreover have "unat x = unat z + 1" using z assms(1) by simp
    ultimately show ?thesis using n n31 by (intro exI [of _ "Suc n"]) auto
  qed
qed

subsection \<open>Ranges\<close>

lemma RangeCheck_correct:
  "RangeCheck offset count len \<longleftrightarrow>
     0 \<le> sint offset \<and> 0 \<le> sint count \<and> 0 \<le> sint len \<and> sint offset + sint count \<le> sint len"
proof (cases "0 \<le> sint offset \<and> 0 \<le> sint len")
  case True
  then have "sint (len - offset) = sint len - sint offset"
    using sint_lt [of len] sint_lt [of offset] by (intro sint_diff_no_wrap) simp_all
  then show ?thesis by (auto simp: RangeCheck_def word_sle_eq)
qed (auto simp: RangeCheck_def word_sle_eq)

lemma sint_pow2: "k < 63 \<Longrightarrow> sint (push_bit k 1 :: int64) = 2 ^ k"
proof -
  assume k: "k < 63"
  then have "(2::nat) ^ k < 2 ^ 63" by (intro power_strict_increasing) simp_all
  then have "int (2 ^ k) < int (2 ^ 63)" by (simp only: of_nat_less_iff)
  moreover have "- (2 ^ 63) \<le> (2::int) ^ k" by (rule order.trans [of _ 0]) simp_all
  ultimately show ?thesis using sint_of_int_no_wrap [of "2 ^ k", where 'a = 64] by (simp add: push_bit_eq_mult)
qed

lemma IsInt_correct: "0 < N \<Longrightarrow> N < 64 \<Longrightarrow> IsInt N v \<longleftrightarrow> - (2 ^ (N - 1)) \<le> sint v \<and> sint v < 2 ^ (N - 1)"
proof -
  assume N: "0 < N" "N < 64"
  let ?l = "push_bit (N - 1) 1 :: int64"
  have l: "sint ?l = 2 ^ (N - 1)" using N by (intro sint_pow2) simp
  have "sint (0 - ?l) = sint (0 :: int64) - sint ?l"
    using l sint_lt [of ?l] order.trans [of "- (2 ^ (N - 1))" 0 "2 ^ 63 - 1 :: int"]
    by (intro sint_diff_no_wrap) simp_all
  then show ?thesis using l by (simp add: IsInt_def Let_def word_sle_eq word_sless_alt)
qed

lemma IsUint_correct: "N < 63 \<Longrightarrow> IsUint N v \<longleftrightarrow> 0 \<le> sint v \<and> sint v < 2 ^ N"
  using sint_pow2 [of N] by (simp add: IsUint_def Let_def word_sle_eq word_sless_alt)

lemma halves_round_trip: "LowHighTo64Bits (Low32Bits v) (High32Bits v) = v"
proof -
  have m: "(0x0FFFFFFFF :: int64) = mask 32" by (simp add: mask_eq_exp_minus_1)
  have "bit (LowHighTo64Bits (Low32Bits v) (High32Bits v)) n \<longleftrightarrow> bit v n" if "n < 64" for n
    unfolding LowHighTo64Bits_def Low32Bits_def High32Bits_def m using that
    by (cases "n < 32") (auto simp: bit_simps)
  then show ?thesis by (intro bit_word_eqI) simp
qed

subsection \<open>Hexadecimal digits\<close>

lemma IntToHexDigit_code: "0 \<le> i \<Longrightarrow> i < 16 \<Longrightarrow> code (IntToHexDigit i) = (if i < 10 then 48 + i else 55 + i)"
  by (auto simp: IntToHexDigit_def)

lemma hex_digit_round_trip:
  assumes "0 \<le> i" "i < 16"
  shows "IsHexDigit (IntToHexDigit i) \<and> HexDigitToInt (IntToHexDigit i) = i"
  using assms IntToHexDigit_code [OF assms]
  by (auto simp: IsHexDigit_def HexDigitToInt_def IsDecimalDigit_def split: if_splits)

lemma HexDigitToInt_range: "IsHexDigit c \<Longrightarrow> 0 \<le> HexDigitToInt c \<and> HexDigitToInt c < 16"
  by (auto simp: IsHexDigit_def HexDigitToInt_def IsDecimalDigit_def)

subsection \<open>Properties\<close>

text \<open>For every argument between 1 and \<open>2 ^ 31\<close>, \<open>RoundUpToPowerOfTwo\<close> returns the least
  power of two that is not below it.\<close>

lemma round_up_to_power_of_two_least:
  assumes "0 < unat x" and "unat x \<le> 2 ^ 31"
  shows "\<exists>n \<le> 31. unat (RoundUpToPowerOfTwo x) = 2 ^ n \<and> unat x \<le> 2 ^ n \<and>
    (\<forall>m. unat x \<le> 2 ^ m \<longrightarrow> n \<le> m)"
proof -
  obtain n where n: "n \<le> 31" "unat (RoundUpToPowerOfTwo x) = 2 ^ n" "unat x \<le> 2 ^ n" "2 ^ n < 2 * unat x"
    using RoundUpToPowerOfTwo_correct [OF assms] by blast
  have "n \<le> m" if "unat x \<le> 2 ^ m" for m
  proof -
    have "(2::nat) ^ n < 2 ^ Suc m" using n(4) that by simp
    then have "n < Suc m" by (rule power_less_imp_less_exp [rotated]) simp
    then show ?thesis by simp
  qed
  then show ?thesis using n by blast
qed

text \<open>For a power of two \<open>n\<close>, \<open>RoundDown\<close> and \<open>RoundUp\<close> return the nearest multiple of \<open>n\<close>
  below and above their argument, and \<open>IsAligned\<close> decides divisibility, as long as the
  rounded value fits in a word.\<close>

lemma alignment_exact:
  assumes "k < 64" and "unat x + 2 ^ k \<le> 2 ^ 64"
  shows "unat (RoundDown x (2 ^ k)) = unat x div 2 ^ k * 2 ^ k \<and>
    IsAligned (RoundUp x (2 ^ k)) (2 ^ k) \<and> unat x \<le> unat (RoundUp x (2 ^ k)) \<and>
    unat (RoundUp x (2 ^ k)) < unat x + 2 ^ k \<and> (IsAligned x (2 ^ k) \<longleftrightarrow> 2 ^ k dvd unat x)"
  using RoundDown_correct [OF assms(1)] RoundUp_correct [OF assms] IsAligned_correct [OF assms(1)] by blast

text \<open>\<open>RangeCheck\<close> decides \<open>offset + count \<le> len\<close> over the integers, for all 64-bit
  arguments: no combination of arguments overflows into a wrong answer.\<close>

lemma range_check_overflow_free:
  "RangeCheck offset count len \<longleftrightarrow>
     0 \<le> sint offset \<and> 0 \<le> sint count \<and> 0 \<le> sint len \<and> sint offset + sint count \<le> sint len"
  by (rule RangeCheck_correct)

end
