(* ===== verification/Bigint_Strings.thy ===== *)
theory Bigint_Strings
  imports Bigint_Div Bigint_Conv Dart_Utils
begin

text \<open>
  Bigints as text (\<open>runtime/vm/bigint_operations.cc\<close>): \<open>NewFromCString\<close>, \<open>FromHexCString\<close>,
  \<open>FromDecimalCString\<close>, \<open>ToHexCString\<close> and \<open>ToDecimalCString\<close>. A C string is the list of
  its characters before the terminating null character. Buffers that the code fills from
  the end are built by putting characters in front; the sizes the code requests for its
  buffers are computed alongside, so that the writes can be compared with them.
\<close>

subsection \<open>Hexadecimal text\<close>

definition kHexCharsPerDigit :: nat where
  "kHexCharsPerDigit = kDigitBitSize div 4"

definition ComputeChunkLength :: "string \<Rightarrow> nat" where
  "ComputeChunkLength hex_string = (length hex_string - 1) div kHexCharsPerDigit + 1"

text \<open>The two loops of \<open>FromHexCString\<close> read the string from its end: \<open>cs\<close> holds the
  characters not yet read, the last one first. The inner loop reads up to
  \<open>kHexCharsPerDigit\<close> characters into one digit.\<close>

fun read_hex_digit :: "nat \<Rightarrow> char list \<Rightarrow> nat \<Rightarrow> chunk \<Rightarrow> chunk \<times> char list" where
  "read_hex_digit 0 cs shift digit = (digit, cs)"
| "read_hex_digit (Suc j) [] shift digit = (digit, [])"
| "read_hex_digit (Suc j) (c # cs) shift digit =
     read_hex_digit j cs (shift + 4) (digit + push_bit shift (word_of_int (HexDigitToInt c)))"

fun read_hex_digits :: "nat \<Rightarrow> char list \<Rightarrow> chunk list" where
  "read_hex_digits 0 cs = []"
| "read_hex_digits (Suc n) cs =
     (let (digit, cs') = read_hex_digit kHexCharsPerDigit cs 0 0 in digit # read_hex_digits n cs')"

definition FromHexCString_value :: "string \<Rightarrow> bigint" where
  "FromHexCString_value hex_string =
     Clamp (new_bigint (read_hex_digits (ComputeChunkLength hex_string) (rev hex_string)))"

fun FromHexCString :: "string \<Rightarrow> bigint" where
  "FromHexCString hex_string =
     (if hex_string \<noteq> [] \<and> hd hex_string = CHR ''-''
      then ToggleSign (FromHexCString (tl hex_string))
      else FromHexCString_value hex_string)"

declare FromHexCString.simps [simp del]

text \<open>\<open>ToHexCString\<close> prints a fixed number of characters for every digit but the leading one.\<close>

fun print_hex_digit :: "nat \<Rightarrow> chunk \<Rightarrow> char list \<Rightarrow> char list" where
  "print_hex_digit 0 digit result = result"
| "print_hex_digit (Suc j) digit result =
     print_hex_digit j (drop_bit 4 digit) (IntToHexDigit (uint (digit AND 0xF)) # result)"

lemma drop_bit_4_less: "digit \<noteq> 0 \<Longrightarrow> unat (drop_bit 4 digit) < unat digit" for digit :: chunk
  using unat_gt_0 [of digit] by (simp add: unat_drop_bit)

function print_leading_digit :: "chunk \<Rightarrow> char list \<Rightarrow> char list" where
  "print_leading_digit leading_digit result =
     (if leading_digit \<noteq> 0
      then print_leading_digit (drop_bit 4 leading_digit)
             (IntToHexDigit (uint (leading_digit AND 0xF)) # result)
      else result)"
  by pat_completeness auto
termination
  by (relation "measure (\<lambda>(digit, _). unat digit)") (use drop_bit_4_less in auto)

function count_hex_digits :: "chunk \<Rightarrow> nat" where
  "count_hex_digits leading_digit =
     (if leading_digit \<noteq> 0 then count_hex_digits (drop_bit 4 leading_digit) + 1 else 0)"
  by pat_completeness auto
termination
  by (relation "measure unat") (use drop_bit_4_less in auto)

declare print_leading_digit.simps [simp del] count_hex_digits.simps [simp del]

definition hex_required_size :: "bigint \<Rightarrow> nat" where
  "hex_required_size b =
     (if IsNegative b then 1 else 0) + 2 + count_hex_digits (GetChunkAt b (Length b - 1))
       + (Length b - 1) * kHexCharsPerDigit + 1"

definition ToHexCString :: "bigint \<Rightarrow> string" where
  "ToHexCString b =
     (if Length b = 0 then ''0x0''
      else
        let result = fold (print_hex_digit kHexCharsPerDigit) (take (Length b - 1) (chunks b)) [];
            result = print_leading_digit (GetChunkAt b (Length b - 1)) result;
            result = CHR ''0'' # CHR ''x'' # result
        in if IsNegative b then CHR ''-'' # result else result)"

subsection \<open>Decimal text\<close>

definition kDigitsPerIteration :: nat where
  "kDigitsPerIteration = 8"

definition kTenMultiplier :: chunk where
  "kTenMultiplier = 100000000"

definition read_decimal :: "char list \<Rightarrow> chunk" where
  "read_decimal cs = foldl (\<lambda>digit c. digit * 10 + word_of_int (code c) - word_of_int (code CHR ''0'')) 0 cs"

text \<open>The loop of \<open>FromDecimalCString\<close> takes eight characters at a time; the number of
  characters left is a multiple of eight when it starts.\<close>

function from_decimal_loop :: "char list \<Rightarrow> bigint \<Rightarrow> bigint option" where
  "from_decimal_loop cs result =
     (if 1 < length cs
      then
        let digit = read_decimal (take kDigitsPerIteration cs)
        in do {
          result \<leftarrow> MultiplyWithDigit result kTenMultiplier;
          from_decimal_loop (drop kDigitsPerIteration cs)
            (if digit \<noteq> 0 then Add result (new_bigint [digit]) else result)
        }
      else Some result)"
  by pat_completeness auto
termination
  by (relation "measure (\<lambda>(cs, _). length cs)") (auto simp: kDigitsPerIteration_def)

declare from_decimal_loop.simps [simp del]

definition FromDecimalCString :: "string \<Rightarrow> bigint option" where
  "FromDecimalCString str =
     (let first_digit_decimal_digits = length str mod kDigitsPerIteration;
          digit = read_decimal (take first_digit_decimal_digits str);
          result = Clamp (new_bigint [digit])
      in map_option Clamp (from_decimal_loop (drop first_digit_decimal_digits str) result))"

fun NewFromCString :: "string \<Rightarrow> bigint option" where
  "NewFromCString str =
     (if str = [] then Some Zero
      else if hd str = CHR ''-'' then map_option ToggleSign (NewFromCString (tl str))
      else if 2 < length str \<and> str ! 0 = CHR ''0'' \<and> (str ! 1 = CHR ''x'' \<or> str ! 1 = CHR ''X'')
      then Some (FromHexCString (drop 2 str))
      else FromDecimalCString str)"

declare NewFromCString.simps [simp del]

text \<open>\<open>ToDecimalCString\<close> divides by \<open>10 ^ 8\<close> until nothing is left and writes eight characters
  for every remainder, the least significant one first. \<open>None\<close> is the out-of-memory
  exception for a bigint that is too long, or a loop that does not stop.\<close>

definition kLog2Dividend :: nat where
  "kLog2Dividend = 30103"

definition kLog2Divisor :: nat where
  "kLog2Divisor = 100000"

definition kIntptrMax :: nat where
  "kIntptrMax = 2 ^ 63 - 1"

definition kMaxAllowedDigitLength :: nat where
  "kMaxAllowedDigitLength = (kIntptrMax - 10) div kLog2Dividend div kDigitBitSize * kLog2Divisor"

definition kChunkDigits :: nat where
  "kChunkDigits = 8"

definition kChunkDivisor :: int64 where
  "kChunkDivisor = 100000000"

definition decimal_required_size :: "bigint \<Rightarrow> nat" where
  "decimal_required_size b =
     (let bit_length = Length b * kDigitBitSize;
          decimal_length = bit_length * kLog2Dividend div kLog2Divisor + 1
      in decimal_length + 1 + (if IsNegative b then 1 else 0))"

fun print_decimal :: "nat \<Rightarrow> nat \<Rightarrow> char list" where
  "print_decimal 0 part = []"
| "print_decimal (Suc i) part = char_of (code CHR ''0'' + int (part mod 10)) # print_decimal i (part div 10)"

partial_function (option) to_decimal_loop :: "bigint \<Rightarrow> bigint \<Rightarrow> char list \<Rightarrow> char list option" where
  [code]: "to_decimal_loop divisor rest result =
     (if IsZero rest then Some result
      else
        Option.bind (DivideRemainder rest divisor) (\<lambda>(q, r).
          to_decimal_loop divisor q
            (result @ print_decimal kChunkDigits (if Length r = 1 then unat (GetChunkAt r 0) else 0))))"

fun trim_zeroes :: "char list \<Rightarrow> nat \<Rightarrow> nat" where
  "trim_zeroes result result_pos =
     (if 1 < result_pos \<and> result ! (result_pos - 1) = CHR ''0''
      then trim_zeroes result (result_pos - 1) else result_pos)"

declare trim_zeroes.simps [simp del]

function reverse_loop :: "char list \<Rightarrow> nat \<Rightarrow> nat \<Rightarrow> char list" where
  "reverse_loop result i j =
     (if i < j then reverse_loop (result[i := result ! j, j := result ! i]) (i + 1) (j - 1) else result)"
  by pat_completeness auto
termination
  by (relation "measure (\<lambda>(_, i, j). j - i)") auto

declare reverse_loop.simps [simp del]

definition ToDecimalCString :: "bigint \<Rightarrow> string option" where
  "ToDecimalCString b =
     (if Length b \<ge> kMaxAllowedDigitLength then None
      else do {
        result \<leftarrow> to_decimal_loop (NewFromInt64 kChunkDivisor) b [];
        let result = take (trim_zeroes result (length result)) result;
        let result = (if IsNegative b then result @ ''-'' else result);
        Some (reverse_loop result 0 (length result - 1))
      })"

subsection \<open>Reading hexadecimal text\<close>

text \<open>The value of a list of hexadecimal characters, least significant first.\<close>

primrec hexval :: "char list \<Rightarrow> nat" where
  "hexval [] = 0"
| "hexval (c # cs) = nat (HexDigitToInt c) + 16 * hexval cs"

definition hex_text :: "char list \<Rightarrow> bool" where
  "hex_text cs \<longleftrightarrow> (\<forall>c \<in> set cs. IsHexDigit c)"

lemma hex_text_simps [simp]:
  "hex_text []" "hex_text (c # cs) \<longleftrightarrow> IsHexDigit c \<and> hex_text cs"
  "hex_text (xs @ ys) \<longleftrightarrow> hex_text xs \<and> hex_text ys" "hex_text (rev xs) \<longleftrightarrow> hex_text xs"
  by (auto simp: hex_text_def)

lemma hex_text_take_drop: "hex_text cs \<Longrightarrow> hex_text (take n cs) \<and> hex_text (drop n cs)"
  by (auto simp: hex_text_def dest: in_set_takeD in_set_dropD)

lemma hexval_append: "hexval (xs @ ys) = hexval xs + 16 ^ length xs * hexval ys"
  by (induction xs) (simp_all add: algebra_simps)

lemma hexval_split: "hexval cs = hexval (take n cs) + 16 ^ n * hexval (drop n cs)"
proof (cases "n \<le> length cs")
  case True
  then show ?thesis using hexval_append [of "take n cs" "drop n cs"] by simp
qed simp

lemma beta_hex: "beta = 16 ^ kHexCharsPerDigit"
  by (simp add: beta_eq kHexCharsPerDigit_def kDigitBitSize_def)

lemma hex_char_word:
  assumes "IsHexDigit c" "s + 4 \<le> 28"
  shows "unat (push_bit s (word_of_int (HexDigitToInt c)) :: chunk) = 2 ^ s * nat (HexDigitToInt c)"
proof -
  have h: "0 \<le> HexDigitToInt c" "HexDigitToInt c < 16" using HexDigitToInt_range [OF assms(1)] by auto
  then have u: "unat (word_of_int (HexDigitToInt c) :: chunk) = nat (HexDigitToInt c)"
    by (simp add: unat_eq_nat_uint [symmetric] unsigned_of_int take_bit_int_eq_self)
  have "nat (HexDigitToInt c) * 2 ^ s < 16 * 2 ^ s" using h by simp
  also have "\<dots> = 2 ^ (s + 4)" by (simp add: power_add)
  also have "\<dots> \<le> (2::nat) ^ 28" using assms(2) by (intro power_increasing) simp_all
  finally have "nat (HexDigitToInt c) * 2 ^ s < 2 ^ 32" by simp
  then show ?thesis by (simp add: unat_push_bit u mult.commute)
qed

lemma read_hex_digit_correct:
  assumes "hex_text cs" "unat d < 2 ^ s" "s + 4 * j \<le> 28"
  shows "snd (read_hex_digit j cs s d) = drop j cs \<and>
    unat (fst (read_hex_digit j cs s d)) = unat d + 2 ^ s * hexval (take j cs) \<and>
    unat (fst (read_hex_digit j cs s d)) < 2 ^ (s + 4 * j)"
  using assms
proof (induction j cs s d rule: read_hex_digit.induct)
  case (2 j s d)
  have "(2::nat) ^ s \<le> 2 ^ (s + 4 * Suc j)" by (intro power_increasing) simp_all
  with "2.prems"(2) have "unat d < 2 ^ (s + 4 * Suc j)" by (rule less_le_trans)
  then show ?case by simp
next
  case (3 j c cs s d)
  let ?h = "nat (HexDigitToInt c)"
  let ?p = "push_bit s (word_of_int (HexDigitToInt c)) :: chunk"
  have p: "unat ?p = 2 ^ s * ?h" using "3.prems" by (intro hex_char_word) simp_all
  have "?h \<le> 15" using HexDigitToInt_range [of c] "3.prems"(1) by auto
  then have "2 ^ s * ?h \<le> 2 ^ s * 15" by (rule mult_le_mono2)
  moreover have "(2::nat) ^ (s + 4) = 2 ^ s * 16" by (simp add: power_add)
  ultimately have lt: "unat d + unat ?p < 2 ^ (s + 4)" using "3.prems"(2) p by linarith
  also have "\<dots> \<le> (2::nat) ^ 28" using "3.prems"(3) by (intro power_increasing) simp_all
  finally have sum: "unat (d + ?p) = unat d + unat ?p" by (intro unat_add_no_wrap) simp
  show ?case using "3.IH" [OF _ _ ] "3.prems" lt sum p by (simp add: power_add algebra_simps)
qed simp

lemma read_hex_digits_correct:
  assumes "hex_text cs" "length cs \<le> kHexCharsPerDigit * n"
  shows "digits_ok (read_hex_digits n cs) \<and> dval (read_hex_digits n cs) = hexval cs"
  using assms
proof (induction n cs rule: read_hex_digits.induct)
  case (2 n cs)
  let ?k = kHexCharsPerDigit
  obtain d cs' where r: "read_hex_digit ?k cs 0 0 = (d, cs')" by fastforce
  have "cs' = drop ?k cs \<and> unat d = hexval (take ?k cs) \<and> unat d < 2 ^ (4 * ?k)"
    using read_hex_digit_correct [OF "2.prems"(1), of 0 0 ?k] r by (simp add: kHexCharsPerDigit_def kDigitBitSize_def)
  moreover have "(2::nat) ^ (4 * ?k) = beta" by (simp add: beta_hex power_mult)
  moreover have "hexval cs = hexval (take ?k cs) + beta * hexval (drop ?k cs)"
    unfolding beta_hex by (rule hexval_split)
  ultimately show ?case using "2.IH" [OF r [symmetric] refl] "2.prems" hex_text_take_drop [OF "2.prems"(1)] r
    by (simp add: algebra_simps)
qed simp

lemma FromHexCString_value_correct:
  assumes "hex_text str"
  shows "bigint_inv (FromHexCString_value str) \<and> bval (FromHexCString_value str) = int (hexval (rev str))"
proof -
  let ?k = kHexCharsPerDigit
  have "(length str - 1) mod ?k < ?k" by (simp add: kHexCharsPerDigit_def kDigitBitSize_def)
  moreover have "length str - 1 = ?k * ((length str - 1) div ?k) + (length str - 1) mod ?k" by simp
  ultimately have "length (rev str) \<le> ?k * ComputeChunkLength str"
    unfolding ComputeChunkLength_def distrib_left length_rev by linarith
  then show ?thesis
    using read_hex_digits_correct [of "rev str" "ComputeChunkLength str"] assms
      Clamp_correct [of "new_bigint (read_hex_digits (ComputeChunkLength str) (rev str))"]
    by (simp add: FromHexCString_value_def)
qed

subsection \<open>Printing hexadecimal text\<close>

fun hex_nibbles :: "nat \<Rightarrow> chunk \<Rightarrow> char list" where
  "hex_nibbles 0 digit = []"
| "hex_nibbles (Suc j) digit = IntToHexDigit (uint (digit AND 0xF)) # hex_nibbles j (drop_bit 4 digit)"

lemma nibble: "uint (digit AND 0xF) = int (unat digit mod 16)" for digit :: chunk
proof -
  have "(0xF :: chunk) = mask 4" by (simp add: mask_eq_exp_minus_1)
  then have "unat (digit AND 0xF) = unat digit mod 2 ^ 4" using unat_and_mask [of digit 4] by (simp only:)
  then show ?thesis unfolding uint_nat by simp
qed

lemma hex_nibbles_correct:
  "hex_text (hex_nibbles j d) \<and> hexval (hex_nibbles j d) = unat d mod 16 ^ j \<and> length (hex_nibbles j d) = j"
proof (induction j d rule: hex_nibbles.induct)
  case (2 j d)
  have "unat d mod 16 ^ Suc j = unat d mod 16 + 16 * (unat d div 16 mod 16 ^ j)"
    by (simp only: power_Suc mod_mult2_eq)
  moreover have "IsHexDigit (IntToHexDigit (int (unat d mod 16)))"
    "HexDigitToInt (IntToHexDigit (int (unat d mod 16))) = int (unat d mod 16)"
    using hex_digit_round_trip [of "int (unat d mod 16)"] by simp_all
  moreover have "unat (drop_bit 4 d) = unat d div 16" by (simp add: unat_drop_bit)
  ultimately show ?case using 2 by (simp only: hex_nibbles.simps nibble hexval.simps hex_text_simps
        list.size nat_int simp_thms)
qed simp

lemma print_hex_digit_eq: "print_hex_digit j d r = rev (hex_nibbles j d) @ r"
  by (induction j d r rule: print_hex_digit.induct) simp_all

lemma print_hex_digits_eq:
  "fold (print_hex_digit k) ds r = rev (concat (map (hex_nibbles k) ds)) @ r"
  by (induction ds arbitrary: r) (simp_all add: print_hex_digit_eq)

lemma concat_nibbles_correct:
  assumes "digits_ok ds"
  defines "cs \<equiv> concat (map (hex_nibbles kHexCharsPerDigit) ds)"
  shows "hex_text cs \<and> hexval cs = dval ds \<and> length cs = length ds * kHexCharsPerDigit"
  using assms(1) unfolding cs_def
proof (induction ds)
  case (Cons d ds)
  then show ?case using hex_nibbles_correct [of kHexCharsPerDigit d]
    by (simp add: hexval_append beta_hex)
qed simp

lemma print_leading_digit_eq:
  "print_leading_digit d r = rev (hex_nibbles (count_hex_digits d) d) @ r"
proof (induction d r rule: print_leading_digit.induct)
  case (1 d r)
  then show ?case by (simp add: print_leading_digit.simps [of d] count_hex_digits.simps [of d])
qed

lemma count_hex_digits_bound: "unat d < 16 ^ count_hex_digits d"
proof (induction d rule: count_hex_digits.induct)
  case (1 d)
  show ?case
  proof (cases "d = 0")
    case False
    then have "unat d div 16 < 16 ^ count_hex_digits (drop_bit 4 d)" using 1 by (simp add: unat_drop_bit)
    then have "unat d < 16 ^ count_hex_digits (drop_bit 4 d) * 16" by (simp only: div_less_iff_less_mult zero_less_numeral)
    then show ?thesis using False by (simp add: count_hex_digits.simps [of d] mult.commute)
  qed (simp add: count_hex_digits.simps)
qed

text \<open>The characters after the \<open>0x\<close>, least significant first.\<close>

definition hex_digits_of :: "bigint \<Rightarrow> char list" where
  "hex_digits_of b =
     concat (map (hex_nibbles kHexCharsPerDigit) (take (Length b - 1) (chunks b))) @
     hex_nibbles (count_hex_digits (GetChunkAt b (Length b - 1))) (GetChunkAt b (Length b - 1))"

lemma ToHexCString_eq:
  "Length b \<noteq> 0 \<Longrightarrow> ToHexCString b = (if IsNegative b then ''-'' else []) @ ''0x'' @ rev (hex_digits_of b)"
  by (simp add: ToHexCString_def hex_digits_of_def print_hex_digits_eq print_leading_digit_eq Let_def)

lemma hex_digits_of_correct:
  assumes "bigint_inv b" "Length b \<noteq> 0"
  shows "hex_text (hex_digits_of b)" and "hexval (hex_digits_of b) = dval (chunks b)"
    and "length (hex_digits_of b) =
      (Length b - 1) * kHexCharsPerDigit + count_hex_digits (GetChunkAt b (Length b - 1))"
    and "hex_digits_of b \<noteq> []"
proof -
  define n where "n = Length b - 1"
  let ?top = "GetChunkAt b n" and ?lo = "take n (chunks b)"
  note ld = leading_digit [OF assms, folded n_def]
  have len: "length ?lo = n" using assms by (simp add: n_def bigint_inv_def bigint_ok_def)
  note lo = concat_nibbles_correct [OF ld(4)]
  have t: "hex_text (hex_nibbles (count_hex_digits ?top) ?top)"
    "hexval (hex_nibbles (count_hex_digits ?top) ?top) = unat ?top"
    "length (hex_nibbles (count_hex_digits ?top) ?top) = count_hex_digits ?top"
    using hex_nibbles_correct [of "count_hex_digits ?top" ?top] count_hex_digits_bound [of ?top] by simp_all
  show "hex_text (hex_digits_of b)" using lo t by (simp add: hex_digits_of_def n_def)
  have "16 ^ (n * kHexCharsPerDigit) = beta ^ n" by (simp add: beta_hex power_mult mult.commute)
  then show "hexval (hex_digits_of b) = dval (chunks b)"
    using lo t ld(1) len by (simp add: hex_digits_of_def n_def hexval_append)
  show "length (hex_digits_of b) = (Length b - 1) * kHexCharsPerDigit + count_hex_digits (GetChunkAt b (Length b - 1))"
    using lo t len by (simp add: hex_digits_of_def n_def)
  have "count_hex_digits ?top \<noteq> 0" using ld(3) by (simp add: count_hex_digits.simps [of ?top])
  then show "hex_digits_of b \<noteq> []" using t by (auto simp: hex_digits_of_def n_def)
qed

lemma minus_not_hex: "\<not> IsHexDigit CHR ''-''"
  by (simp add: IsHexDigit_def IsDecimalDigit_def)

lemma FromHexCString_hex_text: "hex_text cs \<Longrightarrow> FromHexCString cs = FromHexCString_value cs"
  using minus_not_hex by (subst FromHexCString.simps) (cases cs; auto)

lemma NewFromCString_hex:
  assumes "hex_text cs" "cs \<noteq> []"
  shows "NewFromCString (''0x'' @ cs) = Some (FromHexCString_value cs)"
  using assms FromHexCString_hex_text [OF assms(1)] 
  by (subst NewFromCString.simps) (cases cs; simp)

lemma NewFromCString_minus: "NewFromCString (CHR ''-'' # cs) = map_option ToggleSign (NewFromCString cs)"
  by (simp add: NewFromCString.simps [of "CHR ''-'' # cs"])

lemma bval_sign_split: "bigint_inv b \<Longrightarrow> bval b = (if IsNegative b then - int (dval (chunks b)) else int (dval (chunks b)))"
  by (simp add: bval_def)

lemma signed_parse:
  assumes "bigint_inv b" "NewFromCString cs = Some v" "bigint_inv v" "bval v = int (dval (chunks b))"
  shows "NewFromCString ((if IsNegative b then ''-'' else []) @ cs) = Some b"
proof (cases "IsNegative b")
  case True
  then have "ToggleSign v = b" using assms by (intro bval_inj) (simp_all add: bval_def [of b] bigint_inv_def)
  then show ?thesis using True assms(2) by (simp add: NewFromCString_minus)
next
  case False
  then have "v = b" using assms by (intro bval_inj) (simp_all add: bval_def [of b])
  then show ?thesis using False assms(2) by simp
qed

lemma hex_round_trip:
  assumes "bigint_inv b"
  shows "NewFromCString (ToHexCString b) = Some b"
proof (cases "Length b = 0")
  case True
  then have "b = Zero" using assms IsZero_iff [OF assms] by (intro bval_inj) (simp_all add: IsZero_def Length_def)
  moreover have "bigint_inv (FromHexCString_value ''0'') \<and> bval (FromHexCString_value ''0'') = 0"
    using FromHexCString_value_correct [of "''0''"] by (simp add: IsHexDigit_def IsDecimalDigit_def HexDigitToInt_def)
  then have "FromHexCString_value ''0'' = Zero" by (intro bval_inj) simp_all
  ultimately show ?thesis using True NewFromCString_hex [of "''0''"]
    by (simp add: ToHexCString_def IsHexDigit_def IsDecimalDigit_def)
next
  case False
  let ?cs = "rev (hex_digits_of b)"
  note h = hex_digits_of_correct [OF assms False]
  have "NewFromCString (''0x'' @ ?cs) = Some (FromHexCString_value ?cs)"
    using h by (intro NewFromCString_hex) simp_all
  moreover have "bigint_inv (FromHexCString_value ?cs) \<and> bval (FromHexCString_value ?cs) = int (dval (chunks b))"
    using FromHexCString_value_correct [of ?cs] h by simp
  ultimately show ?thesis using signed_parse [OF assms] ToHexCString_eq [OF False] by metis
qed

subsection \<open>Reading decimal text\<close>

text \<open>The value of a list of decimal characters, least significant first.\<close>

primrec decval :: "char list \<Rightarrow> nat" where
  "decval [] = 0"
| "decval (c # cs) = nat (code c - code CHR ''0'') + 10 * decval cs"

definition dec_text :: "char list \<Rightarrow> bool" where
  "dec_text cs \<longleftrightarrow> (\<forall>c \<in> set cs. IsDecimalDigit c)"

lemma dec_text_simps [simp]:
  "dec_text []" "dec_text (c # cs) \<longleftrightarrow> IsDecimalDigit c \<and> dec_text cs"
  "dec_text (xs @ ys) \<longleftrightarrow> dec_text xs \<and> dec_text ys" "dec_text (rev xs) \<longleftrightarrow> dec_text xs"
  by (auto simp: dec_text_def)

lemma dec_text_take_drop: "dec_text cs \<Longrightarrow> dec_text (take n cs) \<and> dec_text (drop n cs)"
  by (auto simp: dec_text_def dest: in_set_takeD in_set_dropD)

lemma decval_append: "decval (xs @ ys) = decval xs + 10 ^ length xs * decval ys"
  by (induction xs) (simp_all add: algebra_simps)

lemma decval_bound: "dec_text cs \<Longrightarrow> decval cs < 10 ^ length cs"
proof (induction cs)
  case (Cons c cs)
  then have "nat (code c - code CHR ''0'') < 10" "decval cs + 1 \<le> 10 ^ length cs"
    by (auto simp: IsDecimalDigit_def)
  then show ?case by simp
qed simp

lemma read_decimal_eq: "dec_text cs \<Longrightarrow> read_decimal cs = of_nat (decval (rev cs))"
proof (induction cs rule: rev_induct)
  case (snoc c cs)
  let ?d = "nat (code c - code CHR ''0'')"
  have "code c - code CHR ''0'' = int ?d" using snoc.prems by (simp add: IsDecimalDigit_def)
  then have "word_of_int (code c) - word_of_int (code CHR ''0'') = (of_nat ?d :: chunk)"
    by (metis of_int_diff of_int_of_nat_eq)
  then have "read_decimal (cs @ [c]) = read_decimal cs * 10 + of_nat ?d"
    by (simp add: read_decimal_def algebra_simps)
  then show ?case using snoc by (simp add: algebra_simps)
qed (simp add: read_decimal_def)

lemma read_decimal_correct:
  assumes "dec_text cs" "length cs \<le> 8"
  shows "unat (read_decimal cs) = decval (rev cs)" and "unat (read_decimal cs) < beta"
proof -
  have "decval (rev cs) < 10 ^ length cs" using decval_bound [of "rev cs"] assms by simp
  also have "\<dots> \<le> (10::nat) ^ 8" using assms(2) by (intro power_increasing) simp_all
  finally have "decval (rev cs) < 100000000" by simp
  then show "unat (read_decimal cs) = decval (rev cs)" "unat (read_decimal cs) < beta"
    unfolding read_decimal_eq [OF assms(1)] by (simp_all add: unat_of_nat beta_eq)
qed

lemma from_decimal_loop_correct:
  assumes "dec_text cs" "bigint_inv res" "8 dvd length cs"
  shows "\<exists>r. from_decimal_loop cs res = Some r \<and> bigint_inv r \<and>
    bval r = bval res * 10 ^ length cs + int (decval (rev cs))"
  using assms
proof (induction cs res rule: from_decimal_loop.induct)
  case (1 cs res)
  show ?case
  proof (cases "1 < length cs")
    case True
    then have len: "8 \<le> length cs" using "1.prems"(3) by (meson dvd_imp_le less_trans zero_less_one)
    let ?d = "read_decimal (take 8 cs)"
    have d: "unat ?d = decval (rev (take 8 cs))" "unat ?d < beta"
      using read_decimal_correct [of "take 8 cs"] dec_text_take_drop "1.prems"(1) by simp_all
    have ok: "bigint_ok res" "unat kTenMultiplier < beta"
      using "1.prems"(2) by (simp_all add: bigint_inv_def kTenMultiplier_def beta_eq)
    obtain m where m: "MultiplyWithDigit res kTenMultiplier = Some m" "bigint_inv m" "bval m = bval res * 10 ^ 8"
      using MultiplyWithDigit_correct [OF ok] by (auto simp: kTenMultiplier_def)
    let ?m = "if ?d \<noteq> 0 then Add m (new_bigint [?d]) else m"
    have m': "bigint_inv ?m" "bval ?m = bval m + int (unat ?d)"
      using Add_correct [OF m(2), of "new_bigint [?d]"] m(2) d(2) by auto
    have "8 dvd length (drop 8 cs)" using "1.prems"(3) len by (simp add: dvd_diff_nat)
    then obtain r where r: "from_decimal_loop (drop 8 cs) ?m = Some r" "bigint_inv r"
        "bval r = bval ?m * 10 ^ length (drop 8 cs) + int (decval (rev (drop 8 cs)))"
      using "1.IH" [OF True refl m(1), unfolded kDigitsPerIteration_def] dec_text_take_drop [OF "1.prems"(1)] m'(1)
      by blast
    have "decval (rev cs) = decval (rev (drop 8 cs)) + 10 ^ length (drop 8 cs) * decval (rev (take 8 cs))"
      using decval_append [of "rev (drop 8 cs)" "rev (take 8 cs)"] by (simp flip: rev_append)
    moreover have "(10::int) ^ length cs = 10 ^ 8 * 10 ^ length (drop 8 cs)"
      unfolding power_add [symmetric] using len by simp
    ultimately have "bval r = bval res * 10 ^ length cs + int (decval (rev cs))"
      using r(3) m'(2) m(3) d(1) by (simp add: algebra_simps)
    then show ?thesis using True m(1) r(1,2)
      by (simp add: from_decimal_loop.simps [of cs] kDigitsPerIteration_def Let_def)
  next
    case False
    then have "length cs = 0" using "1.prems"(3) by (cases "length cs") auto
    then show ?thesis using "1.prems"(2) by (simp add: from_decimal_loop.simps [of "[]"])
  qed
qed

lemma FromDecimalCString_correct:
  assumes "dec_text str"
  shows "\<exists>r. FromDecimalCString str = Some r \<and> bigint_inv r \<and> bval r = int (decval (rev str))"
proof -
  let ?k = "length str mod 8"
  let ?res = "Clamp (new_bigint [read_decimal (take ?k str)])"
  have k: "?k \<le> 8" "?k \<le> length str" by simp_all
  note tk = dec_text_take_drop [OF assms, of ?k]
  have d: "unat (read_decimal (take ?k str)) = decval (rev (take ?k str))" "unat (read_decimal (take ?k str)) < beta"
    using read_decimal_correct [of "take ?k str"] tk k by simp_all
  then have res: "bigint_inv ?res" "bval ?res = int (decval (rev (take ?k str)))"
    using Clamp_correct [of "new_bigint [read_decimal (take ?k str)]"] by simp_all
  have "8 dvd length (drop ?k str)" by (simp add: dvd_minus_mod)
  then obtain r where r: "from_decimal_loop (drop ?k str) ?res = Some r" "bigint_inv r"
      "bval r = bval ?res * 10 ^ length (drop ?k str) + int (decval (rev (drop ?k str)))"
    using from_decimal_loop_correct tk res(1) by blast
  have "decval (rev str) = decval (rev (drop ?k str)) + 10 ^ length (drop ?k str) * decval (rev (take ?k str))"
    using decval_append [of "rev (drop ?k str)" "rev (take ?k str)"] by (simp flip: rev_append)
  then have "bval r = int (decval (rev str))" using r(3) res(2) by (simp add: mult.commute)
  then show ?thesis using r Clamp_correct [of r]
    by (simp add: FromDecimalCString_def kDigitsPerIteration_def Let_def bigint_inv_def)
qed

subsection \<open>Printing decimal text\<close>

lemma print_decimal_correct:
  "dec_text (print_decimal n part) \<and> decval (print_decimal n part) = part mod 10 ^ n \<and>
   length (print_decimal n part) = n"
proof (induction n part rule: print_decimal.induct)
  case (2 n part)
  have "part mod 10 ^ Suc n = part mod 10 + 10 * (part div 10 mod 10 ^ n)"
    by (simp only: power_Suc mod_mult2_eq)
  moreover have c: "code (char_of (code CHR ''0'' + int (part mod 10))) = 48 + int (part mod 10)" by simp
  ultimately show ?case using 2 by (simp add: IsDecimalDigit_def del: power_Suc)
qed simp

lemma divide_by_chunk:
  assumes "bigint_inv rest" "\<not> IsZero rest"
  shows "\<exists>q r. DivideRemainder rest (NewFromInt64 kChunkDivisor) = Some (q, r) \<and> bigint_inv q \<and>
    dval (chunks q) = dval (chunks rest) div 10 ^ 8 \<and>
    (if Length r = 1 then unat (GetChunkAt r 0) else 0) = dval (chunks rest) mod 10 ^ 8"
proof -
  let ?D = "NewFromInt64 kChunkDivisor" and ?n = "dval (chunks rest)"
  have D: "bigint_inv ?D" "bval ?D = 10 ^ 8"
    using NewFromInt64_correct [of kChunkDivisor] by (simp_all add: kChunkDivisor_def)
  then obtain q r where qr: "DivideRemainder rest ?D = Some (q, r)" "bigint_inv q" "bigint_inv r"
      "bval q = bval rest sdiv 10 ^ 8" "bval r = bval rest smod 10 ^ 8"
    using DivideRemainder_correct [OF assms(1) D(1)] by auto
  have "int (dval (chunks q)) = \<bar>bval q\<bar>" "int (dval (chunks r)) = \<bar>bval r\<bar>" by (simp_all add: bval_abs)
  moreover have "\<bar>bval rest sdiv 10 ^ 8\<bar> = \<bar>bval rest\<bar> div 10 ^ 8"
      "\<bar>bval rest smod 10 ^ 8\<bar> = \<bar>bval rest\<bar> mod 10 ^ 8"
    by (simp_all add: signed_divide_int_def signed_modulo_int_def abs_mult sgn_if pos_imp_zdiv_nonneg_iff)
  then have "\<bar>bval rest sdiv 10 ^ 8\<bar> = int ?n div 10 ^ 8" "\<bar>bval rest smod 10 ^ 8\<bar> = int ?n mod 10 ^ 8"
    unfolding bval_abs by blast+
  ultimately have q: "int (dval (chunks q)) = int ?n div 10 ^ 8" and r: "int (dval (chunks r)) = int ?n mod 10 ^ 8"
    using qr by simp_all
  then have "int (dval (chunks q)) = int (?n div 10 ^ 8)" "int (dval (chunks r)) = int (?n mod 10 ^ 8)"
    by (simp_all add: zdiv_int zmod_int)
  then have q': "dval (chunks q) = ?n div 10 ^ 8" and r': "dval (chunks r) = ?n mod 10 ^ 8"
    by (simp_all only: of_nat_eq_iff)
  then have "dval (chunks r) < beta ^ 1" using mod_less_divisor [of "10 ^ 8" ?n] by (simp add: beta_eq)
  then have "Length r \<le> 1" using Length_le [OF qr(3)] by blast
  then have "(if Length r = 1 then unat (GetChunkAt r 0) else 0) = dval (chunks r)"
    using leading_digit(1) [OF qr(3)] qr(3) by (cases "Length r = 0") (auto simp: bigint_inv_def bigint_ok_def)
  then show ?thesis using qr q' r' by auto
qed

lemma to_decimal_loop_correct:
  assumes "bigint_inv rest"
  shows "\<exists>n cs. to_decimal_loop (NewFromInt64 kChunkDivisor) rest result = Some (result @ cs) \<and>
    dec_text cs \<and> decval cs = dval (chunks rest) \<and> length cs = 8 * n \<and>
    (if dval (chunks rest) = 0 then n = 0 else 0 < n \<and> 10 ^ (8 * (n - 1)) \<le> dval (chunks rest))"
  using assms
proof (induction "dval (chunks rest)" arbitrary: rest result rule: less_induct)
  case less
  let ?D = "NewFromInt64 kChunkDivisor" and ?N = "dval (chunks rest)"
  note un = to_decimal_loop.simps [of ?D rest result]
  show ?case
  proof (cases "IsZero rest")
    case True
    then have "?N = 0" using less.prems by (simp add: bigint_inv_def bigint_ok_def bigint_defs)
    then show ?thesis using True un by (intro exI [of _ 0] exI [of _ "[]"]) simp
  next
    case False
    then have "\<bar>bval rest\<bar> \<noteq> 0" using IsZero_iff [OF less.prems] by simp
    then have N: "?N \<noteq> 0" unfolding bval_abs by simp
    obtain q r where qr: "DivideRemainder rest ?D = Some (q, r)" "bigint_inv q" "dval (chunks q) = ?N div 10 ^ 8"
        "(if Length r = 1 then unat (GetChunkAt r 0) else 0) = ?N mod 10 ^ 8"
      using divide_by_chunk [OF less.prems False] by blast
    let ?p = "print_decimal 8 (?N mod 10 ^ 8)"
    have lt: "dval (chunks q) < ?N" using qr(3) N by (simp add: div_less_dividend)
    obtain n cs where IH: "to_decimal_loop ?D q (result @ ?p) = Some ((result @ ?p) @ cs)" "dec_text cs"
        "decval cs = ?N div 10 ^ 8" "length cs = 8 * n"
        "if ?N div 10 ^ 8 = 0 then n = 0 else 0 < n \<and> 10 ^ (8 * (n - 1)) \<le> ?N div 10 ^ 8"
      using less.hyps [OF lt qr(2), of "result @ ?p"] unfolding qr(3) by blast
    have "to_decimal_loop ?D rest result = Some (result @ (?p @ cs))"
      using un False qr IH(1) by (simp add: kChunkDigits_def)
    moreover have "decval (?p @ cs) = ?N" "dec_text (?p @ cs)" "length (?p @ cs) = 8 * Suc n"
      using print_decimal_correct [of 8 "?N mod 10 ^ 8"] IH by (simp_all add: decval_append)
    moreover have "10 ^ (8 * n) \<le> ?N"
    proof (cases "n = 0")
      case False
      then have "10 ^ (8 * (n - 1)) \<le> ?N div 10 ^ 8" using IH(5) by (simp split: if_splits)
      then have "10 ^ (8 * (n - 1)) * 10 ^ 8 \<le> ?N" by (simp add: less_eq_div_iff_mult_less_eq)
      moreover have "(10::nat) ^ (8 * n) = 10 ^ (8 * (n - 1)) * 10 ^ 8"
        unfolding power_add [symmetric] using False by (cases n) simp_all
      ultimately show ?thesis by simp
    qed (use N in simp)
    ultimately show ?thesis by (intro exI [of _ "Suc n"] exI [of _ "?p @ cs"]) (use N in \<open>simp only: diff_Suc_1 if_False zero_less_Suc simp_thms\<close>)
  qed
qed

lemma trim_zeroes_correct:
  assumes "k \<le> length cs"
  shows "trim_zeroes cs k \<le> k \<and> decval (take (trim_zeroes cs k) cs) = decval (take k cs) \<and>
    (0 < k \<longrightarrow> 0 < trim_zeroes cs k) \<and> (1 < trim_zeroes cs k \<longrightarrow> cs ! (trim_zeroes cs k - 1) \<noteq> CHR ''0'')"
  using assms
proof (induction k rule: less_induct)
  case (less k)
  show ?case
  proof (cases "1 < k \<and> cs ! (k - 1) = CHR ''0''")
    case True
    then have "k - 1 < length cs" using less.prems by linarith
    then have "take k cs = take (k - 1) cs @ [CHR ''0'']"
      using take_Suc_conv_app_nth [of "k - 1" cs] True by simp
    moreover have "k - 1 < k" "k - 1 \<le> length cs" "0 < k - 1" using True less.prems by linarith+
    note less.IH [OF this(1,2)] this
    ultimately show ?thesis using True by (auto simp: trim_zeroes.simps [of cs k] decval_append)
  next
    case False
    then have "trim_zeroes cs k = k" by (simp only: trim_zeroes.simps [of cs k] if_False)
    then show ?thesis using False by auto
  qed
qed

lemma reverse_loop_nth:
  assumes "j < length xs \<or> j = 0"
  shows "length (reverse_loop xs i j) = length xs \<and>
    (\<forall>k < length xs. reverse_loop xs i j ! k = (if i \<le> k \<and> k \<le> j then xs ! (i + j - k) else xs ! k))"
  using assms
proof (induction xs i j rule: reverse_loop.induct)
  case (1 xs i j)
  show ?case
  proof (cases "i < j")
    case True
    let ?ys = "xs[i := xs ! j, j := xs ! i]"
    have j: "j < length xs" using 1 True by auto
    then have "j - 1 < length ?ys \<or> j - 1 = 0" by (simp add: less_imp_diff_less)
    then have IH: "length (reverse_loop ?ys (i + 1) (j - 1)) = length xs"
      "\<And>k. k < length xs \<Longrightarrow> reverse_loop ?ys (i + 1) (j - 1) ! k =
        (if i + 1 \<le> k \<and> k \<le> j - 1 then ?ys ! (i + 1 + (j - 1) - k) else ?ys ! k)"
      using "1.IH" [OF True] by simp_all
    have "reverse_loop ?ys (i + 1) (j - 1) ! k = (if i \<le> k \<and> k \<le> j then xs ! (i + j - k) else xs ! k)"
      if "k < length xs" for k
    proof -
      consider "i < k \<and> k < j" | "k = i" | "k = j" | "k < i \<or> j < k" by linarith
      then show ?thesis
      proof cases
        case 1
        then have "i + 1 + (j - 1) - k = i + j - k" "i + j - k \<noteq> i" "i + j - k \<noteq> j" "k \<le> j - 1"
          by auto
        then show ?thesis using 1 IH(2) [OF that] by simp
      qed (use IH(2) [OF that] True j in auto)
    qed
    then show ?thesis using IH(1) True by (simp add: reverse_loop.simps [of xs i j])
  next
    case False
    then have "i + j - k = k" if "i \<le> k" "k \<le> j" for k using that by linarith
    then show ?thesis using False by (auto simp: reverse_loop.simps [of xs i j])
  qed
qed

lemma reverse_loop_rev: "reverse_loop xs 0 (length xs - 1) = rev xs"
proof (rule nth_equalityI)
  have "length xs - 1 < length xs \<or> length xs - 1 = 0" by linarith
  note r = reverse_loop_nth [OF this, of 0]
  show "length (reverse_loop xs 0 (length xs - 1)) = length (rev xs)" using r by auto
  fix k assume "k < length (reverse_loop xs 0 (length xs - 1))"
  then show "reverse_loop xs 0 (length xs - 1) ! k = rev xs ! k" using r by (auto simp: rev_nth)
qed

lemma ToDecimalCString_correct:
  assumes "bigint_inv b" "Length b < kMaxAllowedDigitLength" "\<not> IsZero b"
  shows "\<exists>ds. ToDecimalCString b = Some ((if IsNegative b then ''-'' else []) @ ds) \<and> ds \<noteq> [] \<and>
    hd ds \<noteq> CHR ''0'' \<and> dec_text ds \<and> decval (rev ds) = dval (chunks b)"
proof -
  have N: "dval (chunks b) \<noteq> 0" using IsZero_iff [OF assms(1)] assms(3) bval_abs [of b] by auto
  obtain n cs where l: "to_decimal_loop (NewFromInt64 kChunkDivisor) b [] = Some cs" "dec_text cs"
      "decval cs = dval (chunks b)" "length cs = 8 * n" "0 < n"
    using to_decimal_loop_correct [OF assms(1), of "[]"] N by auto
  define t where "t = trim_zeroes cs (length cs)"
  have t: "t \<le> length cs" "decval (take t cs) = dval (chunks b)" "0 < t" "1 < t \<longrightarrow> cs ! (t - 1) \<noteq> CHR ''0''"
    using trim_zeroes_correct [of "length cs" cs] l by (auto simp: t_def)
  let ?ds = "rev (take t cs)"
  have last: "last (take t cs) = cs ! (t - 1)" using t by (subst last_conv_nth) auto
  have "hd ?ds \<noteq> CHR ''0''"
  proof (cases "1 < t")
    case False
    then have "t = 1" using t(3) by simp
    moreover obtain c cs' where "cs = c # cs'" using t by (cases cs) auto
    ultimately show ?thesis using t(2) N by auto
  qed (use last t in \<open>simp add: hd_rev\<close>)
  moreover have "?ds \<noteq> []" "dec_text ?ds" using t l dec_text_take_drop by auto
  moreover have "ToDecimalCString b = Some ((if IsNegative b then ''-'' else []) @ ?ds)"
    using assms(2) l(1) reverse_loop_rev [of "take t cs"] reverse_loop_rev [of "take t cs @ ''-''"]
    by (simp add: ToDecimalCString_def t_def Let_def)
  ultimately show ?thesis using t(2) by (intro exI [of _ ?ds]) simp
qed

lemma NewFromCString_decimal:
  assumes "dec_text ds" "ds \<noteq> []"
  shows "NewFromCString ds = FromDecimalCString ds"
proof -
  have no: "\<not> IsDecimalDigit CHR ''-''" "\<not> IsDecimalDigit CHR ''x''" "\<not> IsDecimalDigit CHR ''X''"
    by (simp_all add: IsDecimalDigit_def)
  then have "hd ds \<noteq> CHR ''-''" using assms by (cases ds) auto
  moreover have "IsDecimalDigit (ds ! 1)" if "2 < length ds"
    using assms(1) nth_mem [of 1 ds] that by (simp add: dec_text_def)
  then have "\<not> (2 < length ds \<and> (ds ! 1 = CHR ''x'' \<or> ds ! 1 = CHR ''X''))"
    using no by metis
  ultimately show ?thesis using assms(2) by (subst NewFromCString.simps) auto
qed

lemma decimal_round_trip:
  assumes "bigint_inv b" "Length b < kMaxAllowedDigitLength"
  shows "Option.bind (ToDecimalCString b) NewFromCString = Some b"
proof (cases "IsZero b")
  case True
  then have "b = Zero" using assms IsZero_iff [OF assms(1)] by (intro bval_inj) simp_all
  moreover have "to_decimal_loop (NewFromInt64 kChunkDivisor) b [] = Some []"
    using True by (simp add: to_decimal_loop.simps)
  ultimately show ?thesis using assms(2) reverse_loop_rev [of "[]"]
    by (simp add: ToDecimalCString_def NewFromCString.simps [of "[]"] Let_def Zero_def)
next
  case False
  obtain ds where ds: "ToDecimalCString b = Some ((if IsNegative b then ''-'' else []) @ ds)" "ds \<noteq> []"
      "dec_text ds" "decval (rev ds) = dval (chunks b)"
    using ToDecimalCString_correct [OF assms False] by blast
  obtain v where "NewFromCString ds = Some v" "bigint_inv v" "bval v = int (dval (chunks b))"
    using FromDecimalCString_correct [OF ds(3)] NewFromCString_decimal [OF ds(3,2)] ds(4) by auto
  then show ?thesis using signed_parse [OF assms(1)] ds(1) by simp
qed

subsection \<open>The size of the decimal buffer\<close>

text \<open>The code overestimates the number of decimal digits with \<open>log10 2 < 30103 / 100000\<close>.
  The rational number 4004/13301 lies between the two.\<close>

lemma pow2_196: "(2::nat) ^ 196 * 10 ^ 9 \<le> 10 ^ 59 * 1004336278"
  by simp

lemma pow2_485: "(2::nat) ^ 485 * 10 ^ 9 \<le> 10 ^ 146 * 998959537"
  by simp

lemma slack: "(1004336278::nat) ^ 6 * 998959537 ^ 25 \<le> 10 ^ (9 * 31)"
  by simp

lemma pow2_pow10: "(2::nat) ^ 13301 \<le> 10 ^ 4004"
proof -
  let ?a = "(2::nat) ^ 196 * 10 ^ 9" and ?b = "(2::nat) ^ 485 * 10 ^ 9"
  have "?a ^ 6 * ?b ^ 25 \<le> (10 ^ 59 * 1004336278) ^ 6 * (10 ^ 146 * 998959537) ^ 25"
    by (intro mult_le_mono power_mono pow2_196 pow2_485) simp_all
  also have "\<dots> = 10 ^ (59 * 6 + 146 * 25) * (1004336278 ^ 6 * 998959537 ^ 25)"
    by (simp only: power_mult_distrib power_mult [symmetric] power_add mult_ac)
  also have "\<dots> \<le> 10 ^ (59 * 6 + 146 * 25) * 10 ^ (9 * 31)" by (rule mult_le_mono2) (rule slack)
  finally have "?a ^ 6 * ?b ^ 25 \<le> 10 ^ (59 * 6 + 146 * 25) * 10 ^ (9 * 31)" .
  moreover have "?a ^ 6 * ?b ^ 25 = 2 ^ (196 * 6 + 485 * 25) * 10 ^ (9 * 6 + 9 * 25)"
    by (simp only: power_mult_distrib power_mult [symmetric] power_add mult_ac)
  moreover have "196 * 6 + 485 * 25 = (13301::nat)" "9 * 6 + 9 * 25 = 9 * (31::nat)" "59 * 6 + 146 * 25 = (4004::nat)"
    by simp_all
  ultimately have "(2::nat) ^ 13301 * 10 ^ (9 * 31) \<le> 10 ^ 4004 * 10 ^ (9 * 31)" by (simp only:)
  then show ?thesis by (rule mult_right_le_imp_le) (rule zero_less_power, simp)
qed

lemma decimal_length_bound:
  assumes "(10::nat) ^ m \<le> 2 ^ k"
  shows "m \<le> k * kLog2Dividend div kLog2Divisor"
proof -
  have "(10::nat) ^ (m * 13301) = (10 ^ m) ^ 13301" by (rule power_mult)
  also have "\<dots> \<le> (2 ^ k) ^ 13301" using assms by (rule power_mono) simp
  also have "\<dots> = (2 ^ 13301) ^ k" by (simp only: power_mult [symmetric] mult.commute)
  also have "\<dots> \<le> (10 ^ 4004) ^ k" using pow2_pow10 by (rule power_mono) simp
  also have "\<dots> = 10 ^ (4004 * k)" by (rule power_mult [symmetric])
  finally have "m * 13301 \<le> 4004 * k" by (rule power_le_imp_le_exp [rotated]) simp
  then have "m * 100000 \<le> k * 30103" by linarith
  then show ?thesis by (simp add: kLog2Dividend_def kLog2Divisor_def less_eq_div_iff_mult_less_eq)
qed

lemma decimal_buffer:
  assumes "bigint_inv b" "to_decimal_loop (NewFromInt64 kChunkDivisor) b [] = Some cs" "\<not> IsZero b"
  shows "length cs \<le> decimal_required_size b + 6" and "8 dvd length cs"
proof -
  have N: "dval (chunks b) \<noteq> 0" using IsZero_iff [OF assms(1)] assms(3) bval_abs [of b] by auto
  obtain n where n: "length cs = 8 * n" "0 < n" "10 ^ (8 * (n - 1)) \<le> dval (chunks b)"
    using to_decimal_loop_correct [OF assms(1), of "[]"] assms(2) N by auto
  have "dval (chunks b) < beta ^ Length b" using Length_small [OF assms(1)] by simp
  also have "\<dots> = 2 ^ (Length b * kDigitBitSize)" by (simp add: beta_def power_mult [symmetric] mult.commute)
  finally have "(10::nat) ^ (8 * (n - 1)) \<le> 2 ^ (Length b * kDigitBitSize)" using n(3) by linarith
  then have "8 * (n - 1) \<le> Length b * kDigitBitSize * kLog2Dividend div kLog2Divisor"
    by (rule decimal_length_bound)
  then show "length cs \<le> decimal_required_size b + 6" "8 dvd length cs"
    using n by (simp_all add: decimal_required_size_def Let_def)
qed

subsection \<open>Properties\<close>

text \<open>C18: Printing a well-formed bigint in hexadecimal and parsing the text returns the
  identical object, and the printer writes exactly the number of characters it has
  requested (its final \<open>ASSERT\<close> holds).\<close>

theorem hex_text_round_trip:
  assumes "bigint_inv b"
  shows "NewFromCString (ToHexCString b) = Some b \<and>
    (Length b \<noteq> 0 \<longrightarrow> length (ToHexCString b) + 1 = hex_required_size b)"
  using hex_round_trip [OF assms] ToHexCString_eq [of b] hex_digits_of_correct(3) [OF assms]
  by (simp add: hex_required_size_def)

theorem hex_text_round_trip_witness:
  "NewFromCString (ToHexCString (ToggleSign (new_bigint [10, 15]))) = Some (ToggleSign (new_bigint [10, 15]))"
  using hex_text_round_trip [of "ToggleSign (new_bigint [10, 15])"] by (simp add: beta_eq)

text \<open>C17: Printing a non-zero bigint in decimal always returns, with an optional minus sign
  followed by the decimal digits of the magnitude without leading zeroes.\<close>

theorem decimal_text_canonical:
  assumes "bigint_inv b" and "Length b < kMaxAllowedDigitLength" and "\<not> IsZero b"
  shows "\<exists>ds. ToDecimalCString b = Some ((if IsNegative b then ''-'' else []) @ ds) \<and> ds \<noteq> [] \<and>
    hd ds \<noteq> CHR ''0'' \<and> (\<forall>c \<in> set ds. IsDecimalDigit c) \<and> int (decval (rev ds)) = \<bar>bval b\<bar>"
  using ToDecimalCString_correct [OF assms] unfolding dec_text_def bval_abs by auto

theorem decimal_text_canonical_witness:
  "\<exists>ds. ToDecimalCString (new_bigint [0, 1]) = Some ds \<and> decval (rev ds) = 268435456"
  using decimal_text_canonical [of "new_bigint [0, 1]"]
  by (force simp: beta_eq kMaxAllowedDigitLength_def kIntptrMax_def kLog2Dividend_def kLog2Divisor_def kDigitBitSize_def)

text \<open>C16: Parsing the decimal text of a well-formed bigint returns the identical object, and
  parsing any text of decimal digits yields its value.\<close>

theorem decimal_text_round_trip:
  assumes "bigint_inv b" and "Length b < kMaxAllowedDigitLength" and "ds \<noteq> []" and "\<forall>c \<in> set ds. IsDecimalDigit c"
  shows "Option.bind (ToDecimalCString b) NewFromCString = Some b \<and>
    (\<exists>r. NewFromCString ds = Some r \<and> bigint_inv r \<and> bval r = int (decval (rev ds)))"
  using decimal_round_trip [OF assms(1,2)] FromDecimalCString_correct [of ds] NewFromCString_decimal [of ds] assms(3,4)
  by (simp add: dec_text_def)

theorem decimal_text_round_trip_witness:
  "Option.bind (ToDecimalCString MinusOne) NewFromCString = Some MinusOne \<and>
   (\<exists>r. NewFromCString ''300000000'' = Some r \<and> bval r = 300000000)"
  using decimal_text_round_trip [of MinusOne "''300000000''"]
  by (force simp: MinusOne_def One_def kMaxAllowedDigitLength_def kIntptrMax_def kLog2Dividend_def kLog2Divisor_def
      kDigitBitSize_def IsDecimalDigit_def beta_eq)

text \<open>While it collects the digits, \<open>ToDecimalCString\<close> writes at most as many characters as
  the requested size rounded up to a multiple of eight, which is what the zone allocator of
  the 64-bit build hands out.\<close>

lemma decimal_buffer_aligned:
  assumes "bigint_inv b" and "\<not> IsZero b" and "decimal_required_size b + 8 \<le> 2 ^ 64"
    and "to_decimal_loop (NewFromInt64 kChunkDivisor) b [] = Some cs"
  shows "length cs \<le> unat (RoundUp (of_nat (decimal_required_size b)) 8)"
proof -
  let ?r = "decimal_required_size b"
  have r: "unat (of_nat ?r :: uword) = ?r" using assms(3) by (simp add: unat_of_nat)
  have "2 ^ 3 dvd unat (RoundUp (of_nat ?r) (2 ^ 3)) \<and> ?r \<le> unat (RoundUp (of_nat ?r) (2 ^ 3))"
    using RoundUp_correct [of 3 "of_nat ?r"] assms(3) r by simp
  then obtain k where "unat (RoundUp (of_nat ?r) 8) = 8 * k" "?r \<le> 8 * k" by (auto simp: dvd_def)
  moreover obtain m where "length cs = 8 * m" using decimal_buffer(2) [OF assms(1,4,2)] by (auto simp: dvd_def)
  moreover have "length cs \<le> ?r + 6" by (rule decimal_buffer(1) [OF assms(1,4,2)])
  ultimately have "8 * m \<le> 8 * k + 6" by linarith
  then have "m \<le> k" by presburger
  then show ?thesis using \<open>length cs = 8 * m\<close> \<open>unat (RoundUp (of_nat ?r) 8) = 8 * k\<close> by linarith
qed

text \<open>C19: The size that \<open>ToDecimalCString\<close> requests does not bound what it writes while it
  collects the digits: for the single digit \<open>2 ^ 28 - 1\<close> it requests 10 bytes and writes 16
  characters. No well-formed bigint other than zero gets more than these 6 characters past
  the request, and the multiple of eight bytes that the zone allocator of the 64-bit build
  hands out holds them.\<close>

theorem decimal_buffer_overrun:
  assumes "bigint_inv b" and "\<not> IsZero b" and "decimal_required_size b + 8 \<le> 2 ^ 64"
  shows "decimal_required_size (new_bigint [2 ^ 28 - 1]) = 10 \<and>
    (\<exists>cs. to_decimal_loop (NewFromInt64 kChunkDivisor) (new_bigint [2 ^ 28 - 1]) [] = Some cs \<and> length cs = 16) \<and>
    (\<exists>cs. to_decimal_loop (NewFromInt64 kChunkDivisor) b [] = Some cs \<and> length cs \<le> decimal_required_size b + 6 \<and>
       length cs \<le> unat (RoundUp (of_nat (decimal_required_size b)) 8))"
proof -
  let ?b = "new_bigint [2 ^ 28 - 1]"
  have inv: "bigint_inv ?b" by (simp add: beta_eq)
  have nz: "\<not> IsZero ?b" by (simp add: IsZero_def new_bigint_def)
  have size: "decimal_required_size ?b = 10"
    by (simp add: decimal_required_size_def kLog2Dividend_def kLog2Divisor_def kDigitBitSize_def)
  obtain n cs where cs: "to_decimal_loop (NewFromInt64 kChunkDivisor) ?b [] = Some cs" "dec_text cs"
      "decval cs = 268435455" "length cs = 8 * n"
    using to_decimal_loop_correct [OF inv, of "[]"] by auto
  have "268435455 < (10::nat) ^ (8 * n)" using decval_bound [OF cs(2)] cs(3,4) by simp
  then have "n \<noteq> 0 \<and> n \<noteq> 1" by (intro conjI notI) simp_all
  moreover have "length cs \<le> 16" using decimal_buffer(1) [OF inv cs(1) nz] size by simp
  ultimately have "length cs = 16" using cs(4) by linarith
  moreover obtain ds where ds: "to_decimal_loop (NewFromInt64 kChunkDivisor) b [] = Some ds"
    using to_decimal_loop_correct [OF assms(1), of "[]"] by auto
  ultimately show ?thesis
    using size cs(1) decimal_buffer(1) [OF assms(1) ds assms(2)] decimal_buffer_aligned [OF assms ds] by blast
qed

theorem decimal_buffer_overrun_witness:
  "decimal_required_size (new_bigint [2 ^ 28 - 1]) = 10 \<and>
   (\<exists>cs. to_decimal_loop (NewFromInt64 kChunkDivisor) (new_bigint [2 ^ 28 - 1]) [] = Some cs \<and> length cs = 16) \<and>
   (\<exists>cs. to_decimal_loop (NewFromInt64 kChunkDivisor) (new_bigint [7]) [] = Some cs \<and> length cs \<le> 16)"
proof -
  have "bigint_inv (new_bigint [7])" "decimal_required_size (new_bigint [7]) = 10"
    by (simp_all add: beta_eq decimal_required_size_def kLog2Dividend_def kLog2Divisor_def kDigitBitSize_def)
  moreover have "\<not> IsZero (new_bigint [7])" by (simp add: IsZero_def new_bigint_def)
  ultimately show ?thesis using decimal_buffer_overrun [of "new_bigint [7]"] by auto
qed

end
