(* ===== verification/Bigint_Bits.thy ===== *)
theory Bigint_Bits
  imports Bigint_Base
begin

text \<open>
  The bit operations of \<open>runtime/vm/bigint_operations.cc\<close>: \<open>BitAnd\<close>, \<open>BitOr\<close>, \<open>BitXor\<close>
  and \<open>BitNot\<close>. A bigint stores sign and magnitude; the operations simulate the
  infinite two's complement representation, in which \<open>- x\<close> is \<open>NOT (x - 1)\<close>, digit by
  digit with a borrow for each negative operand and a carry for a negative result.
\<close>

subsection \<open>The code\<close>

text \<open>The loops of \<open>BitAnd\<close>: a non-negative and a negative operand, then two negative operands.\<close>

fun and_pos_neg_loop :: "chunk list \<Rightarrow> chunk list \<Rightarrow> chunk \<Rightarrow> chunk list" where
  "and_pos_neg_loop (x # xs) (y # ys) borrow =
     (let b_digit = y - borrow
      in (x AND (NOT b_digit) AND kDigitMask)
         # and_pos_neg_loop xs ys (drop_bit (kChunkBitSize - 1) b_digit))"
| "and_pos_neg_loop (x # xs) [] borrow =
     (x AND (kDigitMaxValue - borrow)) # and_pos_neg_loop xs [] 0"
| "and_pos_neg_loop [] ys borrow = []"

fun and_neg_neg_loop :: "chunk list \<Rightarrow> chunk list \<Rightarrow> chunk \<Rightarrow> chunk \<Rightarrow> chunk \<Rightarrow> chunk list" where
  "and_neg_neg_loop (x # xs) (y # ys) a_borrow b_borrow result_carry =
     (let a_digit = x - a_borrow;
          b_digit = y - b_borrow;
          result_chunk = ((a_digit OR b_digit) AND kDigitMask) + result_carry
      in (result_chunk AND kDigitMask)
         # and_neg_neg_loop xs ys (drop_bit (kChunkBitSize - 1) a_digit)
             (drop_bit (kChunkBitSize - 1) b_digit) (drop_bit kDigitBitSize result_chunk))"
| "and_neg_neg_loop (x # xs) [] a_borrow b_borrow result_carry =
     (let a_digit = x - a_borrow;
          b_digit = - b_borrow;
          result_chunk = ((a_digit OR b_digit) AND kDigitMask) + result_carry
      in (result_chunk AND kDigitMask)
         # and_neg_neg_loop xs [] (drop_bit (kChunkBitSize - 1) a_digit) 0
             (drop_bit kDigitBitSize result_chunk))"
| "and_neg_neg_loop [] ys a_borrow b_borrow result_carry =
     (let a_digit = - a_borrow;
          b_digit = - b_borrow;
          result_chunk = ((a_digit OR b_digit) AND kDigitMask) + result_carry
      in [result_chunk AND kDigitMask])"

function BitAnd :: "bigint \<Rightarrow> bigint \<Rightarrow> bigint" where
  "BitAnd a b =
     (if IsZero a \<or> IsZero b then Zero
      else if IsNegative a \<and> \<not> IsNegative b then BitAnd b a
      else if IsNegative a = IsNegative b \<and> Length a < Length b then BitAnd b a
      else if \<not> IsNegative b
      then Clamp (new_bigint (map2 (AND) (chunks a) (chunks b)))
      else if \<not> IsNegative a
      then Clamp (new_bigint (and_pos_neg_loop (chunks a) (chunks b) 1))
      else Clamp (ToggleSign (new_bigint (and_neg_neg_loop (chunks a) (chunks b) 1 1 1))))"
  by pat_completeness auto
termination
  by (relation "measure (\<lambda>(a, b). (if IsNegative a \<and> \<not> IsNegative b then 1 else 0) +
      (if Length a < Length b then 1 else (0::nat)) * (if IsNegative a = IsNegative b then 1 else 0))") auto

text \<open>The loops of \<open>BitOr\<close>.\<close>

fun or_pos_neg_loop :: "chunk list \<Rightarrow> chunk list \<Rightarrow> chunk \<Rightarrow> chunk \<Rightarrow> chunk list" where
  "or_pos_neg_loop (x # xs) (y # ys) borrow result_carry =
     (let b_digit = y - borrow;
          result_digit = ((NOT x) AND b_digit AND kDigitMask) + result_carry
      in (result_digit AND kDigitMask)
         # or_pos_neg_loop xs ys (drop_bit (kChunkBitSize - 1) b_digit)
             (drop_bit kDigitBitSize result_digit))"
| "or_pos_neg_loop [] (y # ys) borrow result_carry =
     (let b_digit = y - borrow;
          result_digit = (b_digit AND kDigitMask) + result_carry
      in (result_digit AND kDigitMask)
         # or_pos_neg_loop [] ys (drop_bit (kChunkBitSize - 1) b_digit)
             (drop_bit kDigitBitSize result_digit))"
| "or_pos_neg_loop xs [] borrow result_carry = []"

fun or_neg_neg_loop :: "chunk list \<Rightarrow> chunk list \<Rightarrow> chunk \<Rightarrow> chunk \<Rightarrow> chunk \<Rightarrow> chunk list" where
  "or_neg_neg_loop (x # xs) (y # ys) a_borrow b_borrow result_carry =
     (let a_digit = x - a_borrow;
          b_digit = y - b_borrow;
          result_chunk = ((a_digit AND b_digit) AND kDigitMask) + result_carry
      in (result_chunk AND kDigitMask)
         # or_neg_neg_loop xs ys (drop_bit (kChunkBitSize - 1) a_digit)
             (drop_bit (kChunkBitSize - 1) b_digit) (drop_bit kDigitBitSize result_chunk))"
| "or_neg_neg_loop (x # xs) [] a_borrow b_borrow result_carry = [result_carry]"
| "or_neg_neg_loop [] ys a_borrow b_borrow result_carry = [result_carry]"

function BitOr :: "bigint \<Rightarrow> bigint \<Rightarrow> bigint" where
  "BitOr a b =
     (if IsNegative a \<and> \<not> IsNegative b then BitOr b a
      else if IsNegative a = IsNegative b \<and> Length a < Length b then BitOr b a
      else if \<not> IsNegative b
      then new_bigint (map2 (OR) (chunks a) (chunks b) @ drop (Length b) (chunks a))
      else if \<not> IsNegative a
      then (if IsZero a then Copy b
            else Clamp (ToggleSign (new_bigint (or_pos_neg_loop (chunks a) (chunks b) 1 1))))
      else Clamp (ToggleSign (new_bigint (or_neg_neg_loop (chunks a) (chunks b) 1 1 1))))"
  by pat_completeness auto
termination
  by (relation "measure (\<lambda>(a, b). (if IsNegative a \<and> \<not> IsNegative b then 1 else 0) +
      (if Length a < Length b then 1 else (0::nat)) * (if IsNegative a = IsNegative b then 1 else 0))") auto

text \<open>The loops of \<open>BitXor\<close>. In the second equation the borrow of the exhausted operand is
  kept, in the third one the first operand is exhausted.\<close>

fun xor_pos_neg_loop :: "chunk list \<Rightarrow> chunk list \<Rightarrow> chunk \<Rightarrow> chunk \<Rightarrow> chunk list" where
  "xor_pos_neg_loop (x # xs) (y # ys) borrow result_carry =
     (let b_digit = y - borrow;
          result_digit = ((NOT (x XOR NOT b_digit)) AND kDigitMask) + result_carry
      in (result_digit AND kDigitMask)
         # xor_pos_neg_loop xs ys (drop_bit (kChunkBitSize - 1) b_digit)
             (drop_bit kDigitBitSize result_digit))"
| "xor_pos_neg_loop (x # xs) [] borrow result_carry =
     (let b_digit = - borrow;
          result_digit = ((NOT (x XOR NOT b_digit)) AND kDigitMask) + result_carry
      in (result_digit AND kDigitMask)
         # xor_pos_neg_loop xs [] (drop_bit (kChunkBitSize - 1) b_digit)
             (drop_bit kDigitBitSize result_digit))"
| "xor_pos_neg_loop [] (y # ys) borrow result_carry =
     (let b_digit = y - borrow;
          result_digit = (b_digit AND kDigitMask) + result_carry
      in (result_digit AND kDigitMask)
         # xor_pos_neg_loop [] ys (drop_bit (kChunkBitSize - 1) b_digit)
             (drop_bit kDigitBitSize result_digit))"
| "xor_pos_neg_loop [] [] borrow result_carry = [result_carry]"

fun xor_neg_neg_loop :: "chunk list \<Rightarrow> chunk list \<Rightarrow> chunk \<Rightarrow> chunk \<Rightarrow> chunk list" where
  "xor_neg_neg_loop (x # xs) (y # ys) a_borrow b_borrow =
     (let a_digit = x - a_borrow;
          b_digit = y - b_borrow;
          result_chunk = (NOT a_digit) XOR (NOT b_digit)
      in (result_chunk AND kDigitMask)
         # xor_neg_neg_loop xs ys (drop_bit (kChunkBitSize - 1) a_digit)
             (drop_bit (kChunkBitSize - 1) b_digit))"
| "xor_neg_neg_loop (x # xs) [] a_borrow b_borrow =
     (let a_digit = x - a_borrow
      in (a_digit AND kDigitMask)
         # xor_neg_neg_loop xs [] (drop_bit (kChunkBitSize - 1) a_digit) b_borrow)"
| "xor_neg_neg_loop [] ys a_borrow b_borrow = []"

function BitXor :: "bigint \<Rightarrow> bigint \<Rightarrow> bigint" where
  "BitXor a b =
     (if IsZero a then Copy b
      else if IsZero b then Copy a
      else if IsNegative a \<and> \<not> IsNegative b then BitXor b a
      else if IsNegative a = IsNegative b \<and> Length a < Length b then BitXor b a
      else if \<not> IsNegative b
      then Clamp (new_bigint (map2 (XOR) (chunks a) (chunks b) @ drop (Length b) (chunks a)))
      else if \<not> IsNegative a
      then Clamp (ToggleSign (new_bigint (xor_pos_neg_loop (chunks a) (chunks b) 1 1)))
      else Clamp (new_bigint (xor_neg_neg_loop (chunks a) (chunks b) 1 1)))"
  by pat_completeness auto
termination
  by (relation "measure (\<lambda>(a, b). (if IsNegative a \<and> \<not> IsNegative b then 1 else 0) +
      (if Length a < Length b then 1 else (0::nat)) * (if IsNegative a = IsNegative b then 1 else 0))") auto

declare BitAnd.simps [simp del] BitOr.simps [simp del] BitXor.simps [simp del]

definition BitNot :: "bigint \<Rightarrow> bigint" where
  "BitNot b =
     (if IsZero b then MinusOne
      else if IsNegative b then UnsignedSubtract b One
      else ToggleSign (UnsignedAdd b One))"

subsection \<open>Digits and bits\<close>

abbreviation ibeta :: int where
  "ibeta \<equiv> int beta"

definition digit_cat :: "int \<Rightarrow> int \<Rightarrow> int" where
  "digit_cat d k = d + ibeta * k"

lemma bit_digit_cat:
  assumes "0 \<le> d" "d < ibeta"
  shows "bit (digit_cat d k) n \<longleftrightarrow> (if n < 28 then bit d n else bit k (n - 28))"
proof -
  have "take_bit 28 d = d" using assms by (simp add: take_bit_int_eq_self beta_eq)
  then have "digit_cat d k = concat_bit 28 d k"
    by (simp add: digit_cat_def concat_bit_eq beta_eq push_bit_eq_mult)
  then show ?thesis by (auto simp: bit_concat_bit_iff)
qed

lemma bit_digit_high: "0 \<le> d \<Longrightarrow> d < ibeta \<Longrightarrow> 28 \<le> n \<Longrightarrow> \<not> bit d n"
  using bit_digit_cat [of d 0 n] by (simp add: digit_cat_def)

lemma and_digit_range: "0 \<le> a \<Longrightarrow> a < ibeta \<Longrightarrow> 0 \<le> a AND b \<and> a AND b < ibeta" for a b :: int
  by (simp add: AND_upper1' order.strict_trans1 [OF AND_upper1])

lemma or_digit_range:
  "0 \<le> a \<Longrightarrow> a < ibeta \<Longrightarrow> 0 \<le> b \<Longrightarrow> b < ibeta \<Longrightarrow> 0 \<le> a OR b \<and> a OR b < ibeta" for a b :: int
  using OR_upper [of a 28 b] by (simp add: beta_eq)

lemma xor_digit_range:
  "0 \<le> a \<Longrightarrow> a < ibeta \<Longrightarrow> 0 \<le> b \<Longrightarrow> b < ibeta \<Longrightarrow> 0 \<le> a XOR b \<and> a XOR b < ibeta" for a b :: int
  using XOR_upper [of a 28 b] by (simp add: beta_eq)

lemma digit_cat_ops:
  assumes "0 \<le> a" "a < ibeta" "0 \<le> b" "b < ibeta"
  shows "digit_cat a j AND digit_cat b k = digit_cat (a AND b) (j AND k)"
    and "digit_cat a j OR digit_cat b k = digit_cat (a OR b) (j OR k)"
    and "digit_cat a j XOR digit_cat b k = digit_cat (a XOR b) (j XOR k)"
    and "digit_cat a j AND NOT (digit_cat b k) = digit_cat (a AND NOT b) (j AND NOT k)"
  using assms and_digit_range [of a b] or_digit_range [of a b] xor_digit_range [of a b]
    and_digit_range [of a "NOT b"]
  by (auto intro!: bit_eqI simp: bit_digit_cat bit_simps)

subsection \<open>One step of the loops\<close>

definition digit_ok :: "chunk \<Rightarrow> bool" where
  "digit_ok d \<longleftrightarrow> unat d < beta"

abbreviation ival :: "chunk list \<Rightarrow> int" where
  "ival ds \<equiv> int (dval ds)"

lemma digit_range: "digit_ok d \<Longrightarrow> 0 \<le> uint d \<and> uint d < ibeta"
  by (metis digit_ok_def of_nat_less_iff uint_nat uint_ge_0)

lemma ival_Cons: "ival (d # ds) = digit_cat (uint d) (ival ds)"
  by (simp add: digit_cat_def)

lemma digit_ok_mask [simp]: "digit_ok (w AND kDigitMask)"
  by (simp add: digit_ok_def word_nat)

lemma digit_ok_mask_id: "digit_ok x \<Longrightarrow> x AND kDigitMask = x"
  by (simp add: word_unat_eq_iff word_nat digit_ok_def)

lemma digit_ok_carry: "unat c \<le> 1 \<Longrightarrow> digit_ok c"
  by (simp add: digit_ok_def beta_eq)

lemma digits_ok_Cons: "digits_ok (d # ds) \<longleftrightarrow> digit_ok d \<and> digits_ok ds"
  by (simp add: digit_ok_def)

lemma borrow_step:
  assumes "digit_ok x" "unat c \<le> 1"
  shows "ival (x # xs) - uint c =
      digit_cat (uint ((x - c) AND kDigitMask)) (ival xs - uint (drop_bit (kChunkBitSize - 1) (x - c)))"
    and "unat (drop_bit (kChunkBitSize - 1) (x - c)) \<le> 1"
proof -
  have pos: "kSignBitPos = kChunkBitSize - 1" by (simp add: kSignBitPos_def kChunkBitSize_def)
  let ?d = "(x - c) AND kDigitMask" and ?b = "drop_bit (kChunkBitSize - 1) (x - c)"
  have "unat ?d + unat c = unat x + beta * unat ?b" and le: "unat ?b \<le> 1"
    using sub_digit [of x 0 c] assms by (simp_all add: digit_ok_def pos)
  then have "int (unat ?d) + int (unat c) = int (unat x) + ibeta * int (unat ?b)"
    by (metis of_nat_add of_nat_mult)
  then have eq: "uint ?d + uint c = uint x + ibeta * uint ?b" unfolding uint_nat .
  then show "ival (x # xs) - uint c = digit_cat (uint ?d) (ival xs - uint ?b)"
    unfolding ival_Cons digit_cat_def by (simp only: right_diff_distrib)
  show "unat ?b \<le> 1" by (fact le)
qed

lemma carry_step:
  assumes "digit_ok r" "unat c \<le> 1"
  shows "digit_cat (uint r) k + uint c =
      digit_cat (uint ((r + c) AND kDigitMask)) (k + uint (drop_bit kDigitBitSize (r + c)))"
    and "unat (drop_bit kDigitBitSize (r + c)) \<le> 1"
proof -
  let ?d = "(r + c) AND kDigitMask" and ?b = "drop_bit kDigitBitSize (r + c)"
  have "unat ?d + beta * unat ?b = unat r + unat c" and le: "unat ?b \<le> 1"
    using add_digit [of r 0 c] assms by (simp_all add: digit_ok_def)
  then have "int (unat ?d) + ibeta * int (unat ?b) = int (unat r) + int (unat c)"
    by (metis of_nat_add of_nat_mult)
  then have eq: "uint ?d + ibeta * uint ?b = uint r + uint c" unfolding uint_nat .
  then show "digit_cat (uint r) k + uint c = digit_cat (uint ?d) (k + uint ?b)"
    unfolding digit_cat_def by (simp only: distrib_left)
  show "unat ?b \<le> 1" by (fact le)
qed

lemma digit_bit_high: "digit_ok x \<Longrightarrow> 28 \<le> n \<Longrightarrow> \<not> bit x n"
  using bit_digit_high [of "uint x" n] digit_range [of x] bit_imp_le_length [of x n]
  by (auto simp: bit_simps)

lemma bit_uint_chunk: "bit (uint w) n \<longleftrightarrow> bit w n" for w :: chunk
  using bit_imp_le_length [of w n] by (auto simp: bit_simps)

lemma bit_kDigitMask: "bit kDigitMask n \<longleftrightarrow> n < 28"
  by (auto simp: kDigitMask_mask bit_simps)

lemma uint_digit_ops:
  assumes "digit_ok x"
  shows "uint (x AND NOT e AND kDigitMask) = uint x AND NOT (uint (e AND kDigitMask))"
    and "uint (NOT x AND e AND kDigitMask) = uint (e AND kDigitMask) AND NOT (uint x)"
    and "uint (NOT (x XOR NOT e) AND kDigitMask) = uint x XOR uint (e AND kDigitMask)"
proof -
  have high: "bit x n \<Longrightarrow> n < 28" for n using digit_bit_high [OF assms, of n] by linarith
  note bits = bit_uint_chunk bit_kDigitMask bit_and_iff bit_or_iff bit_xor_iff bit_not_iff
  show "uint (x AND NOT e AND kDigitMask) = uint x AND NOT (uint (e AND kDigitMask))"
    by (rule bit_eqI) (use high in \<open>fastforce simp: bits\<close>)
  show "uint (NOT x AND e AND kDigitMask) = uint (e AND kDigitMask) AND NOT (uint x)"
    by (rule bit_eqI) (use high in \<open>fastforce simp: bits\<close>)
  show "uint (NOT (x XOR NOT e) AND kDigitMask) = uint x XOR uint (e AND kDigitMask)"
    by (rule bit_eqI) (use high in \<open>fastforce simp: bits\<close>)
qed

lemma uint_mask_ops:
  "uint ((a OR b) AND kDigitMask) = uint (a AND kDigitMask) OR uint (b AND kDigitMask)"
  "uint ((a AND b) AND kDigitMask) = uint (a AND kDigitMask) AND uint (b AND kDigitMask)"
  "uint ((NOT a XOR NOT b) AND kDigitMask) = uint (a AND kDigitMask) XOR uint (b AND kDigitMask)"
  by (auto intro!: bit_eqI simp: bit_uint_chunk bit_kDigitMask bit_and_iff bit_or_iff bit_xor_iff
      bit_not_iff)

subsection \<open>The loops compute two's complement operations\<close>

lemma digit_cat_nonneg: "0 \<le> d \<Longrightarrow> d < ibeta \<Longrightarrow> 0 \<le> digit_cat d k \<longleftrightarrow> 0 \<le> k"
proof -
  assume d: "0 \<le> d" "d < ibeta"
  have "k = digit_cat d k div ibeta" using d by (simp add: digit_cat_def)
  then show ?thesis by (metis pos_imp_zdiv_nonneg_iff of_nat_0_less_iff beta_pos(1))
qed

lemma digit_cat_mod:
  assumes "0 \<le> d" "d < ibeta"
  shows "digit_cat d k mod ibeta ^ Suc n = digit_cat d (k mod ibeta ^ n)"
proof -
  have "digit_cat d k mod (ibeta * ibeta ^ n) = ibeta * (digit_cat d k div ibeta mod ibeta ^ n) + digit_cat d k mod ibeta"
    by (rule zmod_zmult2_eq) simp
  then show ?thesis using assms by (simp add: digit_cat_def)
qed

lemma borrow_nonneg:
  assumes "digit_ok x" "unat c \<le> 1" "0 \<le> ival (x # xs) - uint c"
  shows "0 \<le> ival xs - uint (drop_bit (kChunkBitSize - 1) (x - c))"
  using assms(3) digit_range [OF digit_ok_mask] unfolding borrow_step(1) [OF assms(1,2)]
  by (simp only: digit_cat_nonneg)

lemma borrow_done: "0 \<le> ival [] - uint c \<Longrightarrow> c = 0"
  using uint_ge_0 [of c] by (simp add: uint_0_iff)

lemma and_pos_neg_loop_correct:
  assumes "digits_ok xs" "digits_ok ys" "unat c \<le> 1" "0 \<le> ival ys - uint c"
  shows "digits_ok (and_pos_neg_loop xs ys c) \<and>
    ival (and_pos_neg_loop xs ys c) = ival xs AND NOT (ival ys - uint c)"
  using assms
proof (induction xs ys c rule: and_pos_neg_loop.induct)
  case (1 x xs y ys c)
  then have x: "digit_ok x" and y: "digit_ok y" by (simp_all only: digits_ok_Cons)
  let ?r = "x AND NOT (y - c) AND kDigitMask"
  let ?b = "drop_bit (kChunkBitSize - 1) (y - c)"
  have IH: "digits_ok (and_pos_neg_loop xs ys ?b) \<and>
      ival (and_pos_neg_loop xs ys ?b) = ival xs AND NOT (ival ys - uint ?b)"
    using "1.prems" borrow_step(2) [OF y] borrow_nonneg [OF y "1.prems"(3,4)]
    by (intro "1.IH" [OF refl]) simp_all
  have "digit_ok ?r" by (metis and.assoc digit_ok_mask)
  moreover have "ival (x # xs) AND NOT (ival (y # ys) - uint c) =
      digit_cat (uint ?r) (ival xs AND NOT (ival ys - uint ?b))"
    unfolding borrow_step(1) [OF y "1.prems"(3)] uint_digit_ops [OF x] ival_Cons [of x]
    using digit_range [OF x] digit_range [OF digit_ok_mask] by (simp only: digit_cat_ops)
  ultimately show ?case using IH
    by (simp only: and_pos_neg_loop.simps Let_def ival_Cons digits_ok_Cons simp_thms)
next
  case (2 x xs c)
  then have x: "digit_ok x" and c: "c = 0"
    using borrow_done by (simp_all only: digits_ok_Cons)
  then show ?case using "2.IH" "2.prems" digit_ok_mask_id [OF x] by (simp add: digits_ok_Cons)
qed simp

lemma and_neg_neg_loop_correct:
  assumes "digits_ok xs" "digits_ok ys" "unat p \<le> 1" "unat q \<le> 1" "unat c \<le> 1"
    "0 \<le> ival xs - uint p" "0 \<le> ival ys - uint q" "length ys \<le> length xs"
  shows "digits_ok (and_neg_neg_loop xs ys p q c) \<and>
    ival (and_neg_neg_loop xs ys p q c) = ((ival xs - uint p) OR (ival ys - uint q)) + uint c"
  using assms
proof (induction xs ys p q c rule: and_neg_neg_loop.induct)
  case (1 x xs y ys p q c)
  then have x: "digit_ok x" and y: "digit_ok y" by (simp_all only: digits_ok_Cons)
  let ?p = "drop_bit (kChunkBitSize - 1) (x - p)" and ?q = "drop_bit (kChunkBitSize - 1) (y - q)"
  let ?d = "((x - p) OR (y - q)) AND kDigitMask"
  let ?c = "drop_bit kDigitBitSize (?d + c)"
  have IH: "digits_ok (and_neg_neg_loop xs ys ?p ?q ?c) \<and>
      ival (and_neg_neg_loop xs ys ?p ?q ?c) = ((ival xs - uint ?p) OR (ival ys - uint ?q)) + uint ?c"
    using "1.prems" borrow_step(2) [OF x] borrow_step(2) [OF y] borrow_nonneg [OF x "1.prems"(3,6)]
      borrow_nonneg [OF y "1.prems"(4,7)] carry_step(2) [OF digit_ok_mask "1.prems"(5)]
    by (intro "1.IH" [OF refl refl refl]) simp_all
  have "((ival (x # xs) - uint p) OR (ival (y # ys) - uint q)) + uint c =
      digit_cat (uint ?d) ((ival xs - uint ?p) OR (ival ys - uint ?q)) + uint c"
    unfolding borrow_step(1) [OF x "1.prems"(3)] borrow_step(1) [OF y "1.prems"(4)] uint_mask_ops
    using digit_range [OF digit_ok_mask] by (simp only: digit_cat_ops)
  then show ?case using IH unfolding carry_step(1) [OF digit_ok_mask "1.prems"(5)]
    by (simp only: and_neg_neg_loop.simps Let_def ival_Cons digits_ok_Cons digit_ok_mask simp_thms)
next
  case (2 x xs p q c)
  then have x: "digit_ok x" and q: "q = 0" using borrow_done by (simp_all only: digits_ok_Cons)
  let ?p = "drop_bit (kChunkBitSize - 1) (x - p)"
  let ?d = "(x - p) AND kDigitMask"
  let ?c = "drop_bit kDigitBitSize (?d + c)"
  have IH: "digits_ok (and_neg_neg_loop xs [] ?p 0 ?c) \<and>
      ival (and_neg_neg_loop xs [] ?p 0 ?c) = ((ival xs - uint ?p) OR (ival [] - uint 0)) + uint ?c"
    using "2.IH" [OF refl refl refl] "2.prems" borrow_step(2) [OF x, of p]
      borrow_nonneg [OF x "2.prems"(3,6)] carry_step(2) [OF digit_ok_mask "2.prems"(5), of "x - p"]
    by (simp add: q)
  have "ival (x # xs) - uint p + uint c = digit_cat (uint ?d) (ival xs - uint ?p) + uint c"
    unfolding borrow_step(1) [OF x "2.prems"(3)] ..
  then have "ival (x # xs) - uint p + uint c =
      digit_cat (uint ((?d + c) AND kDigitMask)) (ival xs - uint ?p + uint ?c)"
    unfolding carry_step(1) [OF digit_ok_mask "2.prems"(5)] .
  then show ?case using IH q
    by (simp add: digits_ok_Cons ival_Cons Let_def del: dval.simps(2) digits_ok_simps(2))
next
  case (3 ys p q c)
  then have "p = 0" "q = 0" "ys = []" using borrow_done by simp_all
  moreover have "digit_ok c" using digit_ok_carry [OF "3.prems"(5)] .
  ultimately show ?case using digit_ok_mask_id [of c] by (simp add: digit_ok_def)
qed

lemma or_pos_neg_loop_correct:
  assumes "digits_ok xs" "digits_ok ys" "unat q \<le> 1" "unat c \<le> 1"
  shows "digits_ok (or_pos_neg_loop xs ys q c) \<and> length (or_pos_neg_loop xs ys q c) = length ys \<and>
    ival (or_pos_neg_loop xs ys q c) =
      (((ival ys - uint q) AND NOT (ival xs)) + uint c) mod ibeta ^ length ys"
  using assms
proof (induction xs ys q c rule: or_pos_neg_loop.induct)
  case (1 x xs y ys q c)
  then have x: "digit_ok x" and y: "digit_ok y" by (simp_all only: digits_ok_Cons)
  let ?q = "drop_bit (kChunkBitSize - 1) (y - q)"
  let ?d = "NOT x AND (y - q) AND kDigitMask"
  let ?c = "drop_bit kDigitBitSize (?d + c)"
  have d: "digit_ok ?d" by (metis and.assoc digit_ok_mask)
  note IH = "1.IH" [OF refl refl] and cs = carry_step [OF d "1.prems"(4)]
  have "((ival (y # ys) - uint q) AND NOT (ival (x # xs))) + uint c =
      digit_cat (uint ?d) ((ival ys - uint ?q) AND NOT (ival xs)) + uint c"
    unfolding borrow_step(1) [OF y "1.prems"(3)] uint_digit_ops [OF x] ival_Cons [of x]
    using digit_range [OF x] digit_range [OF digit_ok_mask] by (simp only: digit_cat_ops)
  then have "(((ival (y # ys) - uint q) AND NOT (ival (x # xs))) + uint c) mod ibeta ^ Suc (length ys) =
      digit_cat (uint ((?d + c) AND kDigitMask))
        ((((ival ys - uint ?q) AND NOT (ival xs)) + uint ?c) mod ibeta ^ length ys)"
    unfolding cs(1) using digit_range [OF digit_ok_mask] by (simp only: digit_cat_mod)
  then show ?case using IH "1.prems" borrow_step(2) [OF y "1.prems"(3)] cs(2)
    by (simp add: digits_ok_Cons ival_Cons Let_def del: dval.simps(2) digits_ok_simps(2))
next
  case (2 y ys q c)
  then have y: "digit_ok y" by (simp_all only: digits_ok_Cons)
  let ?q = "drop_bit (kChunkBitSize - 1) (y - q)" and ?d = "(y - q) AND kDigitMask"
  let ?c = "drop_bit kDigitBitSize (?d + c)"
  note IH = "2.IH" [OF refl refl] and cs = carry_step [OF digit_ok_mask "2.prems"(4)]
  have "(ival (y # ys) - uint q + uint c) mod ibeta ^ Suc (length ys) =
      digit_cat (uint ((?d + c) AND kDigitMask)) ((ival ys - uint ?q + uint ?c) mod ibeta ^ length ys)"
    unfolding borrow_step(1) [OF y "2.prems"(3)] cs(1)
    using digit_range [OF digit_ok_mask] by (simp only: digit_cat_mod)
  then show ?case using IH "2.prems" borrow_step(2) [OF y "2.prems"(3)] cs(2)
    by (simp add: digits_ok_Cons ival_Cons Let_def del: dval.simps(2) digits_ok_simps(2))
qed simp

lemma or_neg_neg_loop_correct:
  assumes "digits_ok xs" "digits_ok ys" "unat p \<le> 1" "unat q \<le> 1" "unat c \<le> 1"
    "0 \<le> ival xs - uint p" "0 \<le> ival ys - uint q" "length ys \<le> length xs"
  shows "digits_ok (or_neg_neg_loop xs ys p q c) \<and>
    ival (or_neg_neg_loop xs ys p q c) = ((ival xs - uint p) AND (ival ys - uint q)) + uint c"
  using assms
proof (induction xs ys p q c rule: or_neg_neg_loop.induct)
  case (1 x xs y ys p q c)
  then have x: "digit_ok x" and y: "digit_ok y" by (simp_all only: digits_ok_Cons)
  let ?p = "drop_bit (kChunkBitSize - 1) (x - p)" and ?q = "drop_bit (kChunkBitSize - 1) (y - q)"
  let ?d = "((x - p) AND (y - q)) AND kDigitMask"
  have "((ival (x # xs) - uint p) AND (ival (y # ys) - uint q)) + uint c =
      digit_cat (uint ?d) ((ival xs - uint ?p) AND (ival ys - uint ?q)) + uint c"
    unfolding borrow_step(1) [OF x "1.prems"(3)] borrow_step(1) [OF y "1.prems"(4)] uint_mask_ops
    using digit_range [OF digit_ok_mask] by (simp only: digit_cat_ops)
  then show ?case
    using "1.IH" [OF refl refl refl] "1.prems" borrow_step(2) [OF x "1.prems"(3)] borrow_step(2) [OF y "1.prems"(4)]
      borrow_nonneg [OF x "1.prems"(3,6)] borrow_nonneg [OF y "1.prems"(4,7)]
      carry_step(2) [OF digit_ok_mask "1.prems"(5), of "(x - p) AND (y - q)"]
    unfolding carry_step(1) [OF digit_ok_mask "1.prems"(5)]
    by (simp add: digits_ok_Cons ival_Cons Let_def and.assoc del: dval.simps(2) digits_ok_simps(2))
next
  case (2 x xs p q c)
  then have "q = 0" using borrow_done by simp_all
  then show ?case using digit_ok_carry [OF "2.prems"(5)] by (simp add: digit_ok_def)
next
  case (3 ys p q c)
  then have "ys = []" "p = 0" "q = 0" using borrow_done by simp_all
  then show ?case using digit_ok_carry [OF "3.prems"(5)] by (simp add: digit_ok_def)
qed

lemma xor_pos_neg_loop_correct:
  assumes "digits_ok xs" "digits_ok ys" "unat q \<le> 1" "unat c \<le> 1" "0 \<le> ival ys - uint q"
  shows "digits_ok (xor_pos_neg_loop xs ys q c) \<and>
    ival (xor_pos_neg_loop xs ys q c) = (ival xs XOR (ival ys - uint q)) + uint c"
  using assms
proof (induction xs ys q c rule: xor_pos_neg_loop.induct)
  case (1 x xs y ys q c)
  then have x: "digit_ok x" and y: "digit_ok y" by (simp_all only: digits_ok_Cons)
  let ?q = "drop_bit (kChunkBitSize - 1) (y - q)"
  let ?d = "NOT (x XOR NOT (y - q)) AND kDigitMask"
  have "(ival (x # xs) XOR (ival (y # ys) - uint q)) + uint c =
      digit_cat (uint ?d) (ival xs XOR (ival ys - uint ?q)) + uint c"
    unfolding borrow_step(1) [OF y "1.prems"(3)] uint_digit_ops [OF x] ival_Cons [of x]
    using digit_range [OF x] digit_range [OF digit_ok_mask] by (simp only: digit_cat_ops)
  then show ?case
    using "1.IH" [OF refl refl] "1.prems" borrow_step(2) [OF y "1.prems"(3)] borrow_nonneg [OF y "1.prems"(3,5)]
      carry_step(2) [OF digit_ok_mask "1.prems"(4), of "NOT (x XOR NOT (y - q))"]
    unfolding carry_step(1) [OF digit_ok_mask "1.prems"(4)]
    by (simp add: digits_ok_Cons ival_Cons Let_def del: dval.simps(2) digits_ok_simps(2))
next
  case (2 x xs q c)
  then have x: "digit_ok x" and q: "q = 0" using borrow_done by (simp_all only: digits_ok_Cons)
  have d: "NOT (x XOR NOT 0) = x" by (rule bit_word_eqI) (simp add: bit_simps)
  have "ival (x # xs) + uint c =
      digit_cat (uint ((x + c) AND kDigitMask)) (ival xs + uint (drop_bit kDigitBitSize (x + c)))"
    unfolding ival_Cons carry_step(1) [OF x "2.prems"(4)] ..
  then show ?case
    using "2.IH" [OF refl refl] "2.prems" carry_step(2) [OF x "2.prems"(4)] digit_ok_mask_id [OF x] q d
    by (simp add: digits_ok_Cons ival_Cons Let_def del: dval.simps(2) digits_ok_simps(2))
next
  case (3 y ys q c)
  then have y: "digit_ok y" by (simp_all only: digits_ok_Cons)
  let ?q = "drop_bit (kChunkBitSize - 1) (y - q)" and ?d = "(y - q) AND kDigitMask"
  have "ival (y # ys) - uint q + uint c = digit_cat (uint ?d) (ival ys - uint ?q) + uint c"
    unfolding borrow_step(1) [OF y "3.prems"(3)] ..
  then show ?case
    using "3.IH" [OF refl refl] "3.prems" borrow_step(2) [OF y "3.prems"(3)] borrow_nonneg [OF y "3.prems"(3,5)]
      carry_step(2) [OF digit_ok_mask "3.prems"(4), of "y - q"]
    unfolding carry_step(1) [OF digit_ok_mask "3.prems"(4)]
    by (simp add: digits_ok_Cons ival_Cons Let_def del: dval.simps(2) digits_ok_simps(2))
next
  case (4 q c)
  then have "q = 0" using borrow_done by simp_all
  then show ?case using digit_ok_carry [OF "4.prems"(4)] by (simp add: digit_ok_def)
qed

lemma xor_neg_neg_loop_correct:
  assumes "digits_ok xs" "digits_ok ys" "unat p \<le> 1" "unat q \<le> 1"
    "0 \<le> ival xs - uint p" "0 \<le> ival ys - uint q" "length ys \<le> length xs"
  shows "digits_ok (xor_neg_neg_loop xs ys p q) \<and>
    ival (xor_neg_neg_loop xs ys p q) = (ival xs - uint p) XOR (ival ys - uint q)"
  using assms
proof (induction xs ys p q rule: xor_neg_neg_loop.induct)
  case (1 x xs y ys p q)
  then have x: "digit_ok x" and y: "digit_ok y" by (simp_all only: digits_ok_Cons)
  let ?p = "drop_bit (kChunkBitSize - 1) (x - p)" and ?q = "drop_bit (kChunkBitSize - 1) (y - q)"
  have "(ival (x # xs) - uint p) XOR (ival (y # ys) - uint q) =
      digit_cat (uint ((NOT (x - p) XOR NOT (y - q)) AND kDigitMask)) ((ival xs - uint ?p) XOR (ival ys - uint ?q))"
    unfolding borrow_step(1) [OF x "1.prems"(3)] borrow_step(1) [OF y "1.prems"(4)] uint_mask_ops
    using digit_range [OF digit_ok_mask] by (simp only: digit_cat_ops)
  then show ?case
    using "1.IH" [OF refl refl refl] "1.prems" borrow_step(2) [OF x "1.prems"(3)] borrow_step(2) [OF y "1.prems"(4)]
      borrow_nonneg [OF x "1.prems"(3,5)] borrow_nonneg [OF y "1.prems"(4,6)]
    by (simp add: digits_ok_Cons ival_Cons Let_def del: dval.simps(2) digits_ok_simps(2))
next
  case (2 x xs p q)
  then have x: "digit_ok x" and q: "q = 0" using borrow_done by (simp_all only: digits_ok_Cons)
  show ?case
    using "2.IH" [OF refl] "2.prems" borrow_step [OF x "2.prems"(3)] borrow_nonneg [OF x "2.prems"(3,5)] q
    by (simp add: digits_ok_Cons ival_Cons Let_def del: dval.simps(2) digits_ok_simps(2))
next
  case (3 ys p q)
  then show ?case using borrow_done [of p] borrow_done [of q] by simp
qed

subsection \<open>Operations on two non-negative numbers\<close>

lemma uint_chunk_ops:
  "uint (x AND y) = uint x AND uint y" "uint (x OR y) = uint x OR uint y"
  "uint (x XOR y) = uint x XOR uint y" for x y :: chunk
  by (auto intro!: bit_eqI simp: bit_uint_chunk bit_and_iff bit_or_iff bit_xor_iff)

lemma digit_ok_ops:
  assumes "digit_ok x" "digit_ok y"
  shows "digit_ok (x AND y)" "digit_ok (x OR y)" "digit_ok (x XOR y)"
proof -
  have "uint z < ibeta \<Longrightarrow> digit_ok z" for z
    by (metis digit_ok_def of_nat_less_iff uint_nat)
  then show "digit_ok (x AND y)" "digit_ok (x OR y)" "digit_ok (x XOR y)"
    using digit_range [OF assms(1)] digit_range [OF assms(2)]
    by (simp_all add: uint_chunk_ops and_digit_range or_digit_range xor_digit_range)
qed

lemma and_digits:
  assumes "digits_ok xs" "digits_ok ys"
  shows "digits_ok (map2 (AND) xs ys) \<and> ival (map2 (AND) xs ys) = ival xs AND ival ys"
  using assms
proof (induction xs ys rule: list_induct2')
  case (4 x xs y ys)
  then have x: "digit_ok x" and y: "digit_ok y" by (simp_all only: digits_ok_Cons)
  have "ival (x # xs) AND ival (y # ys) = digit_cat (uint (x AND y)) (ival xs AND ival ys)"
    unfolding ival_Cons uint_chunk_ops using digit_range [OF x] digit_range [OF y]
    by (simp only: digit_cat_ops)
  then show ?case using 4 digit_ok_ops [OF x y]
    by (simp add: digits_ok_Cons ival_Cons del: dval.simps(2) digits_ok_simps(2))
qed simp_all

lemma or_digits:
  assumes "digits_ok xs" "digits_ok ys" "length ys \<le> length xs"
  shows "digits_ok (map2 (OR) xs ys @ drop (length ys) xs) \<and>
    ival (map2 (OR) xs ys @ drop (length ys) xs) = ival xs OR ival ys"
  using assms
proof (induction xs ys rule: list_induct2')
  case (4 x xs y ys)
  then have x: "digit_ok x" and y: "digit_ok y" by (simp_all only: digits_ok_Cons)
  have "ival (x # xs) OR ival (y # ys) = digit_cat (uint (x OR y)) (ival xs OR ival ys)"
    unfolding ival_Cons uint_chunk_ops using digit_range [OF x] digit_range [OF y]
    by (simp only: digit_cat_ops)
  then show ?case using 4 digit_ok_ops [OF x y]
    by (simp add: digits_ok_Cons ival_Cons del: dval.simps(2) digits_ok_simps)
qed simp_all

lemma xor_digits:
  assumes "digits_ok xs" "digits_ok ys" "length ys \<le> length xs"
  shows "digits_ok (map2 (XOR) xs ys @ drop (length ys) xs) \<and>
    ival (map2 (XOR) xs ys @ drop (length ys) xs) = ival xs XOR ival ys"
  using assms
proof (induction xs ys rule: list_induct2')
  case (4 x xs y ys)
  then have x: "digit_ok x" and y: "digit_ok y" by (simp_all only: digits_ok_Cons)
  have "ival (x # xs) XOR ival (y # ys) = digit_cat (uint (x XOR y)) (ival xs XOR ival ys)"
    unfolding ival_Cons uint_chunk_ops using digit_range [OF x] digit_range [OF y]
    by (simp only: digit_cat_ops)
  then show ?case using 4 digit_ok_ops [OF x y]
    by (simp add: digits_ok_Cons ival_Cons del: dval.simps(2) digits_ok_simps)
qed simp_all

subsection \<open>The bit operations are those of the integers\<close>

lemma bigint_inv_facts:
  assumes "bigint_inv b"
  shows "digits_ok (chunks b)" "length (chunks b) = Length b"
    and "IsNegative b \<Longrightarrow> bval b = NOT (ival (chunks b) - 1)"
    and "IsNegative b \<Longrightarrow> 0 \<le> ival (chunks b) - 1"
    and "\<not> IsNegative b \<Longrightarrow> bval b = ival (chunks b)"
proof -
  show "digits_ok (chunks b)" "length (chunks b) = Length b"
    using assms by (simp_all add: bigint_inv_def bigint_ok_def)
  show "IsNegative b \<Longrightarrow> bval b = NOT (ival (chunks b) - 1)"
    by (simp add: bval_def not_int_def)
  show "\<not> IsNegative b \<Longrightarrow> bval b = ival (chunks b)" by (simp add: bval_def)
  assume neg: "IsNegative b"
  then have "bval b = - ival (chunks b)" by (simp add: bval_def)
  then show "0 \<le> ival (chunks b) - 1" using IsNegative_iff [OF assms] neg by linarith
qed

lemma neg_clamped:
  assumes "digits_ok ds" "ival ds = k + 1"
  shows "bigint_inv (Clamp (ToggleSign (new_bigint ds))) \<and>
    bval (Clamp (ToggleSign (new_bigint ds))) = NOT k"
  using Clamp_correct [of "ToggleSign (new_bigint ds)"] assms by (simp add: not_int_def)

lemma BitAnd_correct:
  assumes "bigint_inv a" "bigint_inv b"
  shows "bigint_inv (BitAnd a b) \<and> bval (BitAnd a b) = bval a AND bval b"
  using assms
proof (induction a b rule: BitAnd.induct)
  case (1 a b)
  note fa = bigint_inv_facts [OF "1.prems"(1)] and fb = bigint_inv_facts [OF "1.prems"(2)]
  consider "IsZero a \<or> IsZero b" | "\<not> (IsZero a \<or> IsZero b)" "IsNegative a \<and> \<not> IsNegative b"
    | "\<not> (IsZero a \<or> IsZero b)" "IsNegative a = IsNegative b" "Length a < Length b"
    | (pp) "\<not> (IsZero a \<or> IsZero b)" "\<not> IsNegative a" "\<not> IsNegative b" "\<not> Length a < Length b"
    | (pn) "\<not> (IsZero a \<or> IsZero b)" "\<not> IsNegative a" "IsNegative b"
    | (nn) "\<not> (IsZero a \<or> IsZero b)" "IsNegative a" "IsNegative b" "\<not> Length a < Length b"
    by blast
  then show ?case
  proof cases
    case 1
    then show ?thesis using IsZero_iff [OF "1.prems"(1)] IsZero_iff [OF "1.prems"(2)]
      by (auto simp: BitAnd.simps [of a b])
  next
    case pp
    then show ?thesis using Clamp_correct [of "new_bigint (map2 (AND) (chunks a) (chunks b))"]
        and_digits [OF fa(1) fb(1)] fa fb by (simp add: BitAnd.simps [of a b])
  next
    case pn
    then show ?thesis using Clamp_correct [of "new_bigint (and_pos_neg_loop (chunks a) (chunks b) 1)"]
        and_pos_neg_loop_correct [OF fa(1) fb(1), of 1] fa fb by (simp add: BitAnd.simps [of a b])
  next
    case nn
    then show ?thesis
      using neg_clamped [of "and_neg_neg_loop (chunks a) (chunks b) 1 1 1"]
        and_neg_neg_loop_correct [OF fa(1) fb(1), of 1 1 1] fa fb by (simp add: BitAnd.simps [of a b])
  qed (use 1 in \<open>simp_all add: BitAnd.simps [of a b] and.commute\<close>)
qed

lemma or_pos_neg_bound:
  assumes "digits_ok xs" "digits_ok ys" "0 \<le> ival ys - 1"
  shows "digits_ok (or_pos_neg_loop xs ys 1 1) \<and>
    ival (or_pos_neg_loop xs ys 1 1) = ((ival ys - 1) AND NOT (ival xs)) + 1"
proof -
  let ?k = "(ival ys - 1) AND NOT (ival xs)"
  have "?k \<le> ival ys - 1" "0 \<le> ?k" using assms(3) by (simp_all add: AND_upper1)
  moreover have "ival ys < ibeta ^ length ys"
    using dval_bound [OF assms(2)] by (metis of_nat_less_iff of_nat_power)
  ultimately have "(?k + 1) mod ibeta ^ length ys = ?k + 1" by (intro mod_pos_pos_trivial) linarith+
  then show ?thesis using or_pos_neg_loop_correct [OF assms(1,2), of 1 1] by simp
qed

lemma BitOr_correct:
  assumes "bigint_inv a" "bigint_inv b"
  shows "bigint_inv (BitOr a b) \<and> bval (BitOr a b) = bval a OR bval b"
  using assms
proof (induction a b rule: BitOr.induct)
  case (1 a b)
  note fa = bigint_inv_facts [OF "1.prems"(1)] and fb = bigint_inv_facts [OF "1.prems"(2)]
  consider "IsNegative a \<and> \<not> IsNegative b"
    | "IsNegative a = IsNegative b" "Length a < Length b"
    | (pp) "\<not> IsNegative a" "\<not> IsNegative b" "\<not> Length a < Length b"
    | (zn) "IsZero a" "\<not> IsNegative a" "IsNegative b"
    | (pn) "\<not> IsZero a" "\<not> IsNegative a" "IsNegative b"
    | (nn) "IsNegative a" "IsNegative b" "\<not> Length a < Length b"
    by blast
  then show ?case
  proof cases
    case pp
    let ?ds = "map2 (OR) (chunks a) (chunks b) @ drop (Length b) (chunks a)"
    have ds: "digits_ok ?ds" "ival ?ds = ival (chunks a) OR ival (chunks b)"
      using or_digits [OF fa(1) fb(1)] pp fa(2) fb(2) by simp_all
    have len: "length ?ds = Length a" using pp fa(2) fb(2) by simp
    have "bigint_inv (new_bigint ?ds)"
    proof (cases "Length a = 0")
      case False
      then have "beta ^ (Length a - 1) \<le> dval (chunks a)" using "1.prems"(1) by (intro dval_lower)
      also have "\<dots> \<le> dval ?ds" using ds(2) or_greater_eq [of "ival (chunks b)" "ival (chunks a)"] by linarith
      finally show ?thesis using ds(1) len False by (intro new_bigint_clampedI) auto
    next
      case True
      then have "?ds = []" using len by (simp only: length_0_conv [symmetric])
      then show ?thesis by (simp only: bigint_inv_new) simp
    qed
    then show ?thesis using ds pp fa fb by (simp add: BitOr.simps [of a b] del: dval.simps digits_ok_simps)
  next
    case zn
    then show ?thesis using Copy_correct [of b] "1.prems"(2) IsZero_iff [OF "1.prems"(1)]
      by (simp add: BitOr.simps [of a b] bigint_inv_def)
  next
    case pn
    then show ?thesis using neg_clamped [of "or_pos_neg_loop (chunks a) (chunks b) 1 1"]
        or_pos_neg_bound [OF fa(1) fb(1)] fa fb
      by (simp add: BitOr.simps [of a b] or.commute)
  next
    case nn
    then show ?thesis
      using neg_clamped [of "or_neg_neg_loop (chunks a) (chunks b) 1 1 1"]
        or_neg_neg_loop_correct [OF fa(1) fb(1), of 1 1 1] fa fb by (simp add: BitOr.simps [of a b])
  qed (use 1 in \<open>simp_all add: BitOr.simps [of a b] or.commute\<close>)
qed

lemma BitXor_correct:
  assumes "bigint_inv a" "bigint_inv b"
  shows "bigint_inv (BitXor a b) \<and> bval (BitXor a b) = bval a XOR bval b"
  using assms
proof (induction a b rule: BitXor.induct)
  case (1 a b)
  note fa = bigint_inv_facts [OF "1.prems"(1)] and fb = bigint_inv_facts [OF "1.prems"(2)]
  note z = IsZero_iff [OF "1.prems"(1)] IsZero_iff [OF "1.prems"(2)]
  consider "IsZero a \<or> IsZero b" | "\<not> (IsZero a \<or> IsZero b)" "IsNegative a \<and> \<not> IsNegative b"
    | "\<not> (IsZero a \<or> IsZero b)" "IsNegative a = IsNegative b" "Length a < Length b"
    | (pp) "\<not> (IsZero a \<or> IsZero b)" "\<not> IsNegative a" "\<not> IsNegative b" "\<not> Length a < Length b"
    | (pn) "\<not> (IsZero a \<or> IsZero b)" "\<not> IsNegative a" "IsNegative b"
    | (nn) "\<not> (IsZero a \<or> IsZero b)" "IsNegative a" "IsNegative b" "\<not> Length a < Length b"
    by blast
  then show ?case
  proof cases
    case 1
    then show ?thesis using z Copy_correct [of a] "1.prems"(1) Copy_correct [of b] "1.prems"(2)
      by (auto simp: BitXor.simps [of a b] bigint_inv_def)
  next
    case pp
    let ?ds = "map2 (XOR) (chunks a) (chunks b) @ drop (Length b) (chunks a)"
    have "digits_ok ?ds \<and> ival ?ds = ival (chunks a) XOR ival (chunks b)"
      using xor_digits [OF fa(1) fb(1)] pp fa(2) fb(2) by simp
    then show ?thesis using Clamp_correct [of "new_bigint ?ds"] pp fa fb
      by (simp add: BitXor.simps [of a b] del: dval.simps digits_ok_simps)
  next
    case pn
    then show ?thesis
      using neg_clamped [of "xor_pos_neg_loop (chunks a) (chunks b) 1 1"]
        xor_pos_neg_loop_correct [OF fa(1) fb(1), of 1 1] fa fb by (simp add: BitXor.simps [of a b])
  next
    case nn
    then show ?thesis
      using Clamp_correct [of "new_bigint (xor_neg_neg_loop (chunks a) (chunks b) 1 1)"]
        xor_neg_neg_loop_correct [OF fa(1) fb(1), of 1 1] fa fb by (simp add: BitXor.simps [of a b])
  qed (use 1 in \<open>simp_all add: BitXor.simps [of a b] xor.commute\<close>)
qed

lemma BitNot_correct:
  assumes "bigint_inv b"
  shows "bigint_inv (BitNot b) \<and> bval (BitNot b) = NOT (bval b)"
proof -
  consider "IsZero b" | "\<not> IsZero b" "IsNegative b" | "\<not> IsZero b" "\<not> IsNegative b" by blast
  then show ?thesis
  proof cases
    case 1
    then show ?thesis using IsZero_iff [OF assms] by (simp add: BitNot_def)
  next
    case 2
    then have "dval (chunks One) \<le> dval (chunks b)"
      using bigint_inv_facts(4) [OF assms 2(2)] by (simp add: One_def)
    then have sub: "bigint_inv (UnsignedSubtract b One)" "\<not> IsNegative (UnsignedSubtract b One)"
        "ival (chunks (UnsignedSubtract b One)) = ival (chunks b) - 1"
      using UnsignedSubtract_correct [OF assms constants_correct(3)] by (simp_all add: One_def of_nat_diff)
    then show ?thesis using 2 bigint_inv_facts(3) [OF assms 2(2)] bigint_inv_facts(5) [OF sub(1,2)]
      by (simp add: BitNot_def)
  next
    case 3
    have add: "bigint_inv (UnsignedAdd b One)" "\<not> IsNegative (UnsignedAdd b One)"
        "ival (chunks (UnsignedAdd b One)) = ival (chunks b) + 1"
      using UnsignedAdd_correct [OF assms constants_correct(3)] by (simp_all add: One_def)
    then show ?thesis using 3 bigint_inv_facts(5) [OF assms 3(2)] bigint_inv_facts(5) [OF add(1,2)]
      by (simp add: BitNot_def bigint_inv_def not_int_def)
  qed
qed

subsection \<open>Properties\<close>

text \<open>C6: On well-formed bigints \<open>BitAnd\<close>, \<open>BitOr\<close> and \<open>BitXor\<close> are the bitwise operations of
  the integers in infinite two's complement, for all combinations of signs and
  lengths, with well-formed results.\<close>

theorem bit_operations_exact:
  assumes "bigint_inv a" and "bigint_inv b"
  shows "bigint_inv (BitAnd a b) \<and> bval (BitAnd a b) = bval a AND bval b \<and>
    bigint_inv (BitOr a b) \<and> bval (BitOr a b) = bval a OR bval b \<and>
    bigint_inv (BitXor a b) \<and> bval (BitXor a b) = bval a XOR bval b"
  using BitAnd_correct [OF assms] BitOr_correct [OF assms] BitXor_correct [OF assms] by simp

theorem bit_operations_exact_witness:
  "bval (BitAnd (ToggleSign (new_bigint [0, 1])) (new_bigint [268435455, 3])) = 805306368 \<and>
   bval (BitXor MinusOne (new_bigint [0, 1])) = - 268435457"
  using bit_operations_exact [of "ToggleSign (new_bigint [0, 1])" "new_bigint [268435455, 3]"]
    bit_operations_exact [of MinusOne "new_bigint [0, 1]"]
  by (simp add: beta_eq)

text \<open>\<open>BitNot\<close> is the complement \<open>- x - 1\<close>, and applying it twice returns the identical object.\<close>

lemma bit_not_involutive:
  assumes "bigint_inv a"
  shows "bval (BitNot a) = - bval a - 1 \<and> BitNot (BitNot a) = a"
proof
  show "bval (BitNot a) = - bval a - 1" using BitNot_correct [OF assms] by (simp add: not_int_def)
  show "BitNot (BitNot a) = a"
    using BitNot_correct [OF assms] BitNot_correct [of "BitNot a"] assms by (intro bval_inj) simp_all
qed

end
