(* ===== verification/Dart_Integers.thy ===== *)
theory Dart_Integers
  imports Bigint_Strings Bigint_Bits
begin

text \<open>
  The integers of the core library: the classes \<open>Smi\<close>, \<open>Mint\<close> and \<open>Bigint\<close> under
  \<open>Integer\<close> in \<open>runtime/vm/object.cc\<close>, and the natives of \<open>runtime/lib/integers.cc\<close> on
  the 64-bit build. An integer object is a small integer (62 bits and a sign), a 64-bit
  integer or a bigint; the natives expect and return the most compact one that holds the
  value (\<open>CheckInteger\<close>).

  A native that does not return a value ends in one of the errors below: the code stops
  with \<open>UNIMPLEMENTED()\<close> or \<open>UNREACHABLE()\<close>, raises the illegal-argument exception, or
  divides by zero.
\<close>

subsection \<open>Integer objects\<close>

datatype integer = Smi int64 | Mint int64 | Big bigint

datatype int_error = Unimplemented | Unreachable | IllegalArgument | DivisionByZero

datatype token = kADD | kSUB | kMUL | kTRUNCDIV | kMOD | kBIT_AND | kBIT_OR | kBIT_XOR | kSHL | kSHR

fun Integer_IsZero :: "integer \<Rightarrow> bool" where
  "Integer_IsZero (Smi v) = (v = 0)"
| "Integer_IsZero (Mint v) = (v = 0)"
| "Integer_IsZero (Big b) = IsZero b"

fun Integer_IsNegative :: "integer \<Rightarrow> bool" where
  "Integer_IsNegative (Smi v) = (v <s 0)"
| "Integer_IsNegative (Mint v) = (v <s 0)"
| "Integer_IsNegative (Big b) = IsNegative b"

fun AsInt64Value :: "integer \<Rightarrow> int_error + int64" where
  "AsInt64Value (Smi v) = Inr v"
| "AsInt64Value (Mint v) = Inr v"
| "AsInt64Value (Big b) = (if \<not> FitsIntoMint b then Inl Unreachable else Inr (ToMint b))"

definition Integer_New :: "int64 \<Rightarrow> integer" where
  "Integer_New value = (if value \<le>s Smi_kMaxValue \<and> Smi_kMinValue \<le>s value then Smi value else Mint value)"

definition compare_int64 :: "int64 \<Rightarrow> int64 \<Rightarrow> int" where
  "compare_int64 a b = (if a <s b then - 1 else if b <s a then 1 else 0)"

fun Smi_CompareWith :: "int64 \<Rightarrow> integer \<Rightarrow> int" where
  "Smi_CompareWith a (Smi b) = compare_int64 a b"
| "Smi_CompareWith a other =
     (if (a <s 0) = Integer_IsNegative other
      then (if a <s 0 then 1 else - 1)
      else (if a <s 0 then - 1 else 1))"

fun Mint_CompareWith :: "int64 \<Rightarrow> integer \<Rightarrow> int" where
  "Mint_CompareWith a (Mint b) = compare_int64 a b"
| "Mint_CompareWith a (Smi b) = compare_int64 a b"
| "Mint_CompareWith a (Big b) =
     (if (a <s 0) = IsNegative b
      then (if a <s 0 then 1 else - 1)
      else (if a <s 0 then - 1 else 1))"

fun Bigint_CompareWith :: "bigint \<Rightarrow> integer \<Rightarrow> int" where
  "Bigint_CompareWith a (Big b) = Compare a b"
| "Bigint_CompareWith a other =
     (if IsNegative a = Integer_IsNegative other
      then (if IsNegative a then - 1 else 1)
      else (if IsNegative a then - 1 else 1))"

text \<open>The virtual call on the class of the receiver.\<close>

fun CompareWith :: "integer \<Rightarrow> integer \<Rightarrow> int" where
  "CompareWith (Smi a) other = Smi_CompareWith a other"
| "CompareWith (Mint a) other = Mint_CompareWith a other"
| "CompareWith (Big a) other = Bigint_CompareWith a other"

text \<open>\<open>Equals\<close> of two integer objects; the test for the same object only answers sooner. The
  method of \<open>Bigint\<close> compares the lengths and the digits.\<close>

fun Smi_Equals :: "int64 \<Rightarrow> integer \<Rightarrow> bool" where
  "Smi_Equals a (Smi b) = (a = b)"
| "Smi_Equals a other = False"

fun Mint_Equals :: "int64 \<Rightarrow> integer \<Rightarrow> bool" where
  "Mint_Equals a (Mint b) = (a = b)"
| "Mint_Equals a other = False"

fun Bigint_Equals :: "bigint \<Rightarrow> integer \<Rightarrow> bool" where
  "Bigint_Equals a (Big b) \<longleftrightarrow>
     Length a = Length b \<and> (\<forall>i \<in> set [0..<Length a]. GetChunkAt a i = GetChunkAt b i)"
| "Bigint_Equals a other = False"

fun Integer_Equals :: "integer \<Rightarrow> integer \<Rightarrow> bool" where
  "Integer_Equals (Smi a) other = Smi_Equals a other"
| "Integer_Equals (Mint a) other = Mint_Equals a other"
| "Integer_Equals (Big a) other = Bigint_Equals a other"

definition Integer_NewFromString :: "string \<Rightarrow> integer option" where
  "Integer_NewFromString str =
     map_option (\<lambda>big. if FitsIntoSmi big then Smi (ToSmi big)
                       else if FitsIntoMint big then Mint (ToMint big)
                       else Big big)
       (NewFromCString str)"

subsection \<open>Representation changes\<close>

fun AsInteger :: "integer \<Rightarrow> integer" where
  "AsInteger (Smi v) = Smi v"
| "AsInteger (Mint v) = (if Smi_IsValid64 v then Smi v else Mint v)"
| "AsInteger (Big b) =
     (if FitsIntoSmi b then Smi (ToSmi b) else if FitsIntoMint b then Mint (ToMint b) else Big b)"

fun AsBigint :: "integer \<Rightarrow> bigint" where
  "AsBigint (Smi v) = NewFromSmi v"
| "AsBigint (Mint v) = NewFromInt64 v"
| "AsBigint (Big b) = b"

fun IsBigint :: "integer \<Rightarrow> bool" where
  "IsBigint (Big b) = True"
| "IsBigint i = False"

definition Are64bitOperands :: "integer \<Rightarrow> integer \<Rightarrow> bool" where
  "Are64bitOperands op1 op2 \<longleftrightarrow> \<not> IsBigint op1 \<and> \<not> IsBigint op2"

fun CheckInteger :: "integer \<Rightarrow> bool" where
  "CheckInteger (Big b) \<longleftrightarrow> \<not> FitsIntoSmi b \<and> \<not> FitsIntoMint b"
| "CheckInteger (Mint v) \<longleftrightarrow> \<not> Smi_IsValid64 v"
| "CheckInteger (Smi v) \<longleftrightarrow> True"

subsection \<open>Bit operations\<close>

fun word_bit_operation :: "token \<Rightarrow> int64 \<Rightarrow> int64 \<Rightarrow> int_error + int64" where
  "word_bit_operation kBIT_AND a b = Inr (a AND b)"
| "word_bit_operation kBIT_OR a b = Inr (a OR b)"
| "word_bit_operation kBIT_XOR a b = Inr (a XOR b)"
| "word_bit_operation kind a b = Inl Unimplemented"

fun bigint_bit_operation :: "token \<Rightarrow> bigint \<Rightarrow> bigint \<Rightarrow> int_error + bigint" where
  "bigint_bit_operation kBIT_AND a b = Inr (BitAnd a b)"
| "bigint_bit_operation kBIT_OR a b = Inr (BitOr a b)"
| "bigint_bit_operation kBIT_XOR a b = Inr (BitXor a b)"
| "bigint_bit_operation kind a b = Inl Unimplemented"

definition bind_sum :: "'e + 'a \<Rightarrow> ('a \<Rightarrow> 'e + 'b) \<Rightarrow> 'e + 'b" where
  "bind_sum m f = (case m of Inl e \<Rightarrow> Inl e | Inr x \<Rightarrow> f x)"

fun IntegerBitOperation :: "token \<Rightarrow> integer \<Rightarrow> integer \<Rightarrow> int_error + integer" where
  "IntegerBitOperation kind op1_int op2_int =
     (case (op1_int, op2_int) of
        (Smi a, Smi b) \<Rightarrow> bind_sum (word_bit_operation kind a b) (\<lambda>r. Inr (Smi r))
      | _ \<Rightarrow>
          if Are64bitOperands op1_int op2_int
          then bind_sum (AsInt64Value op1_int) (\<lambda>a.
               bind_sum (AsInt64Value op2_int) (\<lambda>b.
               bind_sum (word_bit_operation kind a b) (\<lambda>r. Inr (Integer_New r))))
          else bind_sum (bigint_bit_operation kind (AsBigint op1_int) (AsBigint op2_int)) (\<lambda>r. Inr (Big r)))"

definition Integer_bitOperation :: "token \<Rightarrow> integer \<Rightarrow> integer \<Rightarrow> int_error + integer" where
  "Integer_bitOperation kind left right =
     bind_sum (IntegerBitOperation kind left right) (\<lambda>r. Inr (AsInteger r))"

definition Integer_bitAndFromInteger :: "integer \<Rightarrow> integer \<Rightarrow> int_error + integer" where
  "Integer_bitAndFromInteger = Integer_bitOperation kBIT_AND"

definition Integer_bitOrFromInteger :: "integer \<Rightarrow> integer \<Rightarrow> int_error + integer" where
  "Integer_bitOrFromInteger = Integer_bitOperation kBIT_OR"

definition Integer_bitXorFromInteger :: "integer \<Rightarrow> integer \<Rightarrow> int_error + integer" where
  "Integer_bitXorFromInteger = Integer_bitOperation kBIT_XOR"

definition Smi_bitNegate :: "int64 \<Rightarrow> integer" where
  "Smi_bitNegate operand = Smi (NOT operand)"

definition Mint_bitNegate :: "int64 \<Rightarrow> integer" where
  "Mint_bitNegate operand = Integer_New (NOT operand)"

definition Bigint_bitNegate :: "bigint \<Rightarrow> integer" where
  "Bigint_bitNegate value = AsInteger (Big (BitNot value))"

text \<open>The native that the class of the operand selects.\<close>

fun bitNegate :: "integer \<Rightarrow> integer" where
  "bitNegate (Smi v) = Smi_bitNegate v"
| "bitNegate (Mint v) = Mint_bitNegate v"
| "bitNegate (Big b) = Bigint_bitNegate b"

subsection \<open>Arithmetic\<close>

definition returned :: "'a option \<Rightarrow> int_error + 'a" where
  "returned r = (case r of None \<Rightarrow> Inl Unimplemented | Some x \<Rightarrow> Inr x)"

fun BinaryOpWithTwoBigints :: "token \<Rightarrow> bigint \<Rightarrow> bigint \<Rightarrow> int_error + bigint" where
  "BinaryOpWithTwoBigints kADD left right = Inr (Add left right)"
| "BinaryOpWithTwoBigints kSUB left right = Inr (Subtract left right)"
| "BinaryOpWithTwoBigints kMUL left right = returned (Multiply left right)"
| "BinaryOpWithTwoBigints kTRUNCDIV left right =
     (if IsZero right then Inl DivisionByZero else returned (Divide left right))"
| "BinaryOpWithTwoBigints kMOD left right =
     (if IsZero right then Inl DivisionByZero else returned (Modulo left right))"
| "BinaryOpWithTwoBigints operation left right = Inl Unimplemented"

text \<open>The cases for two small integers; \<open>None\<close> continues with the multiplication of bigints.\<close>

fun smi_binop :: "token \<Rightarrow> int64 \<Rightarrow> int64 \<Rightarrow> (int_error + integer) option" where
  "smi_binop kADD left_value right_value = Some (Inr (Integer_New (left_value + right_value)))"
| "smi_binop kSUB left_value right_value = Some (Inr (Integer_New (left_value - right_value)))"
| "smi_binop kMUL left_value right_value =
     (if IsInt 32 left_value \<and> IsInt 32 right_value
      then Some (Inr (Integer_New (left_value * right_value))) else None)"
| "smi_binop kTRUNCDIV left_value right_value =
     Some (if right_value = 0 then Inl DivisionByZero
           else Inr (Integer_New (word_of_int (sint left_value sdiv sint right_value))))"
| "smi_binop kMOD left_value right_value =
     Some (if right_value = 0 then Inl DivisionByZero
           else
             let remainder = word_of_int (sint left_value smod sint right_value) :: int64
             in if remainder <s 0
                then (if right_value <s 0 then Inr (Integer_New (remainder - right_value))
                      else Inr (Integer_New (remainder + right_value)))
                else Inr (Integer_New remainder))"
| "smi_binop operation left_value right_value = Some (Inl Unimplemented)"

definition bigint_binop :: "token \<Rightarrow> integer \<Rightarrow> integer \<Rightarrow> int_error + integer" where
  "bigint_binop operation left_int right_int =
     bind_sum (BinaryOpWithTwoBigints operation (AsBigint left_int) (AsBigint right_int))
       (\<lambda>r. Inr (AsInteger (Big r)))"

definition IntegerBinopHelper :: "token \<Rightarrow> integer \<Rightarrow> integer \<Rightarrow> int_error + integer" where
  "IntegerBinopHelper operation left_int right_int =
     (case (left_int, right_int) of
        (Smi a, Smi b) \<Rightarrow>
          (case smi_binop operation a b of
             Some r \<Rightarrow> r
           | None \<Rightarrow> bigint_binop operation left_int right_int)
      | _ \<Rightarrow> bigint_binop operation left_int right_int)"

definition Integer_addFromInteger :: "integer \<Rightarrow> integer \<Rightarrow> int_error + integer" where
  "Integer_addFromInteger left_int right_int = IntegerBinopHelper kADD left_int right_int"

definition Integer_subFromInteger :: "integer \<Rightarrow> integer \<Rightarrow> int_error + integer" where
  "Integer_subFromInteger left_int right_int = IntegerBinopHelper kSUB left_int right_int"

definition Integer_mulFromInteger :: "integer \<Rightarrow> integer \<Rightarrow> int_error + integer" where
  "Integer_mulFromInteger left_int right_int = IntegerBinopHelper kMUL left_int right_int"

definition Integer_truncDivFromInteger :: "integer \<Rightarrow> integer \<Rightarrow> int_error + integer" where
  "Integer_truncDivFromInteger left_int right_int = IntegerBinopHelper kTRUNCDIV left_int right_int"

definition Integer_moduloFromInteger :: "integer \<Rightarrow> integer \<Rightarrow> int_error + integer" where
  "Integer_moduloFromInteger left_int right_int =
     (if Integer_IsZero right_int then Inl Unimplemented
      else IntegerBinopHelper kMOD left_int right_int)"

definition Integer_greaterThanFromInteger :: "integer \<Rightarrow> integer \<Rightarrow> bool" where
  "Integer_greaterThanFromInteger left right \<longleftrightarrow> CompareWith left right = 1"

definition Integer_equalToInteger :: "integer \<Rightarrow> integer \<Rightarrow> bool" where
  "Integer_equalToInteger left right \<longleftrightarrow> CompareWith left right = 0"

subsection \<open>Shifts\<close>

function HighestBit_loop :: "uint64 \<Rightarrow> nat \<Rightarrow> nat" where
  "HighestBit_loop t count =
     (let t = drop_bit 1 t in if t \<noteq> 0 then HighestBit_loop t (count + 1) else count)"
  by pat_completeness auto
termination
proof (relation "measure (\<lambda>(t, _). unat t)")
  fix t t' :: uint64 and count :: nat
  assume "t' = drop_bit 1 t" "t' \<noteq> 0"
  then have "0 < unat t'" by (simp add: unat_gt_0)
  then show "((t', count + 1), t, count) \<in> measure (\<lambda>(t, _). unat t)"
    using \<open>t' = drop_bit 1 t\<close> by (simp add: unat_drop_bit)
qed simp

declare HighestBit_loop.simps [simp del]

definition HighestBit :: "int64 \<Rightarrow> nat" where
  "HighestBit v = HighestBit_loop (if 0 <s v then v else - v) 0"

definition Mint_kBits :: nat where
  "Mint_kBits = 63"

definition kBitsPerWord :: nat where
  "kBitsPerWord = 64"

text \<open>The shift amount of a native is a small integer and not negative here.\<close>

fun SmiShiftOperation :: "token \<Rightarrow> int64 \<Rightarrow> nat \<Rightarrow> int_error + integer" where
  "SmiShiftOperation kSHL left_value right_value =
     (if left_value = 0 \<or> right_value = 0 then Inr (Smi left_value)
      else
        let cnt = HighestBit left_value
        in if cnt + right_value \<ge> Smi_kBits
           then (if cnt + right_value \<ge> Mint_kBits
                 then Inr (Big (ShiftLeft (AsBigint (Smi left_value)) right_value))
                 else Inr (Integer_New (push_bit right_value left_value)))
           else Inr (Smi (push_bit right_value left_value)))"
| "SmiShiftOperation kSHR left_value right_value =
     (let shift_amount = (if right_value \<ge> kBitsPerWord then kBitsPerWord - 1 else right_value)
      in Inr (Smi (signed_drop_bit shift_amount left_value)))"
| "SmiShiftOperation kind left_value right_value = Inl Unimplemented"

definition bigint_shift :: "token \<Rightarrow> bigint \<Rightarrow> nat \<Rightarrow> int_error + integer" where
  "bigint_shift kind big_value amount =
     (case kind of
        kSHL \<Rightarrow> Inr (Big (ShiftLeft big_value amount))
      | kSHR \<Rightarrow> Inr (Big (ShiftRight big_value amount))
      | _ \<Rightarrow> Inl Unimplemented)"

definition ShiftOperationHelper :: "token \<Rightarrow> integer \<Rightarrow> int64 \<Rightarrow> int_error + integer" where
  "ShiftOperationHelper kind value amount =
     (if amount <s 0 then Inl IllegalArgument
      else
        let n = unat amount
        in (case value of
              Smi v \<Rightarrow> SmiShiftOperation kind v n
            | Mint v \<Rightarrow>
                if HighestBit v + n < Mint_kBits
                then (case kind of
                        kSHL \<Rightarrow> Inr (Integer_New (push_bit n v))
                      | kSHR \<Rightarrow> Inr (Integer_New (signed_drop_bit n v))
                      | _ \<Rightarrow> Inl Unimplemented)
                else bigint_shift kind (NewFromInt64 v) n
            | Big b \<Rightarrow> bigint_shift kind b n))"

definition Smi_shrFromInt :: "integer \<Rightarrow> int64 \<Rightarrow> int_error + integer" where
  "Smi_shrFromInt value amount =
     bind_sum (ShiftOperationHelper kSHR value amount) (\<lambda>r. Inr (AsInteger r))"

definition Smi_shlFromInt :: "integer \<Rightarrow> int64 \<Rightarrow> int_error + integer" where
  "Smi_shlFromInt value amount =
     bind_sum (ShiftOperationHelper kSHL value amount) (\<lambda>r. Inr (AsInteger r))"


subsection \<open>Values and the canonical representation\<close>

fun int_val :: "integer \<Rightarrow> int" where
  "int_val (Smi v) = sint v"
| "int_val (Mint v) = sint v"
| "int_val (Big b) = bval b"

fun integer_ok :: "integer \<Rightarrow> bool" where
  "integer_ok (Smi v) = Smi_IsValid64 v"
| "integer_ok (Mint v) = True"
| "integer_ok (Big b) = bigint_inv b"

definition integer_inv :: "integer \<Rightarrow> bool" where
  "integer_inv i \<longleftrightarrow> integer_ok i \<and> CheckInteger i"

abbreviation denotes :: "integer \<Rightarrow> int \<Rightarrow> bool" where
  "denotes i k \<equiv> integer_inv i \<and> int_val i = k"

abbreviation computes :: "'e + integer \<Rightarrow> int \<Rightarrow> bool" where
  "computes r k \<equiv> \<exists>i. r = Inr i \<and> denotes i k"

lemma integer_inv_simps:
  "integer_inv (Smi v) \<longleftrightarrow> - (2 ^ 62) \<le> sint v \<and> sint v < 2 ^ 62"
  "integer_inv (Mint v) \<longleftrightarrow> \<not> (- (2 ^ 62) \<le> sint v \<and> sint v < 2 ^ 62)"
  "integer_inv (Big b) \<longleftrightarrow> bigint_inv b \<and> \<not> (- (2 ^ 63) \<le> bval b \<and> bval b < 2 ^ 63)"
  by (auto simp: integer_inv_def Smi_IsValid64_iff FitsIntoSmi_correct FitsIntoMint_correct)

lemma sint64_range: "- (2 ^ 63) \<le> sint v" "sint v < 2 ^ 63" for v :: int64
  using sint_ge [of v] sint_lt [of v] by simp_all

lemma int_val_inj:
  assumes "integer_inv a" "integer_inv b" "int_val a = int_val b"
  shows "a = b"
proof (cases a; cases b)
  fix x y assume "a = Big x" "b = Big y"
  then show ?thesis using assms bval_inj by (auto simp: integer_inv_simps)
next
  fix x y assume "a = Mint x" "b = Big y"
  then show ?thesis using assms sint64_range [of x] by (auto simp: integer_inv_simps)
next
  fix x y assume "a = Big x" "b = Mint y"
  then show ?thesis using assms sint64_range [of y] by (auto simp: integer_inv_simps)
qed (use assms in \<open>auto simp: integer_inv_simps signed_word_eqI\<close>)

lemma denotes_inj: "denotes i k \<Longrightarrow> denotes j k \<Longrightarrow> i = j"
  using int_val_inj by blast

lemma Integer_New_correct: "denotes (Integer_New v) (sint v)"
  using Smi_IsValid64_iff [of v] by (simp add: Integer_New_def Smi_IsValid64_def integer_inv_simps conj_commute)

lemma AsInteger_correct: "integer_ok i \<Longrightarrow> denotes (AsInteger i) (int_val i)"
  using sint64_range
  by (cases i) (auto simp: integer_inv_simps Smi_IsValid64_iff FitsIntoSmi_correct FitsIntoMint_correct
      ToSmi_correct ToMint_correct)

lemma AsInteger_Big: "bigint_inv b \<Longrightarrow> denotes (AsInteger (Big b)) (bval b)"
  using AsInteger_correct [of "Big b"] by simp

lemma AsBigint_correct: "integer_inv i \<Longrightarrow> bigint_inv (AsBigint i) \<and> bval (AsBigint i) = int_val i"
  by (cases i) (simp_all add: integer_inv_simps NewFromSmi_correct NewFromInt64_correct Smi_IsValid64_iff)

lemma Integer_IsNegative_iff: "integer_inv i \<Longrightarrow> Integer_IsNegative i \<longleftrightarrow> int_val i < 0"
  by (cases i) (simp_all add: integer_inv_simps word_sless_alt IsNegative_iff)

lemma Integer_IsZero_iff: "integer_inv i \<Longrightarrow> Integer_IsZero i \<longleftrightarrow> int_val i = 0"
  by (cases i) (simp_all add: integer_inv_simps IsZero_iff signed_eq_0_iff)

subsection \<open>Comparison\<close>

lemma compare_int64_correct: "compare_int64 a b = sgn (sint a - sint b)"
  by (auto simp: compare_int64_def word_sless_alt sgn_if)

lemma CompareWith_correct:
  assumes "integer_inv a" "integer_inv b"
  shows "CompareWith a b = sgn (int_val a - int_val b)"
proof (cases a; cases b)
  fix x y assume "a = Big x" "b = Big y"
  then show ?thesis using assms by (simp add: integer_inv_simps Compare_correct)
next
  fix x y assume "a = Mint x" "b = Big y"
  then show ?thesis using assms sint64_range [of x]
    by (auto simp: integer_inv_simps word_sless_alt IsNegative_iff sgn_if)
next
  fix x y assume "a = Big x" "b = Mint y"
  then show ?thesis using assms sint64_range [of y]
    by (auto simp: integer_inv_simps word_sless_alt IsNegative_iff sgn_if)
qed (use assms in \<open>auto simp: integer_inv_simps compare_int64_correct word_sless_alt IsNegative_iff sgn_if\<close>)

interpretation dart: int_order integer_inv int_val CompareWith
  using int_val_inj CompareWith_correct by unfold_locales blast+


subsection \<open>Bit operations\<close>

text \<open>A value of at most \<open>n + 1\<close> bits with its sign is its own truncation, and truncation
  commutes with the bit operations.\<close>

lemma signed_range_iff: "- (2 ^ n) \<le> k \<and> k < 2 ^ n \<longleftrightarrow> signed_take_bit n k = k" for k :: int
  by (auto simp: signed_take_bit_int_eq_self_iff)

lemma signed_take_bit_bit_operations:
  "signed_take_bit n (j AND k) = signed_take_bit n j AND signed_take_bit n k"
  "signed_take_bit n (j OR k) = signed_take_bit n j OR signed_take_bit n k"
  "signed_take_bit n (j XOR k) = signed_take_bit n j XOR signed_take_bit n k" for j k :: int
  by (rule bit_eqI; simp add: bit_signed_take_bit_iff bit_and_iff bit_or_iff bit_xor_iff)+

lemma bit_operation_range:
  fixes j k :: int
  assumes "- (2 ^ n) \<le> j" "j < 2 ^ n" "- (2 ^ n) \<le> k" "k < 2 ^ n"
  shows "- (2 ^ n) \<le> j AND k \<and> j AND k < 2 ^ n" "- (2 ^ n) \<le> j OR k \<and> j OR k < 2 ^ n"
    "- (2 ^ n) \<le> j XOR k \<and> j XOR k < 2 ^ n"
proof -
  have "signed_take_bit n j = j" "signed_take_bit n k = k" using assms signed_range_iff by blast+
  then show "- (2 ^ n) \<le> j AND k \<and> j AND k < 2 ^ n" "- (2 ^ n) \<le> j OR k \<and> j OR k < 2 ^ n"
    "- (2 ^ n) \<le> j XOR k \<and> j XOR k < 2 ^ n"
    unfolding signed_range_iff by (simp_all add: signed_take_bit_bit_operations)
qed

lemma sint_bit_operations:
  "sint (a AND b) = sint a AND sint b" "sint (a OR b) = sint a OR sint b"
  "sint (a XOR b) = sint a XOR sint b" "sint (NOT a) = NOT (sint a)" for a b :: int64
  using sint_ge [of a] sint_lt [of a]
  by (simp_all add: signed_and_eq signed_or_eq signed_xor_eq signed_not_eq not_int_def signed_take_bit_int_eq_self)

fun bit_operation_val :: "token \<Rightarrow> int \<Rightarrow> int \<Rightarrow> int" where
  "bit_operation_val kBIT_AND j k = j AND k"
| "bit_operation_val kBIT_OR j k = j OR k"
| "bit_operation_val kBIT_XOR j k = j XOR k"
| "bit_operation_val kind j k = 0"

abbreviation bit_kind :: "token \<Rightarrow> bool" where
  "bit_kind kind \<equiv> kind \<in> {kBIT_AND, kBIT_OR, kBIT_XOR}"

lemma word_bit_operation_correct:
  "bit_kind kind \<Longrightarrow> \<exists>r. word_bit_operation kind a b = Inr r \<and> sint r = bit_operation_val kind (sint a) (sint b)"
  by (auto simp: sint_bit_operations)

lemma bit_operation_val_range:
  assumes "bit_kind kind" "- (2 ^ n) \<le> j" "j < 2 ^ n" "- (2 ^ n) \<le> k" "k < 2 ^ n"
  shows "- (2 ^ n) \<le> bit_operation_val kind j k \<and> bit_operation_val kind j k < 2 ^ n"
  using assms(1) bit_operation_range [OF assms(2-)] by auto

lemma bigint_bit_operation_correct:
  assumes "bit_kind kind" "bigint_inv a" "bigint_inv b"
  shows "\<exists>r. bigint_bit_operation kind a b = Inr r \<and> bigint_inv r \<and>
    bval r = bit_operation_val kind (bval a) (bval b)"
  using assms(1) BitAnd_correct [OF assms(2,3)] BitOr_correct [OF assms(2,3)] BitXor_correct [OF assms(2,3)]
  by auto

lemma IntegerBitOperation_correct:
  assumes "bit_kind kind" "integer_inv a" "integer_inv b"
  shows "\<exists>r. IntegerBitOperation kind a b = Inr r \<and> integer_ok r \<and>
    int_val r = bit_operation_val kind (int_val a) (int_val b)"
proof -
  consider x y where "a = Smi x" "b = Smi y"
    | "Are64bitOperands a b" "\<not> (\<exists>x y. a = Smi x \<and> b = Smi y)" | "\<not> Are64bitOperands a b" by blast
  then show ?thesis
  proof cases
    case 1
    obtain r where "word_bit_operation kind x y = Inr r" "sint r = bit_operation_val kind (sint x) (sint y)"
      using word_bit_operation_correct [OF assms(1)] by blast
    then show ?thesis using 1 assms bit_operation_val_range [OF assms(1), of 62 "sint x" "sint y"]
      by (simp add: bind_sum_def integer_inv_simps Smi_IsValid64_iff)
  next
    case 2
    then obtain x y where xy: "AsInt64Value a = Inr x" "AsInt64Value b = Inr y" "int_val a = sint x" "int_val b = sint y"
      by (cases a; cases b) (auto simp: Are64bitOperands_def)
    obtain r where "word_bit_operation kind x y = Inr r" "sint r = bit_operation_val kind (sint x) (sint y)"
      using word_bit_operation_correct [OF assms(1)] by blast
    then show ?thesis using 2 xy Integer_New_correct [of r]
      by (cases a; cases b) (auto simp: bind_sum_def integer_inv_def)
  next
    case 3
    obtain r where "bigint_bit_operation kind (AsBigint a) (AsBigint b) = Inr r" "bigint_inv r"
      "bval r = bit_operation_val kind (int_val a) (int_val b)"
      using bigint_bit_operation_correct [OF assms(1)] AsBigint_correct assms(2,3) by metis
    then show ?thesis using 3 by (cases a; cases b) (auto simp: bind_sum_def Are64bitOperands_def)
  qed
qed

lemma Integer_bitOperation_correct:
  assumes "bit_kind kind" "integer_inv a" "integer_inv b"
  shows "computes (Integer_bitOperation kind a b) (bit_operation_val kind (int_val a) (int_val b))"
  using IntegerBitOperation_correct [OF assms] AsInteger_correct
  by (auto simp: Integer_bitOperation_def bind_sum_def simp del: IntegerBitOperation.simps)

lemma bitNegate_correct: "integer_inv i \<Longrightarrow> denotes (bitNegate i) (NOT (int_val i))"
  using Integer_New_correct AsInteger_Big BitNot_correct
  by (cases i) (auto simp: Smi_bitNegate_def Mint_bitNegate_def Bigint_bitNegate_def integer_inv_simps
      sint_bit_operations not_int_def)

subsection \<open>Arithmetic\<close>

lemma sdiv_range:
  fixes j k :: int
  assumes "- (2 ^ 62) \<le> j" "j < 2 ^ 62" "k \<noteq> 0"
  shows "- (2 ^ 63) \<le> j sdiv k" "j sdiv k < 2 ^ 63"
proof -
  have "\<bar>j sdiv k\<bar> = \<bar>j\<bar> div \<bar>k\<bar>" using assms(3)
    by (cases "j = 0") (simp_all add: signed_divide_int_def abs_mult abs_sgn_eq pos_imp_zdiv_nonneg_iff)
  also have "\<dots> \<le> \<bar>j\<bar>" using zdiv_mono2 [of "\<bar>j\<bar>" 1 "\<bar>k\<bar>"] assms(3) by simp
  finally show "- (2 ^ 63) \<le> j sdiv k" "j sdiv k < 2 ^ 63" using assms by auto
qed

lemma mod_abs_smod:
  fixes j k :: int
  assumes "k \<noteq> 0"
  shows "j mod \<bar>k\<bar> = (if j smod k < 0 then j smod k + \<bar>k\<bar> else j smod k)"
proof -
  let ?r = "j smod k" and ?q = "(j sdiv k) * sgn k"
  have "\<bar>k\<bar> * ?q = k * (j sdiv k)" using assms by (cases "0 < k") auto
  then have j: "j = \<bar>k\<bar> * ?q + ?r" using sdiv_mult_smod_eq [of j k] mult.commute [of k "j sdiv k"] by linarith
  have r: "- \<bar>k\<bar> < ?r" "?r < \<bar>k\<bar>" using smod_int_range [OF assms, of j] by auto
  have "j mod \<bar>k\<bar> = ?r + \<bar>k\<bar>" if "?r < 0"
  proof (rule int_mod_pos_eq)
    show "j = \<bar>k\<bar> * (?q - 1) + (?r + \<bar>k\<bar>)" unfolding right_diff_distrib using j by linarith
  qed (use r that in simp_all)
  moreover have "j mod \<bar>k\<bar> = ?r" if "\<not> ?r < 0"
    by (rule int_mod_pos_eq [OF j]) (use r that in simp_all)
  ultimately show ?thesis by simp
qed

lemma smi_arithmetic:
  assumes a: "integer_inv (Smi a)" and b: "integer_inv (Smi b)"
  shows "sint (a + b) = sint a + sint b" "sint (a - b) = sint a - sint b"
    and "IsInt 32 a \<Longrightarrow> IsInt 32 b \<Longrightarrow> sint (a * b) = sint a * sint b"
    and "b \<noteq> 0 \<Longrightarrow> sint (word_of_int (sint a sdiv sint b) :: int64) = sint a sdiv sint b"
proof -
  have r: "- (2 ^ 62) \<le> sint a" "sint a < 2 ^ 62" "- (2 ^ 62) \<le> sint b" "sint b < 2 ^ 62"
    using a b by (simp_all add: integer_inv_simps)
  then show "sint (a + b) = sint a + sint b" by (intro sint_add_no_wrap) simp_all
  show "sint (a - b) = sint a - sint b" using r by (intro sint_diff_no_wrap) simp_all
  show "b \<noteq> 0 \<Longrightarrow> sint (word_of_int (sint a sdiv sint b) :: int64) = sint a sdiv sint b"
    using sdiv_range [OF r(1,2), of "sint b"] by (intro sint_of_int_no_wrap) (simp_all add: signed_eq_0_iff)
  show "IsInt 32 a \<Longrightarrow> IsInt 32 b \<Longrightarrow> sint (a * b) = sint a * sint b"
  proof -
    assume "IsInt 32 a" "IsInt 32 b"
    then have "\<bar>sint a\<bar> \<le> 2 ^ 31" "\<bar>sint b\<bar> \<le> 2 ^ 31" by (auto simp: IsInt_correct)
    then have "\<bar>sint a\<bar> * \<bar>sint b\<bar> \<le> 2 ^ 31 * 2 ^ 31" by (intro mult_mono) auto
    then have "\<bar>sint a * sint b\<bar> \<le> 2 ^ 62" by (simp add: abs_mult)
    then show ?thesis by (intro sint_mult_no_wrap) auto
  qed
qed

lemma smi_remainder:
  assumes a: "integer_inv (Smi a)" and b: "integer_inv (Smi b)" and "b \<noteq> 0"
  shows "\<exists>r. smi_binop kMOD a b = Some r \<and> computes r (sint a mod \<bar>sint b\<bar>)"
proof -
  define rem where "rem = (word_of_int (sint a smod sint b) :: int64)"
  have r: "- (2 ^ 62) \<le> sint b" "sint b < 2 ^ 62" and nz: "sint b \<noteq> 0"
    using b \<open>b \<noteq> 0\<close> by (simp_all add: integer_inv_simps signed_eq_0_iff)
  have m: "- \<bar>sint b\<bar> < sint a smod sint b" "sint a smod sint b < \<bar>sint b\<bar>"
    using smod_int_range [OF nz, of "sint a"] by auto
  have s: "sint rem = sint a smod sint b" unfolding rem_def using m r by (intro sint_of_int_no_wrap) auto
  have add: "sint rem < 0 \<Longrightarrow> 0 \<le> sint b \<Longrightarrow> sint (rem + b) = sint rem + sint b"
    using m r s by (intro sint_add_no_wrap) auto
  have sub: "sint rem < 0 \<Longrightarrow> sint b < 0 \<Longrightarrow> sint (rem - b) = sint rem - sint b"
    using m r s by (intro sint_diff_no_wrap) auto
  have "smi_binop kMOD a b =
      Some (Inr (Integer_New (if rem <s 0 then if b <s 0 then rem - b else rem + b else rem)))"
    using \<open>b \<noteq> 0\<close> by (simp add: rem_def Let_def)
  moreover have "sint (if rem <s 0 then if b <s 0 then rem - b else rem + b else rem) = sint a mod \<bar>sint b\<bar>"
    using add sub s mod_abs_smod [OF nz, of "sint a"] by (auto simp: word_sless_alt)
  ultimately show ?thesis using Integer_New_correct by metis
qed

lemma bigint_binop_correct:
  assumes "BinaryOpWithTwoBigints operation (AsBigint a) (AsBigint b) = Inr r" "bigint_inv r"
  shows "computes (bigint_binop operation a b) (bval r)"
  using assms AsInteger_Big by (simp add: bigint_binop_def bind_sum_def)

lemma bigint_binops:
  assumes a: "integer_inv a" and b: "integer_inv b"
  shows "computes (bigint_binop kADD a b) (int_val a + int_val b)"
    and "computes (bigint_binop kSUB a b) (int_val a - int_val b)"
    and "min (Length (AsBigint a)) (Length (AsBigint b)) \<le> 256 \<Longrightarrow>
      computes (bigint_binop kMUL a b) (int_val a * int_val b)"
    and "256 < min (Length (AsBigint a)) (Length (AsBigint b)) \<Longrightarrow>
      bigint_binop kMUL a b = Inl Unimplemented"
    and "int_val b \<noteq> 0 \<Longrightarrow> computes (bigint_binop kTRUNCDIV a b) (int_val a sdiv int_val b)"
    and "int_val b \<noteq> 0 \<Longrightarrow> computes (bigint_binop kMOD a b) (int_val a smod int_val b)"
proof -
  note A = AsBigint_correct [OF a] and B = AsBigint_correct [OF b]
  show "computes (bigint_binop kADD a b) (int_val a + int_val b)"
    using bigint_binop_correct [of kADD a b] Add_correct [of "AsBigint a" "AsBigint b"] A B by simp
  show "computes (bigint_binop kSUB a b) (int_val a - int_val b)"
    using bigint_binop_correct [of kSUB a b] Subtract_correct [of "AsBigint a" "AsBigint b"] A B by simp
  show "computes (bigint_binop kMUL a b) (int_val a * int_val b)"
    if len: "min (Length (AsBigint a)) (Length (AsBigint b)) \<le> 256"
  proof -
    obtain r where "Multiply (AsBigint a) (AsBigint b) = Some r" "bigint_inv r" "bval r = int_val a * int_val b"
      using Multiply_correct [of "AsBigint a" "AsBigint b"] len A B by (auto simp: bigint_inv_def kMaxDigits_eq)
    then show ?thesis using bigint_binop_correct [of kMUL a b r] by (simp add: returned_def)
  qed
  show "bigint_binop kMUL a b = Inl Unimplemented" if "256 < min (Length (AsBigint a)) (Length (AsBigint b))"
    using that by (simp add: bigint_binop_def bind_sum_def returned_def Multiply_def kMaxDigits_eq)
  show "computes (bigint_binop kTRUNCDIV a b) (int_val a sdiv int_val b)"
    "computes (bigint_binop kMOD a b) (int_val a smod int_val b)" if nz: "int_val b \<noteq> 0"
  proof -
    obtain q r where qr: "DivideRemainder (AsBigint a) (AsBigint b) = Some (q, r)" "bigint_inv q" "bigint_inv r"
      "bval q = int_val a sdiv int_val b" "bval r = int_val a smod int_val b"
      using DivideRemainder_correct [of "AsBigint a" "AsBigint b"] nz A B by auto
    have "\<not> IsZero (AsBigint b)" using nz B IsZero_iff [of "AsBigint b"] by simp
    then show "computes (bigint_binop kTRUNCDIV a b) (int_val a sdiv int_val b)"
      "computes (bigint_binop kMOD a b) (int_val a smod int_val b)"
      using qr bigint_binop_correct [of kTRUNCDIV a b q] bigint_binop_correct [of kMOD a b r]
      by (simp_all add: returned_def Divide_def Modulo_def)
  qed
qed

lemma IntegerBinopHelper_other:
  "\<not> (\<exists>x y. a = Smi x \<and> b = Smi y) \<Longrightarrow> IntegerBinopHelper operation a b = bigint_binop operation a b"
  by (cases a; cases b) (simp_all add: IntegerBinopHelper_def)

lemma Length_Smi_product:
  assumes "integer_inv (Smi x)" shows "Length (AsBigint (Smi x)) \<le> 3"
proof (rule Length_le)
  note b = AsBigint_correct [OF assms]
  then show "bigint_inv (AsBigint (Smi x))" ..
  have "\<bar>bval (AsBigint (Smi x))\<bar> < 2 ^ 63" using b sint64_range [of x] assms by (auto simp: integer_inv_simps)
  then have "int (dval (chunks (AsBigint (Smi x)))) < int (beta ^ 3)" by (simp add: bval_abs beta_eq)
  then show "dval (chunks (AsBigint (Smi x))) < beta ^ 3" by (simp only: of_nat_less_iff)
qed

lemma IntegerBinopHelper_correct:
  assumes a: "integer_inv a" and b: "integer_inv b"
  shows "computes (IntegerBinopHelper kADD a b) (int_val a + int_val b)"
    and "computes (IntegerBinopHelper kSUB a b) (int_val a - int_val b)"
    and "min (Length (AsBigint a)) (Length (AsBigint b)) \<le> 256 \<Longrightarrow>
      computes (IntegerBinopHelper kMUL a b) (int_val a * int_val b)"
    and "256 < min (Length (AsBigint a)) (Length (AsBigint b)) \<Longrightarrow>
      IntegerBinopHelper kMUL a b = Inl Unimplemented"
    and "int_val b \<noteq> 0 \<Longrightarrow> computes (IntegerBinopHelper kTRUNCDIV a b) (int_val a sdiv int_val b)"
proof (goal_cases)
  case 1
  then show ?case using bigint_binops(1) [OF a b] IntegerBinopHelper_other [of a b kADD] Integer_New_correct
      smi_arithmetic(1) a b by (cases a; cases b) (auto simp: IntegerBinopHelper_def)
next
  case 2
  then show ?case using bigint_binops(2) [OF a b] IntegerBinopHelper_other [of a b kSUB] Integer_New_correct
      smi_arithmetic(2) a b by (cases a; cases b) (auto simp: IntegerBinopHelper_def)
next
  case 3
  then show ?case using bigint_binops(3) [OF a b] IntegerBinopHelper_other [of a b kMUL] Integer_New_correct
      smi_arithmetic(3) a b by (cases a; cases b) (auto simp: IntegerBinopHelper_def)
next
  case 4
  then have "\<not> (\<exists>x y. a = Smi x \<and> b = Smi y)" using Length_Smi_product a by fastforce
  then show ?case using bigint_binops(4) [OF a b 4] IntegerBinopHelper_other by simp
next
  case 5
  then show ?case using bigint_binops(5) [OF a b] IntegerBinopHelper_other [of a b kTRUNCDIV] Integer_New_correct
      smi_arithmetic(4) a b by (cases a; cases b) (auto simp: IntegerBinopHelper_def)
qed

lemma Integer_modulo_smi:
  assumes "integer_inv (Smi a)" "integer_inv (Smi b)" "sint b \<noteq> 0"
  shows "computes (Integer_moduloFromInteger (Smi a) (Smi b)) (sint a mod \<bar>sint b\<bar>)"
  using smi_remainder [OF assms(1,2)] assms(3) by (auto simp: Integer_moduloFromInteger_def IntegerBinopHelper_def)

lemma Integer_modulo_other:
  assumes "integer_inv a" "integer_inv b" "int_val b \<noteq> 0" "\<not> (\<exists>x y. a = Smi x \<and> b = Smi y)"
  shows "computes (Integer_moduloFromInteger a b) (int_val a smod int_val b)"
  using bigint_binops(6) [OF assms(1-3)] IntegerBinopHelper_other [OF assms(4)] Integer_IsZero_iff assms(2,3)
  by (simp add: Integer_moduloFromInteger_def)

text \<open>The natives as operations on the canonical integers; a product that is not
  computed is \<open>None\<close>.\<close>

definition returned_value :: "'e + 'a \<Rightarrow> 'a option" where
  "returned_value r = (case r of Inl e \<Rightarrow> None | Inr x \<Rightarrow> Some x)"

interpretation dart: int_ring integer_inv int_val "\<lambda>a b. projr (Integer_addFromInteger a b)"
  "\<lambda>a b. projr (Integer_subFromInteger a b)" "\<lambda>a b. returned_value (Integer_mulFromInteger a b)"
proof unfold_locales
  fix a b
  assume ab: "integer_inv a" "integer_inv b"
  show "denotes (projr (Integer_addFromInteger a b)) (int_val a + int_val b)"
    using IntegerBinopHelper_correct(1) [OF ab] by (auto simp: Integer_addFromInteger_def)
  show "denotes (projr (Integer_subFromInteger a b)) (int_val a - int_val b)"
    using IntegerBinopHelper_correct(2) [OF ab] by (auto simp: Integer_subFromInteger_def)
  fix r
  assume "returned_value (Integer_mulFromInteger a b) = Some r"
  then show "denotes r (int_val a * int_val b)"
    using IntegerBinopHelper_correct(3,4) [OF ab]
    by (fastforce simp: Integer_mulFromInteger_def returned_value_def split: sum.splits)
qed

text \<open>On canonical integers the natives satisfy the laws of the integers as equalities
  between the returned objects.\<close>

lemma integer_ring_laws:
  assumes "integer_inv a" and "integer_inv b" and "integer_inv c"
    and ab: "Integer_addFromInteger a b = Inr ab" and bc: "Integer_addFromInteger b c = Inr bc"
  shows "Integer_addFromInteger b a = Inr ab \<and>
    Integer_addFromInteger ab c = Integer_addFromInteger a bc \<and> Integer_subFromInteger ab b = Inr a \<and>
    (\<forall>x y z. Integer_mulFromInteger a b = Inr x \<and> Integer_mulFromInteger a c = Inr y \<and>
      Integer_mulFromInteger a bc = Inr z \<longrightarrow> Integer_addFromInteger x y = Inr z)"
proof -
  have add: "Integer_addFromInteger x y = Inr (projr (Integer_addFromInteger x y))"
    and sub: "Integer_subFromInteger x y = Inr (projr (Integer_subFromInteger x y))"
    if "integer_inv x" "integer_inv y" for x y
    using IntegerBinopHelper_correct(1,2) [OF that] by (auto simp: Integer_addFromInteger_def Integer_subFromInteger_def)
  have inv: "integer_inv ab" "integer_inv bc" using dart.add_val assms by (metis sum.sel(2))+
  have "Integer_addFromInteger x y = Inr z"
    if m: "Integer_mulFromInteger a b = Inr x" "Integer_mulFromInteger a c = Inr y" "Integer_mulFromInteger a bc = Inr z"
    for x y z
  proof -
    have "z = projr (Integer_addFromInteger x y)"
      using dart.mul_add_distrib [OF assms(1-3), of x y z] m bc by (simp add: returned_value_def)
    moreover have "integer_inv x" "integer_inv y"
      using dart.mul_val assms(1-3) m by (metis returned_value_def sum.case(2))+
    ultimately show ?thesis using add by metis
  qed
  moreover have "Integer_addFromInteger b a = Inr ab"
    using add [OF assms(2,1)] dart.add_commute [OF assms(1,2)] ab by simp
  moreover have "Integer_addFromInteger ab c = Integer_addFromInteger a bc"
    using add [OF inv(1) assms(3)] add [OF assms(1) inv(2)] dart.add_assoc [OF assms(1-3)] ab bc by simp
  moreover have "Integer_subFromInteger ab b = Inr a"
    using sub [OF inv(1) assms(2)] dart.add_sub_cancel [OF assms(1,2)] ab by simp
  ultimately show ?thesis by blast
qed

subsection \<open>Shifts\<close>

lemma HighestBit_loop_correct:
  "t \<noteq> 0 \<Longrightarrow> count \<le> HighestBit_loop t count \<and> 2 ^ (HighestBit_loop t count - count) \<le> unat t \<and>
    unat t < 2 ^ Suc (HighestBit_loop t count - count)"
proof (induction t count rule: HighestBit_loop.induct)
  case (1 t count)
  let ?t = "drop_bit 1 t"
  have h: "unat ?t = unat t div 2" by (simp add: unat_drop_bit)
  show ?case
  proof (cases "?t = 0")
    case True
    then have "unat t div 2 = 0" using h by simp
    moreover have "unat t \<noteq> 0" using "1.prems" by (simp add: unat_eq_0)
    ultimately show ?thesis using True by (subst (1 2 3) HighestBit_loop.simps) (simp add: Let_def)
  next
    case False
    define n where "n = HighestBit_loop ?t (count + 1)"
    have e: "HighestBit_loop t count = n" using False by (subst HighestBit_loop.simps) (simp add: Let_def n_def)
    have "count + 1 \<le> n" "2 ^ (n - (count + 1)) \<le> unat ?t" "unat ?t < 2 ^ Suc (n - (count + 1))"
      using "1.IH" [OF refl False False] by (simp_all add: n_def)
    moreover have "n - count = Suc (n - (count + 1))" using \<open>count + 1 \<le> n\<close> by simp
    ultimately show ?thesis unfolding e h by auto
  qed
qed

lemma HighestBit_correct:
  assumes "v \<noteq> 0"
  shows "2 ^ HighestBit v \<le> \<bar>sint v\<bar> \<and> \<bar>sint v\<bar> < 2 ^ Suc (HighestBit v)"
proof -
  let ?t = "if 0 <s v then v else - v"
  have nz: "sint v \<noteq> 0" using assms by (simp add: signed_eq_0_iff)
  have u: "int (unat ?t) = \<bar>sint v\<bar>" using uint_eq_sint [of v] uint_neg [of v] nz
    by (auto simp: word_sless_alt)
  have "2 ^ HighestBit v \<le> unat ?t \<and> unat ?t < 2 ^ Suc (HighestBit v)"
    using HighestBit_loop_correct [of ?t 0] assms by (simp add: HighestBit_def)
  then have "int (2 ^ HighestBit v) \<le> int (unat ?t) \<and> int (unat ?t) < int (2 ^ Suc (HighestBit v))"
    by (simp only: of_nat_less_iff of_nat_le_iff simp_thms)
  then show ?thesis unfolding u by simp
qed

lemma HighestBit_shift:
  assumes "v \<noteq> 0" "HighestBit v + n < N"
  shows "\<bar>sint v * 2 ^ n\<bar> < 2 ^ N"
proof -
  have "\<bar>sint v\<bar> * 2 ^ n < 2 ^ Suc (HighestBit v) * 2 ^ n"
    using HighestBit_correct [OF assms(1)] by (intro mult_strict_right_mono) simp_all
  also have "\<dots> = 2 ^ (Suc (HighestBit v) + n)" by (simp add: power_add)
  also have "\<dots> \<le> 2 ^ N" using assms(2) by (intro power_increasing) simp_all
  finally show ?thesis by (simp add: abs_mult)
qed

lemma sint_push_bit: "\<bar>sint v * 2 ^ n\<bar> < 2 ^ 63 \<Longrightarrow> sint (push_bit n v) = sint v * 2 ^ n" for v :: int64
proof -
  assume "\<bar>sint v * 2 ^ n\<bar> < 2 ^ 63"
  then have "sint (word_of_int (sint v * 2 ^ n) :: int64) = sint v * 2 ^ n"
    by (intro sint_of_int_no_wrap) auto
  then show ?thesis by (simp add: push_bit_eq_mult)
qed

lemma sint_shift_right: "sint (signed_drop_bit n v) = sint v div 2 ^ n" for v :: int64
  by (simp add: sint_signed_drop_bit_eq drop_bit_eq_div)

lemma shift_right_all: "sint v div 2 ^ 63 = sint v div 2 ^ n" if "63 \<le> n" for v :: int64
proof -
  have m: "(2 :: int) ^ 63 \<le> 2 ^ n" using that by (intro power_increasing) simp_all
  show ?thesis
  proof (cases "0 \<le> sint v")
    case True
    then show ?thesis using sint64_range [of v] m by (simp add: div_pos_pos_trivial)
  next
    case False
    then have "sint v div 2 ^ n = - 1" if "(2 :: int) ^ 63 \<le> 2 ^ n" for n
      using sint64_range [of v] that by (intro int_div_pos_eq [of _ _ _ "sint v + 2 ^ n"]) auto
    from this [OF m] this [of 63] show ?thesis by simp
  qed
qed

lemma SmiShiftOperation_correct:
  assumes v: "integer_inv (Smi v)"
  shows "\<exists>r. SmiShiftOperation kSHL v n = Inr r \<and> integer_ok r \<and> int_val r = sint v * 2 ^ n"
    and "\<exists>r. SmiShiftOperation kSHR v n = Inr r \<and> integer_ok r \<and> int_val r = sint v div 2 ^ n"
proof -
  have ok: "integer_ok (Smi v)" using v by (simp add: integer_inv_def)
  let ?h = "HighestBit v + n"
  show "\<exists>r. SmiShiftOperation kSHL v n = Inr r \<and> integer_ok r \<and> int_val r = sint v * 2 ^ n"
  proof (cases "v = 0 \<or> n = 0")
    case True
    then show ?thesis using ok by auto
  next
    case False
    consider "63 \<le> ?h" | "62 \<le> ?h" "?h < 63" | "?h < 62" by linarith
    then show ?thesis
    proof cases
      case 1
      then show ?thesis using False AsBigint_correct [OF v] ShiftLeft_correct [of "AsBigint (Smi v)" n]
        by (simp add: Let_def Smi_kBits_def Mint_kBits_def del: AsBigint.simps)
    next
      case 2
      then show ?thesis using False Integer_New_correct [of "push_bit n v"] HighestBit_shift [of v n 63]
        by (simp add: Let_def Smi_kBits_def Mint_kBits_def sint_push_bit integer_inv_def)
    next
      case 3
      then have "\<bar>sint v * 2 ^ n\<bar> < 2 ^ 62" using False HighestBit_shift by blast
      then show ?thesis using False 3 sint_push_bit [of v n]
        by (auto simp: Let_def Smi_kBits_def Smi_IsValid64_iff)
    qed
  qed
  define k where "k = (if 64 \<le> n then 63 else n)"
  have "sint v div 2 ^ k = sint v div 2 ^ n" using shift_right_all [of n v] by (simp add: k_def)
  moreover have "- (2 ^ 62) \<le> sint v div 2 ^ k" "sint v div 2 ^ k < 2 ^ 62"
  proof -
    have "0 < (2 :: int) ^ k" by simp
    then show "- (2 ^ 62) \<le> sint v div 2 ^ k" "sint v div 2 ^ k < 2 ^ 62"
      using v zdiv_mono2_neg [of "sint v" 1 "2 ^ k"] zdiv_mono2 [of "sint v" 1 "2 ^ k"]
        pos_imp_zdiv_neg_iff [of "2 ^ k" "sint v"]
      by (cases "0 \<le> sint v"; simp add: integer_inv_simps; linarith)+
  qed
  moreover have "SmiShiftOperation kSHR v n = Inr (Smi (signed_drop_bit k v))"
    by (simp add: Let_def kBitsPerWord_def k_def)
  ultimately show "\<exists>r. SmiShiftOperation kSHR v n = Inr r \<and> integer_ok r \<and> int_val r = sint v div 2 ^ n"
    by (simp add: sint_shift_right Smi_IsValid64_iff)
qed

lemma bigint_shift_correct:
  assumes "bigint_inv b"
  shows "\<exists>r. bigint_shift kSHL b n = Inr r \<and> integer_ok r \<and> int_val r = bval b * 2 ^ n"
    and "\<exists>r. bigint_shift kSHR b n = Inr r \<and> integer_ok r \<and> int_val r = bval b div 2 ^ n"
  using ShiftLeft_correct [OF assms] ShiftRight_correct [OF assms] by (simp_all add: bigint_shift_def)

lemma ShiftOperationHelper_correct:
  assumes i: "integer_inv i" and n: "0 \<le> sint amount"
  shows "\<exists>r. ShiftOperationHelper kSHL i amount = Inr r \<and> integer_ok r \<and> int_val r = int_val i * 2 ^ unat amount"
    and "\<exists>r. ShiftOperationHelper kSHR i amount = Inr r \<and> integer_ok r \<and> int_val r = int_val i div 2 ^ unat amount"
proof -
  let ?n = "unat amount"
  note defs = ShiftOperationHelper_def word_sless_alt Let_def
  have mint: "\<exists>r. ShiftOperationHelper kSHL (Mint v) amount = Inr r \<and> integer_ok r \<and> int_val r = sint v * 2 ^ ?n"
    "\<exists>r. ShiftOperationHelper kSHR (Mint v) amount = Inr r \<and> integer_ok r \<and> int_val r = sint v div 2 ^ ?n"
    if "integer_inv (Mint v)" for v
  proof -
    have nz: "v \<noteq> 0" using that by (auto simp: integer_inv_simps)
    note b = NewFromInt64_correct [of v] bigint_shift_correct [of "NewFromInt64 v" ?n]
    show "\<exists>r. ShiftOperationHelper kSHL (Mint v) amount = Inr r \<and> integer_ok r \<and> int_val r = sint v * 2 ^ ?n"
      using n nz b Integer_New_correct [of "push_bit ?n v"] HighestBit_shift [of v ?n 63]
      by (simp add: defs Mint_kBits_def sint_push_bit integer_inv_def)
    show "\<exists>r. ShiftOperationHelper kSHR (Mint v) amount = Inr r \<and> integer_ok r \<and> int_val r = sint v div 2 ^ ?n"
      using n b Integer_New_correct [of "signed_drop_bit ?n v"]
      by (simp add: defs sint_shift_right integer_inv_def)
  qed
  show "\<exists>r. ShiftOperationHelper kSHL i amount = Inr r \<and> integer_ok r \<and> int_val r = int_val i * 2 ^ ?n"
    using i n mint(1) SmiShiftOperation_correct(1) [of _ ?n] bigint_shift_correct(1)
    by (cases i) (auto simp: defs integer_inv_simps(3) simp del: SmiShiftOperation.simps)
  show "\<exists>r. ShiftOperationHelper kSHR i amount = Inr r \<and> integer_ok r \<and> int_val r = int_val i div 2 ^ ?n"
    using i n mint(2) SmiShiftOperation_correct(2) [of _ ?n] bigint_shift_correct(2)
    by (cases i) (auto simp: defs integer_inv_simps(3) simp del: SmiShiftOperation.simps)
qed

lemma shift_natives_correct:
  assumes "integer_inv i" "0 \<le> sint amount"
  shows "computes (Smi_shlFromInt i amount) (int_val i * 2 ^ unat amount)"
    and "computes (Smi_shrFromInt i amount) (int_val i div 2 ^ unat amount)"
  using ShiftOperationHelper_correct [OF assms] AsInteger_correct
  by (auto simp: Smi_shlFromInt_def Smi_shrFromInt_def bind_sum_def)

lemma shift_natives_negative:
  "sint amount < 0 \<Longrightarrow> Smi_shlFromInt i amount = Inl IllegalArgument"
  "sint amount < 0 \<Longrightarrow> Smi_shrFromInt i amount = Inl IllegalArgument"
  by (simp_all add: Smi_shlFromInt_def Smi_shrFromInt_def ShiftOperationHelper_def word_sless_alt bind_sum_def)

subsection \<open>Properties\<close>

text \<open>C9: Addition, subtraction and truncating division of two canonical integers (with a
  non-zero divisor) always return the canonical integer of the exact result: no sum of small
  integers wraps around, and every change between the three representations is exact. A
  product is exact too, unless both factors have more than 256 digits.\<close>

theorem integer_arithmetic_exact:
  assumes "integer_inv a" and "integer_inv b"
  shows "computes (Integer_addFromInteger a b) (int_val a + int_val b) \<and>
    computes (Integer_subFromInteger a b) (int_val a - int_val b) \<and>
    (int_val b \<noteq> 0 \<longrightarrow> computes (Integer_truncDivFromInteger a b) (int_val a sdiv int_val b)) \<and>
    (if 256 < min (Length (AsBigint a)) (Length (AsBigint b))
     then Integer_mulFromInteger a b = Inl Unimplemented
     else computes (Integer_mulFromInteger a b) (int_val a * int_val b))"
  using IntegerBinopHelper_correct [OF assms]
  by (simp add: Integer_addFromInteger_def Integer_subFromInteger_def Integer_truncDivFromInteger_def
      Integer_mulFromInteger_def not_less min_less_iff_conj del: min_less_iff_conj)

theorem integer_arithmetic_exact_witness:
  "computes (Integer_addFromInteger (Smi 4611686018427387903) (Smi 1)) 4611686018427387904 \<and>
   computes (Integer_truncDivFromInteger (Smi (- 7)) (Smi 2)) (- 3)"
proof -
  have "integer_inv (Smi 4611686018427387903)" "integer_inv (Smi 1)" "integer_inv (Smi (- 7))" "integer_inv (Smi 2)"
    by (simp_all add: integer_inv_simps)
  then show ?thesis
    using integer_arithmetic_exact [of "Smi 4611686018427387903" "Smi 1"]
      integer_arithmetic_exact [of "Smi (- 7)" "Smi 2"]
    by (simp add: signed_divide_int_def)
qed

text \<open>C10: The comparison of canonical integers of any two representations is the comparison
  of their values, so \<open>>\<close> and \<open>==\<close> decide the order and the equality of the integers, and
  only one object denotes a given integer.\<close>

theorem integer_compare_exact:
  assumes "integer_inv a" and "integer_inv b"
  shows "CompareWith a b = sgn (int_val a - int_val b) \<and>
    (Integer_greaterThanFromInteger a b \<longleftrightarrow> int_val b < int_val a) \<and>
    (Integer_equalToInteger a b \<longleftrightarrow> int_val a = int_val b) \<and>
    (Integer_equalToInteger a b \<longleftrightarrow> a = b)"
  using dart.cmp_val [OF assms] dart.cmp_greater_iff [OF assms] dart.cmp_eq_0_iff [OF assms] dart.val_eq_iff [OF assms]
  by (simp add: Integer_greaterThanFromInteger_def Integer_equalToInteger_def)

theorem integer_compare_exact_witness:
  "Integer_greaterThanFromInteger (Smi (- 1)) (Mint (- 4611686018427387905))"
  using integer_compare_exact [of "Smi (- 1)" "Mint (- 4611686018427387905)"] by (simp add: integer_inv_simps)

text \<open>C11: The bitwise natives return the canonical integer of the two's complement
  operation on the exact values, for every combination of representations; negating the
  bits of a bigint yields a bigint.\<close>

theorem integer_bit_natives_exact:
  assumes "integer_inv a" and "integer_inv b"
  shows "computes (Integer_bitAndFromInteger a b) (int_val a AND int_val b) \<and>
    computes (Integer_bitOrFromInteger a b) (int_val a OR int_val b) \<and>
    computes (Integer_bitXorFromInteger a b) (int_val a XOR int_val b) \<and>
    denotes (bitNegate a) (NOT (int_val a)) \<and> (IsBigint a \<longrightarrow> IsBigint (bitNegate a))"
proof -
  have "IsBigint (bitNegate a)" if "IsBigint a"
  proof -
    from that obtain b where b: "a = Big b" by (cases a) auto
    have "bval (BitNot b) = - bval b - 1" "bigint_inv (BitNot b)"
      using assms(1) b BitNot_correct [of b] by (simp_all add: integer_inv_simps not_int_def)
    then show ?thesis using assms(1) b
      by (auto simp: integer_inv_simps Bigint_bitNegate_def FitsIntoSmi_correct FitsIntoMint_correct)
  qed
  moreover have "computes (Integer_bitOperation kind a b) (bit_operation_val kind (int_val a) (int_val b))"
    if "bit_kind kind" for kind using Integer_bitOperation_correct [OF that assms] .
  note this [of kBIT_AND] this [of kBIT_OR] this [of kBIT_XOR]
  ultimately show ?thesis using bitNegate_correct [OF assms(1)]
    unfolding Integer_bitAndFromInteger_def Integer_bitOrFromInteger_def Integer_bitXorFromInteger_def
      bit_operation_val.simps by blast
qed

theorem integer_bit_natives_exact_witness:
  "computes (Integer_bitAndFromInteger (Mint 9223372036854775807) (Smi (- 16))) 9223372036854775792 \<and>
   denotes (bitNegate (Smi 4611686018427387903)) (- 4611686018427387904)"
  using integer_bit_natives_exact [of "Mint 9223372036854775807" "Smi (- 16)"]
    integer_bit_natives_exact [of "Smi 4611686018427387903" "Smi 0"]
  by (simp add: integer_inv_simps)

text \<open>C12: The shift natives multiply by, or divide and round down by, the power of two, for
  every shift amount; a negative amount raises the illegal-argument exception.\<close>

theorem integer_shift_natives_exact:
  assumes "integer_inv a"
  shows "if sint amount < 0
    then Smi_shlFromInt a amount = Inl IllegalArgument \<and> Smi_shrFromInt a amount = Inl IllegalArgument
    else computes (Smi_shlFromInt a amount) (int_val a * 2 ^ unat amount) \<and>
      computes (Smi_shrFromInt a amount) (int_val a div 2 ^ unat amount)"
  using shift_natives_correct [OF assms, of amount] shift_natives_negative by simp

theorem integer_shift_natives_exact_witness:
  "computes (Smi_shlFromInt (Smi (- 3)) 62) (- 13835058055282163712) \<and>
   computes (Smi_shrFromInt (Smi (- 3)) 70) (- 1) \<and> Smi_shlFromInt (Smi 1) (- 1) = Inl IllegalArgument"
  using integer_shift_natives_exact [of "Smi (- 3)" 62] integer_shift_natives_exact [of "Smi (- 3)" 70]
    integer_shift_natives_exact [of "Smi 1" "- 1"]
  by (simp add: integer_inv_simps)

text \<open>C14: \<open>%\<close> follows two conventions. For two small integers the result is the remainder in
  \<open>0 \<le> r < |b|\<close>; when an operand is a 64-bit integer or a bigint, the result has the sign of
  the dividend. Both agree exactly when the dividend is not negative or the division leaves
  no remainder.\<close>

theorem modulo_conventions:
  assumes "integer_inv a" and "integer_inv b" and "int_val b \<noteq> 0"
  defines "euclidean \<equiv> int_val a mod \<bar>int_val b\<bar>" and "truncated \<equiv> int_val a smod int_val b"
  shows "computes (Integer_moduloFromInteger a b)
      (if \<exists>x y. a = Smi x \<and> b = Smi y then euclidean else truncated) \<and>
    (euclidean = truncated \<longleftrightarrow> 0 \<le> truncated)"
proof
  show "computes (Integer_moduloFromInteger a b)
      (if \<exists>x y. a = Smi x \<and> b = Smi y then euclidean else truncated)"
    using Integer_modulo_smi Integer_modulo_other [OF assms(1-3)] assms by auto
  show "euclidean = truncated \<longleftrightarrow> 0 \<le> truncated"
    using mod_abs_smod [OF assms(3), of "int_val a"] assms(3) by (auto simp: euclidean_def truncated_def)
qed

theorem modulo_conventions_witness:
  "computes (Integer_moduloFromInteger (Smi (- 5)) (Smi 3)) 1 \<and>
   computes (Integer_moduloFromInteger (Mint (- 4611686018427387905)) (Smi 3)) (- 2)"
  using modulo_conventions [of "Smi (- 5)" "Smi 3"] modulo_conventions [of "Mint (- 4611686018427387905)" "Smi 3"]
  by (simp add: integer_inv_simps signed_modulo_int_def signed_divide_int_def)

text \<open>C15: \<open>Bigint::Equals\<close> compares magnitudes only: it holds exactly when the absolute values
  agree, so a bigint equals its negation, which the comparison operators keep apart.\<close>

theorem bigint_equals_ignores_sign:
  assumes "bigint_inv a" and "bigint_inv b"
  shows "(Integer_Equals (Big a) (Big b) \<longleftrightarrow> \<bar>bval a\<bar> = \<bar>bval b\<bar>) \<and>
    Integer_Equals (Big a) (Big (ToggleSign a)) \<and>
    (Integer_equalToInteger (Big a) (Big (ToggleSign a)) \<longleftrightarrow> bval a = 0)"
proof -
  have eq: "Bigint_Equals x (Big y) \<longleftrightarrow> \<bar>bval x\<bar> = \<bar>bval y\<bar>" if "bigint_inv x" "bigint_inv y" for x y
  proof -
    have l: "Length x = length (chunks x)" "Length y = length (chunks y)"
      using that by (simp_all add: bigint_inv_def bigint_ok_def)
    have "Bigint_Equals x (Big y) \<longleftrightarrow> chunks x = chunks y"
      unfolding Bigint_Equals.simps GetChunkAt_def l list_eq_iff_nth_eq [of "chunks x"] by auto
    also have "\<dots> \<longleftrightarrow> dval (chunks x) = dval (chunks y)"
    proof
      assume e: "dval (chunks x) = dval (chunks y)"
      then have "length (chunks x) = length (chunks y)"
        using dval_mono_length [OF that] dval_mono_length [OF that(2,1)] l by (cases "Length x" "Length y" rule: linorder_cases) simp_all
      then show "chunks x = chunks y" using e that by (intro dval_inj) (simp_all add: bigint_inv_def bigint_ok_def)
    qed simp
    finally show ?thesis by (simp add: bval_abs)
  qed
  have ok: "bigint_ok a" using assms(1) by (simp add: bigint_inv_def)
  have "Compare a (ToggleSign a) = sgn (bval a - bval (ToggleSign a))" using assms(1) by (intro Compare_correct) simp_all
  then have "Integer_equalToInteger (Big a) (Big (ToggleSign a)) \<longleftrightarrow> bval a = 0"
    using ok by (simp add: Integer_equalToInteger_def sgn_if)
  then show ?thesis using eq [OF assms] eq [of a "ToggleSign a"] assms ok by (simp del: Bigint_Equals.simps)
qed

theorem bigint_equals_ignores_sign_witness:
  "Integer_Equals (Big (new_bigint [0, 0, 256])) (Big (ToggleSign (new_bigint [0, 0, 256])))"
  using bigint_equals_ignores_sign [of "new_bigint [0, 0, 256]" Zero] by (simp add: beta_eq)

text \<open>C13: An integer literal in decimal notation, with or without a minus sign and of any
  length, becomes the canonical integer of its value.\<close>

theorem integer_literal_exact:
  assumes "dec_text ds" and "ds \<noteq> []"
  shows "\<exists>i j. Integer_NewFromString ds = Some i \<and> denotes i (int (decval (rev ds))) \<and>
    Integer_NewFromString (CHR ''-'' # ds) = Some j \<and> denotes j (- int (decval (rev ds)))"
proof -
  obtain r where r: "NewFromCString ds = Some r" "bigint_inv r" "bval r = int (decval (rev ds))"
    using FromDecimalCString_correct [OF assms(1)] NewFromCString_decimal [OF assms] by auto
  then have "NewFromCString (CHR ''-'' # ds) = Some (ToggleSign r)"
    by (subst NewFromCString.simps) simp
  moreover have "Integer_NewFromString str = Some (AsInteger (Big b))" if "NewFromCString str = Some b" for str b
    using that by (simp add: Integer_NewFromString_def)
  ultimately show ?thesis using r AsInteger_Big [of r] AsInteger_Big [of "ToggleSign r"]
    by (simp add: bigint_inv_def del: AsInteger.simps)
qed

theorem integer_literal_exact_witness:
  "\<exists>j. Integer_NewFromString ''-4611686018427387905'' = Some j \<and> denotes j (- 4611686018427387905)"
  using integer_literal_exact [of "''4611686018427387905''"] by (auto simp: IsDecimalDigit_def)

end
