(* ===== verification/Probing.thy ===== *)
theory Probing
  imports Dart_Prelude
begin

text \<open>
  Positions of tables with linear probing: the hash map of the embedder
  (\<open>runtime/bin/hashmap.cc\<close>) and the port map of the VM (\<open>runtime/vm/port.cc\<close>) both search
  from the initial position of a key and wrap around at the end of the table.
\<close>

subsection \<open>Cyclic distance\<close>

text \<open>The number of steps from position \<open>i\<close> to position \<open>j\<close> of a table with \<open>n\<close> entries.\<close>

definition dist :: "nat \<Rightarrow> nat \<Rightarrow> nat \<Rightarrow> nat" where
  "dist n i j = (if i \<le> j then j - i else j + n - i)"

lemma dist_less: "i < n \<Longrightarrow> j < n \<Longrightarrow> dist n i j < n"
  by (auto simp: dist_def)

lemma dist_self [simp]: "dist n i i = 0"
  by (simp add: dist_def)

lemma dist_eq_0_iff: "i < n \<Longrightarrow> j < n \<Longrightarrow> dist n i j = 0 \<longleftrightarrow> i = j"
  by (auto simp: dist_def)

lemma dist_inj: "i < n \<Longrightarrow> j < n \<Longrightarrow> k < n \<Longrightarrow> dist n i j = dist n i k \<longleftrightarrow> j = k"
  by (auto simp: dist_def)

lemma dist_path:
  "s < n \<Longrightarrow> c < n \<Longrightarrow> i < n \<Longrightarrow> y < n \<Longrightarrow> dist n s c < dist n s i \<Longrightarrow> dist n c y < dist n c i \<Longrightarrow>
    dist n s y < dist n s i"
  by (auto simp: dist_def split: if_splits)

text \<open>Some position is the nearest one that satisfies a predicate.\<close>

lemma first_position:
  assumes "e < n" "P e"
  obtains q where "q < n" "P q" "\<And>k. k < n \<Longrightarrow> dist n s k < dist n s q \<Longrightarrow> \<not> P k"
proof -
  obtain q where "q < n \<and> P q" "\<And>k. k < n \<and> P k \<Longrightarrow> dist n s q \<le> dist n s k"
    using assms ex_has_least_nat [of "\<lambda>k. k < n \<and> P k" e "dist n s"] by blast
  then show thesis using that [of q] by (meson not_le)
qed

lemma first_position_all:
  assumes "e < n" "P e"
  obtains q where "q < n" "P q" "\<forall>k < n. dist n s k < dist n s q \<longrightarrow> \<not> P k"
  using first_position [of e n P s] assms by blast

text \<open>A search that steps from \<open>p\<close> to the nearest position \<open>q\<close> where it stops.\<close>

lemma probe_induct:
  assumes "p < n" "q < n" "\<And>k. k < n \<Longrightarrow> dist n p k < dist n p q \<Longrightarrow> ok k"
    and "P q" and step: "\<And>i. i < n \<Longrightarrow> ok i \<Longrightarrow> P ((i + 1) mod n) \<Longrightarrow> P i"
  shows "P p"
  using assms(1-4)
proof (induction "dist n p q" arbitrary: p)
  case 0
  then show ?case using dist_eq_0_iff by simp
next
  case (Suc d)
  let ?p = "(p + 1) mod n"
  have p': "?p < n" using Suc.prems(1) by simp
  have next_p: "?p = (if p + 1 = n then 0 else p + 1)" using Suc.prems(1) by simp
  have ne: "p \<noteq> q" using Suc.hyps(2) by auto
  have "P ?p"
  proof (rule Suc.hyps(1) [OF _ p' Suc.prems(2) _ Suc.prems(4)])
    show "d = dist n ?p q" using Suc.hyps(2) Suc.prems(1,2) ne unfolding next_p by (auto simp: dist_def split: if_splits)
    show "ok k" if k: "k < n" "dist n ?p k < dist n ?p q" for k
    proof (rule Suc.prems(3) [OF k(1)])
      show "dist n p k < dist n p q"
        using k Suc.prems(1,2) ne unfolding next_p by (auto simp: dist_def split: if_splits)
    qed
  qed
  moreover have "ok p" using Suc.prems(3) [OF Suc.prems(1)] Suc.hyps(2) by simp
  ultimately show ?case using step Suc.prems(1) by blast
qed

subsection \<open>Searching lists\<close>

lemma find_unique:
  assumes "i < length xs" "P (xs ! i)" "\<And>j. j < length xs \<Longrightarrow> P (xs ! j) \<Longrightarrow> j = i"
  shows "List.find P xs = Some (xs ! i)"
proof -
  have "\<not> P (xs ! j)" if "j < i" for j using assms(3) [of j] assms(1) that by auto
  then show ?thesis unfolding find_Some_iff using assms(1,2) by blast
qed

lemma find_none: "(\<And>j. j < length xs \<Longrightarrow> \<not> P (xs ! j)) \<Longrightarrow> List.find P xs = None"
  by (auto simp: find_None_iff in_set_conv_nth)

end
