(* ===== verification/Dictionary_Interface.thy ===== *)
theory Dictionary_Interface
  imports Dart_Prelude
begin

text \<open>
  The contract of a mutable dictionary with room for a limited number of insertions. Its
  operations may fail to return (\<open>None\<close>); the laws say that they do return while there is
  room, and which dictionary they leave. A client that runs any sequence of operations then
  sees a finite map. The hash map of the embedder (\<open>runtime/bin/hashmap.cc\<close>) provides it.
\<close>

datatype ('k, 'v) dict_op = Put 'k 'v | Del 'k | Empty

fun op_key_ok :: "('k \<Rightarrow> bool) \<Rightarrow> ('k, 'v) dict_op \<Rightarrow> bool" where
  "op_key_ok ok (Put k v) = ok k"
| "op_key_ok ok (Del k) = ok k"
| "op_key_ok ok Empty = True"

fun op_map :: "('k, 'v) dict_op \<Rightarrow> ('k \<rightharpoonup> 'v) \<Rightarrow> ('k \<rightharpoonup> 'v)" where
  "op_map (Put k v) d = d(k \<mapsto> v)"
| "op_map (Del k) d = d(k := None)"
| "op_map Empty d = Map.empty"

fun run_ops :: "('o \<Rightarrow> 's \<Rightarrow> 's option) \<Rightarrow> 'o list \<Rightarrow> 's \<Rightarrow> 's option" where
  "run_ops step [] s = Some s"
| "run_ops step (op # ops) s = Option.bind (step op s) (run_ops step ops)"

locale limited_dictionary =
  fixes inv :: "nat \<Rightarrow> 's \<Rightarrow> bool" and ok :: "'k \<Rightarrow> bool" and lookup :: "'s \<Rightarrow> 'k \<Rightarrow> 'v option"
    and step :: "('k, 'v) dict_op \<Rightarrow> 's \<Rightarrow> 's option"
  assumes step_law: "inv (Suc n) s \<Longrightarrow> op_key_ok ok op \<Longrightarrow>
    \<exists>s'. step op s = Some s' \<and> inv n s' \<and> (\<forall>k. ok k \<longrightarrow> lookup s' k = op_map op (lookup s) k)"
begin

lemma op_map_cong: "op_key_ok ok op \<Longrightarrow> (\<And>k. ok k \<Longrightarrow> d k = d' k) \<Longrightarrow> ok k \<Longrightarrow> op_map op d k = op_map op d' k"
  by (cases op) auto

lemma run_refines_map:
  assumes "inv (length ops + n) s" "list_all (op_key_ok ok) ops" "\<And>k. ok k \<Longrightarrow> lookup s k = d k"
  shows "\<exists>s'. run_ops step ops s = Some s' \<and> inv n s' \<and> (\<forall>k. ok k \<longrightarrow> lookup s' k = fold op_map ops d k)"
  using assms
proof (induction ops arbitrary: s d)
  case (Cons op ops)
  have "inv (Suc (length ops + n)) s" "op_key_ok ok op" using Cons.prems by simp_all
  then obtain s1 where s1: "step op s = Some s1" "inv (length ops + n) s1"
      "\<And>k. ok k \<Longrightarrow> lookup s1 k = op_map op (lookup s) k"
    using step_law by blast
  moreover have "lookup s1 k = op_map op d k" if "ok k" for k
    using s1(3) [OF that] op_map_cong [OF \<open>op_key_ok ok op\<close> Cons.prems(3) that] by simp
  ultimately show ?case using Cons.IH [of s1 "op_map op d"] Cons.prems(2) by simp
qed simp

end

end
