(* ===== verification/Hash_Map.thy ===== *)
theory Hash_Map
  imports Dart_Utils Probing Dictionary_Interface
begin

text \<open>
  The open-addressing hash map of the embedder (\<open>runtime/bin/hashmap.h\<close> and
  \<open>runtime/bin/hashmap.cc\<close>). Keys and values are pointers, the null pointer is 0, and an
  \<open>Entry*\<close> is the index of the entry in the table. The function \<open>hm_match\<close> is a pointer the
  client supplies, a field of the state here. Fresh memory is modelled as zero entries: the
  value and the hash of an entry whose key is null are never read.

  \<open>Probe\<close> and \<open>Remove\<close> loop until they meet an empty entry, and would not stop on a full
  table; they are partial functions, \<open>None\<close> when they do not return.
\<close>

subsection \<open>The map and its operations\<close>

record entry =
  entry_key :: uint64
  entry_value :: uint64
  entry_hash :: uint32

record hashmap =
  hm_match :: "uint64 \<Rightarrow> uint64 \<Rightarrow> bool"
  hm_map :: "entry list"
  hm_capacity :: uint32
  hm_occupancy :: uint32

definition SamePointerValue :: "uint64 \<Rightarrow> uint64 \<Rightarrow> bool" where
  "SamePointerValue key1 key2 \<longleftrightarrow> key1 = key2"

definition map_end :: "hashmap \<Rightarrow> nat" where
  "map_end m = unat (hm_capacity m)"

abbreviation key_at :: "hashmap \<Rightarrow> nat \<Rightarrow> uint64" where
  "key_at m i \<equiv> entry_key (hm_map m ! i)"

definition Clear :: "hashmap \<Rightarrow> hashmap" where
  "Clear m = m\<lparr>hm_map := map (\<lambda>p. p\<lparr>entry_key := 0\<rparr>) (hm_map m), hm_occupancy := 0\<rparr>"

definition Initialize :: "uint32 \<Rightarrow> hashmap \<Rightarrow> hashmap" where
  "Initialize capacity m =
     Clear (m\<lparr>hm_map := replicate (unat capacity) \<lparr>entry_key = 0, entry_value = 0, entry_hash = 0\<rparr>,
              hm_capacity := capacity\<rparr>)"

definition HashMap :: "(uint64 \<Rightarrow> uint64 \<Rightarrow> bool) \<Rightarrow> uint32 \<Rightarrow> hashmap" where
  "HashMap match initial_capacity =
     Initialize initial_capacity \<lparr>hm_match = match, hm_map = [], hm_capacity = 0, hm_occupancy = 0\<rparr>"

definition initial_position :: "hashmap \<Rightarrow> uint32 \<Rightarrow> nat" where
  "initial_position m hash = unat (hash AND (hm_capacity m - 1))"

definition next_position :: "hashmap \<Rightarrow> nat \<Rightarrow> nat" where
  "next_position m p = (if p + 1 \<ge> map_end m then 0 else p + 1)"

partial_function (option) probe_loop :: "hashmap \<Rightarrow> uint64 \<Rightarrow> uint32 \<Rightarrow> nat \<Rightarrow> nat option" where
  [code]: "probe_loop m key hash p =
     (if key_at m p \<noteq> 0 \<and> (hash \<noteq> entry_hash (hm_map m ! p) \<or> \<not> hm_match m key (key_at m p))
      then probe_loop m key hash (next_position m p)
      else Some p)"

definition Probe :: "hashmap \<Rightarrow> uint64 \<Rightarrow> uint32 \<Rightarrow> nat option" where
  "Probe m key hash = probe_loop m key hash (initial_position m hash)"

definition put_entry :: "nat \<Rightarrow> entry \<Rightarrow> hashmap \<Rightarrow> hashmap" where
  "put_entry p e m = m\<lparr>hm_map := (hm_map m)[p := e]\<rparr>"

definition set_value :: "nat \<Rightarrow> uint64 \<Rightarrow> hashmap \<Rightarrow> hashmap" where
  "set_value p value m = put_entry p ((hm_map m ! p)\<lparr>entry_value := value\<rparr>) m"

text \<open>\<open>Lookup\<close> grows the table with \<open>Resize\<close>, and \<open>Resize\<close> inserts the old entries with
  \<open>Lookup\<close>. Both are one recursive function on the call that is running: an insertion, or
  the loop of \<open>Resize\<close> with the rest of the old table and the number of entries left.\<close>

datatype call = LookupInsert uint64 uint32 | Rehash "entry list" uint32

partial_function (option) run_call :: "call \<Rightarrow> hashmap \<Rightarrow> (hashmap \<times> nat) option" where
  [code]: "run_call c m =
     (case c of
        LookupInsert key hash \<Rightarrow>
          Option.bind (Probe m key hash) (\<lambda>p.
            if key_at m p \<noteq> 0 then Some (m, p)
            else
              let m = put_entry p \<lparr>entry_key = key, entry_value = 0, entry_hash = hash\<rparr> m;
                  m = m\<lparr>hm_occupancy := hm_occupancy m + 1\<rparr>
              in if hm_occupancy m + hm_occupancy m div 4 \<ge> hm_capacity m
                 then Option.bind (run_call (Rehash (hm_map m) (hm_occupancy m)) (Initialize (hm_capacity m * 2) m)) (\<lambda>(m, _).
                      Option.bind (Probe m key hash) (\<lambda>p. Some (m, p)))
                 else Some (m, p))
      | Rehash ps n \<Rightarrow>
          if n > 0
          then (case ps of
                  [] \<Rightarrow> None
                | p # ps \<Rightarrow>
                    if entry_key p \<noteq> 0
                    then Option.bind (run_call (LookupInsert (entry_key p) (entry_hash p)) m) (\<lambda>(m, q).
                         run_call (Rehash ps (n - 1)) (set_value q (entry_value p) m))
                    else run_call (Rehash ps n) m)
          else Some (m, 0))"

definition Lookup :: "hashmap \<Rightarrow> uint64 \<Rightarrow> uint32 \<Rightarrow> bool \<Rightarrow> (hashmap \<times> nat option) option" where
  "Lookup m key hash ins =
     (if ins then map_option (\<lambda>(m, p). (m, Some p)) (run_call (LookupInsert key hash) m)
      else map_option (\<lambda>p. (m, if key_at m p \<noteq> 0 then Some p else None)) (Probe m key hash))"

definition Resize :: "hashmap \<Rightarrow> hashmap option" where
  "Resize m = map_option fst (run_call (Rehash (hm_map m) (hm_occupancy m)) (Initialize (hm_capacity m * 2) m))"

text \<open>The loop of \<open>Remove\<close> looks for the entry to clear: \<open>candidate\<close> and \<open>next\<close> are indices.\<close>

definition movable :: "nat \<Rightarrow> nat \<Rightarrow> nat \<Rightarrow> bool" where
  "movable candidate next start \<longleftrightarrow>
     next > candidate \<and> (start \<le> candidate \<or> start > next) \<or>
     next < candidate \<and> (start \<le> candidate \<and> start > next)"

partial_function (option) remove_loop :: "hashmap \<Rightarrow> nat \<Rightarrow> nat \<Rightarrow> (hashmap \<times> nat) option" where
  [code]: "remove_loop m candidate next =
     (let next = (if next + 1 = map_end m then 0 else next + 1)
      in if key_at m next = 0 then Some (m, candidate)
         else
           let start = initial_position m (entry_hash (hm_map m ! next))
           in if movable candidate next start
              then remove_loop (put_entry candidate (hm_map m ! next) m) next next
              else remove_loop m candidate next)"

definition Remove :: "hashmap \<Rightarrow> uint64 \<Rightarrow> uint32 \<Rightarrow> hashmap option" where
  "Remove m key hash =
     Option.bind (Probe m key hash) (\<lambda>candidate.
       if key_at m candidate = 0 then Some m
       else
         Option.bind (remove_loop m candidate candidate) (\<lambda>(m, candidate).
           Some ((put_entry candidate ((hm_map m ! candidate)\<lparr>entry_key := 0\<rparr>) m)\<lparr>hm_occupancy := hm_occupancy m - 1\<rparr>)))"

text \<open>Iteration; the position before the first entry is \<open>- 1\<close>.\<close>

function next_loop :: "hashmap \<Rightarrow> nat \<Rightarrow> nat option" where
  "next_loop m p =
     (if p < map_end m then if key_at m p \<noteq> 0 then Some p else next_loop m (p + 1) else None)"
  by pat_completeness auto
termination by (relation "measure (\<lambda>(m, p). map_end m - p)") auto

declare next_loop.simps [simp del]

definition Next :: "hashmap \<Rightarrow> int \<Rightarrow> nat option" where
  "Next m p = next_loop m (nat (p + 1))"

definition Start :: "hashmap \<Rightarrow> nat option" where
  "Start m = Next m (- 1)"

subsection \<open>Well-formed tables\<close>

text \<open>\<open>occupied\<close> marks the entries in use, and \<open>reachable_entries\<close> says that the search for
  the entry at position \<open>i\<close> does not meet an unoccupied entry before it.\<close>

definition table_ok :: "hashmap \<Rightarrow> bool" where
  "table_ok m \<longleftrightarrow> length (hm_map m) = map_end m \<and> (\<exists>k. unat (hm_capacity m) = 2 ^ k)"

abbreviation start_at :: "hashmap \<Rightarrow> nat \<Rightarrow> nat" where
  "start_at m i \<equiv> initial_position m (entry_hash (hm_map m ! i))"

definition reachable_entries :: "hashmap \<Rightarrow> bool" where
  "reachable_entries m \<longleftrightarrow>
     (\<forall>i < map_end m. key_at m i \<noteq> 0 \<longrightarrow>
       (\<forall>k < map_end m. dist (map_end m) (start_at m i) k < dist (map_end m) (start_at m i) i \<longrightarrow> key_at m k \<noteq> 0))"

lemma reachableD:
  "reachable_entries m \<Longrightarrow> i < map_end m \<Longrightarrow> key_at m i \<noteq> 0 \<Longrightarrow> k < map_end m \<Longrightarrow>
    dist (map_end m) (start_at m i) k < dist (map_end m) (start_at m i) i \<Longrightarrow> key_at m k \<noteq> 0"
  unfolding reachable_entries_def by blast

definition matches_at :: "hashmap \<Rightarrow> uint64 \<Rightarrow> uint32 \<Rightarrow> nat \<Rightarrow> bool" where
  "matches_at m key hash i \<longleftrightarrow>
     key_at m i \<noteq> 0 \<and> entry_hash (hm_map m ! i) = hash \<and> hm_match m key (key_at m i)"

lemma table_ok_pos: "table_ok m \<Longrightarrow> 0 < map_end m"
  by (auto simp: table_ok_def map_end_def)

lemma initial_position_mod: "unat (hm_capacity m) = 2 ^ k \<Longrightarrow> initial_position m hash = unat hash mod map_end m"
proof -
  assume c: "unat (hm_capacity m) = 2 ^ k"
  have "of_nat (unat (hm_capacity m)) = hm_capacity m" by simp
  then have "hm_capacity m = 2 ^ k" unfolding c by simp
  then have "hm_capacity m - 1 = mask k" by (simp add: mask_eq_exp_minus_1)
  then show ?thesis using c by (simp add: initial_position_def map_end_def unat_and_mask)
qed

lemma initial_position_less: "table_ok m \<Longrightarrow> initial_position m hash < map_end m"
  using initial_position_mod table_ok_pos by (fastforce simp: table_ok_def)

lemma next_position_less: "0 < map_end m \<Longrightarrow> next_position m p < map_end m"
  by (simp add: next_position_def)

lemma dist_next:
  assumes "p < map_end m" "q < map_end m" "p \<noteq> q"
  shows "Suc (dist (map_end m) (next_position m p) q) = dist (map_end m) p q"
  using assms by (auto simp: dist_def next_position_def)

subsection \<open>Probing\<close>

abbreviation stops_at :: "hashmap \<Rightarrow> uint64 \<Rightarrow> uint32 \<Rightarrow> nat \<Rightarrow> bool" where
  "stops_at m key hash i \<equiv> key_at m i = 0 \<or> matches_at m key hash i"

lemma probe_loop_first:
  assumes "p < map_end m" "q < map_end m" "stops_at m key hash q"
    and "\<And>k. k < map_end m \<Longrightarrow> dist (map_end m) p k < dist (map_end m) p q \<Longrightarrow> \<not> stops_at m key hash k"
  shows "probe_loop m key hash p = Some q"
  using assms
proof (induction "dist (map_end m) p q" arbitrary: p)
  case 0
  then have "p = q" using dist_eq_0_iff by simp
  then show ?case using 0 by (subst probe_loop.simps) (auto simp: matches_at_def)
next
  case (Suc d)
  let ?n = "map_end m" and ?p = "next_position m p"
  have ne: "p \<noteq> q" using Suc.hyps(2) by auto
  have p': "?p < ?n" using Suc.prems(1) by (intro next_position_less) simp
  have d: "Suc (dist ?n ?p q) = dist ?n p q" using Suc.prems(1,2) ne by (rule dist_next)
  have "probe_loop m key hash ?p = Some q"
  proof (rule Suc.hyps(1))
    fix k assume k: "k < ?n" "dist ?n ?p k < dist ?n ?p q"
    have "k \<noteq> p" using k(2) Suc.prems(1,2) ne by (auto simp: dist_def next_position_def split: if_splits)
    then have "Suc (dist ?n ?p k) = dist ?n p k" using Suc.prems(1) k(1) dist_next by simp
    then show "\<not> stops_at m key hash k" using Suc.prems(4) k d by simp
  qed (use Suc.prems d Suc.hyps(2) p' in simp_all)
  moreover have "\<not> stops_at m key hash p" using Suc.prems(1,4) ne Suc.hyps(2) by simp
  ultimately show ?case by (subst probe_loop.simps) (auto simp: matches_at_def)
qed

lemma Probe_first:
  assumes ok: "table_ok m" and e: "e < map_end m" "key_at m e = 0"
  shows "\<exists>q < map_end m. Probe m key hash = Some q \<and> stops_at m key hash q \<and>
    (\<forall>k < map_end m. dist (map_end m) (initial_position m hash) k < dist (map_end m) (initial_position m hash) q
       \<longrightarrow> \<not> stops_at m key hash k)"
proof -
  let ?n = "map_end m" and ?h = "initial_position m hash"
  obtain q where q: "q < ?n" "stops_at m key hash q"
      and first: "\<forall>k < ?n. dist ?n ?h k < dist ?n ?h q \<longrightarrow> \<not> stops_at m key hash k"
    using first_position [of e ?n "stops_at m key hash" ?h] e by blast
  then have "Probe m key hash = Some q"
    unfolding Probe_def using initial_position_less [OF ok] q(1,2) by (intro probe_loop_first) auto
  then show ?thesis using q first by blast
qed

lemma Probe_correct:
  assumes ok: "table_ok m" "reachable_entries m" and e: "e < map_end m" "key_at m e = 0"
  shows "\<exists>q < map_end m. Probe m key hash = Some q \<and>
    (if \<exists>j < map_end m. matches_at m key hash j then matches_at m key hash q
     else key_at m q = 0 \<and> (\<forall>k < map_end m. dist (map_end m) (initial_position m hash) k
       < dist (map_end m) (initial_position m hash) q \<longrightarrow> key_at m k \<noteq> 0))"
proof -
  let ?n = "map_end m" and ?h = "initial_position m hash"
  obtain q where q: "q < ?n" "Probe m key hash = Some q" "stops_at m key hash q"
      "\<forall>k < ?n. dist ?n ?h k < dist ?n ?h q \<longrightarrow> \<not> stops_at m key hash k"
    using Probe_first [OF ok(1) e] by blast
  have "matches_at m key hash q" if j: "j < ?n" "matches_at m key hash j" for j
  proof -
    have "dist ?n ?h q \<le> dist ?n ?h j" using q(4) j by (meson not_le)
    moreover have "key_at m k \<noteq> 0" if "k < ?n" "dist ?n ?h k < dist ?n ?h j" for k
      using ok(2) that j unfolding reachable_entries_def matches_at_def by blast
    ultimately have "key_at m q \<noteq> 0 \<or> q = j"
      using q(1) j(1) dist_inj [of ?h ?n q j] initial_position_less [OF ok(1)] by (metis le_neq_implies_less)
    then show ?thesis using q(3) j(2) by (auto simp: matches_at_def)
  qed
  then show ?thesis using q by auto
qed

subsection \<open>The map a table stands for\<close>

definition hm_lookup :: "hashmap \<Rightarrow> uint64 \<Rightarrow> uint64 option" where
  "hm_lookup m k =
     map_option entry_value (List.find (\<lambda>e. entry_key e \<noteq> 0 \<and> hm_match m k (entry_key e)) (hm_map m))"

definition used :: "hashmap \<Rightarrow> nat set" where
  "used m = {i. i < map_end m \<and> key_at m i \<noteq> 0}"

definition hm_wf :: "(uint64 \<Rightarrow> uint32) \<Rightarrow> hashmap \<Rightarrow> bool" where
  "hm_wf h m \<longleftrightarrow> table_ok m \<and> reachable_entries m \<and>
     (\<forall>i \<in> used m. entry_hash (hm_map m ! i) = h (key_at m i)) \<and>
     (\<forall>i \<in> used m. \<forall>j \<in> used m. hm_match m (key_at m i) (key_at m j) \<longrightarrow> i = j) \<and>
     unat (hm_occupancy m) = card (used m)"

definition load_ok :: "nat \<Rightarrow> hashmap \<Rightarrow> bool" where
  "load_ok n m \<longleftrightarrow> n + n div 4 < map_end m"

definition hm_inv :: "(uint64 \<Rightarrow> uint32) \<Rightarrow> hashmap \<Rightarrow> bool" where
  "hm_inv h m \<longleftrightarrow> hm_wf h m \<and> load_ok (unat (hm_occupancy m)) m"

lemma update_simps [simp]:
  "map_end (put_entry p e m) = map_end m" "map_end (m\<lparr>hm_occupancy := x\<rparr>) = map_end m"
  "initial_position (put_entry p e m) = initial_position m"
  "initial_position (m\<lparr>hm_occupancy := x\<rparr>) = initial_position m"
  "hm_match (put_entry p e m) = hm_match m" "hm_occupancy (put_entry p e m) = hm_occupancy m"
  "hm_capacity (put_entry p e m) = hm_capacity m" "hm_map (put_entry p e m) = (hm_map m)[p := e]"
  by (simp_all add: put_entry_def map_end_def initial_position_def fun_eq_iff)

definition inserted :: "nat \<Rightarrow> entry \<Rightarrow> hashmap \<Rightarrow> hashmap" where
  "inserted q e m = (put_entry q e m)\<lparr>hm_occupancy := hm_occupancy m + 1\<rparr>"

lemma inserted_simps [simp]:
  "map_end (inserted q e m) = map_end m" "initial_position (inserted q e m) = initial_position m"
  "hm_match (inserted q e m) = hm_match m" "hm_capacity (inserted q e m) = hm_capacity m"
  "hm_map (inserted q e m) = (hm_map m)[q := e]" "hm_occupancy (inserted q e m) = hm_occupancy m + 1"
  by (simp_all add: inserted_def)

lemma finite_used [simp]: "finite (used m)"
  by (simp add: used_def)

lemma used_less: "card (used m) < map_end m \<Longrightarrow> \<exists>e < map_end m. key_at m e = 0"
proof (rule ccontr)
  assume lt: "card (used m) < map_end m" and no: "\<not> (\<exists>e < map_end m. key_at m e = 0)"
  then have "used m = {..<map_end m}" by (auto simp: used_def)
  then show False using lt by simp
qed

lemma load_ok_less: "load_ok n m \<Longrightarrow> n < map_end m"
  by (simp add: load_ok_def)

lemma hm_wfD:
  assumes "hm_wf h m"
  shows "table_ok m" "reachable_entries m" "length (hm_map m) = map_end m"
    and "i \<in> used m \<Longrightarrow> entry_hash (hm_map m ! i) = h (key_at m i)"
    and "i \<in> used m \<Longrightarrow> j \<in> used m \<Longrightarrow> hm_match m (key_at m i) (key_at m j) \<Longrightarrow> i = j"
    and "unat (hm_occupancy m) = card (used m)"
  using assms unfolding hm_wf_def table_ok_def by blast+

text \<open>Filling the empty entry \<open>q\<close>.\<close>

lemma inserted_at:
  assumes "length (hm_map m) = map_end m" "q < map_end m"
  shows "hm_map (inserted q e m) ! q = e" "i \<noteq> q \<Longrightarrow> hm_map (inserted q e m) ! i = hm_map m ! i"
    and "entry_key e \<noteq> 0 \<Longrightarrow> key_at (inserted q e m) i \<noteq> 0 \<longleftrightarrow> i = q \<or> key_at m i \<noteq> 0"
    and "entry_key e \<noteq> 0 \<Longrightarrow> used (inserted q e m) = insert q (used m)"
  using assms by (auto simp: nth_list_update used_def)

lemma inserted_reachable:
  assumes ok: "table_ok m" "reachable_entries m" and q: "q < map_end m" and e: "entry_key e \<noteq> 0"
    and path: "\<forall>k < map_end m. dist (map_end m) (initial_position m (entry_hash e)) k
       < dist (map_end m) (initial_position m (entry_hash e)) q \<longrightarrow> key_at m k \<noteq> 0"
  shows "reachable_entries (inserted q e m)"
  unfolding reachable_entries_def inserted_simps(1,2)
proof (intro allI impI)
  let ?m = "inserted q e m" and ?n = "map_end m"
  have len: "length (hm_map m) = ?n" using ok by (simp add: table_ok_def)
  note at = inserted_at [OF len q, where e = e]
  fix i k
  assume i: "i < ?n" "key_at ?m i \<noteq> 0" and k: "k < ?n"
    "dist ?n (initial_position m (entry_hash (hm_map ?m ! i))) k < dist ?n (initial_position m (entry_hash (hm_map ?m ! i))) i"
  have "key_at m k \<noteq> 0"
  proof (cases "i = q")
    case True
    then have "dist ?n (initial_position m (entry_hash e)) k < dist ?n (initial_position m (entry_hash e)) q"
      using k(2) at(1) by (simp only:)
    then show ?thesis using path k(1) by blast
  next
    case False
    then have eq: "hm_map ?m ! i = hm_map m ! i" by (rule at(2))
    show ?thesis using reachableD [OF ok(2) i(1) _ k(1)] i(2) k(2) unfolding eq by blast
  qed
  then show "key_at ?m k \<noteq> 0" using at(3) [OF e] by blast
qed

text \<open>Writing the value of an entry, and an empty table.\<close>

lemma set_value_simps [simp]:
  "map_end (set_value q v m) = map_end m" "initial_position (set_value q v m) = initial_position m"
  "hm_match (set_value q v m) = hm_match m" "hm_capacity (set_value q v m) = hm_capacity m"
  "hm_occupancy (set_value q v m) = hm_occupancy m"
  "length (hm_map (set_value q v m)) = length (hm_map m)"
  by (simp_all add: set_value_def)

lemma set_value_at:
  assumes "length (hm_map m) = map_end m" "q < map_end m"
  shows "key_at (set_value q v m) i = key_at m i" "entry_hash (hm_map (set_value q v m) ! i) = entry_hash (hm_map m ! i)"
    and "entry_value (hm_map (set_value q v m) ! i) = (if i = q then v else entry_value (hm_map m ! i))"
    and "used (set_value q v m) = used m"
  using assms by (auto simp: set_value_def nth_list_update used_def)

lemma set_value_wf:
  assumes "hm_wf h m" "q < map_end m" shows "hm_wf h (set_value q v m)"
  using assms(1) set_value_at [OF hm_wfD(3) [OF assms(1)] assms(2), of v]
  unfolding hm_wf_def table_ok_def reachable_entries_def by simp

lemma Initialize_simps [simp]:
  "hm_match (Initialize c m) = hm_match m" "hm_capacity (Initialize c m) = c" "hm_occupancy (Initialize c m) = 0"
  "map_end (Initialize c m) = unat c" "used (Initialize c m) = {}" "length (hm_map (Initialize c m)) = unat c"
  "hm_lookup (Initialize c m) k = None"
  by (auto simp: Initialize_def Clear_def map_end_def used_def hm_lookup_def find_None_iff)

lemma Initialize_wf: "unat c = 2 ^ k \<Longrightarrow> hm_wf h (Initialize c m)"
  by (auto simp: hm_wf_def table_ok_def reachable_entries_def Initialize_def Clear_def map_end_def used_def)

text \<open>While \<open>Remove\<close> runs, the candidate \<open>c\<close> is the entry that no longer counts. Every entry
  in the interval after \<open>c\<close> up to \<open>x\<close> is in use and has its initial position in the interval.\<close>

definition hole_ok :: "(uint64 \<Rightarrow> uint32) \<Rightarrow> hashmap \<Rightarrow> nat \<Rightarrow> nat \<Rightarrow> bool" where
  "hole_ok h m c x \<longleftrightarrow> table_ok m \<and> c \<in> used m \<and> x < map_end m \<and>
     (\<forall>i \<in> used m - {c}. entry_hash (hm_map m ! i) = h (key_at m i) \<and>
       (\<forall>k < map_end m. dist (map_end m) (start_at m i) k < dist (map_end m) (start_at m i) i \<longrightarrow> key_at m k \<noteq> 0)) \<and>
     (\<forall>i \<in> used m - {c}. \<forall>j \<in> used m - {c}. hm_match m (key_at m i) (key_at m j) \<longrightarrow> i = j) \<and>
     (\<forall>i < map_end m. 0 < dist (map_end m) c i \<and> dist (map_end m) c i \<le> dist (map_end m) c x \<longrightarrow>
       key_at m i \<noteq> 0 \<and> 0 < dist (map_end m) c (start_at m i) \<and>
       dist (map_end m) c (start_at m i) \<le> dist (map_end m) c i)"

lemma hole_okD:
  assumes "hole_ok h m c x"
  shows "table_ok m" "c \<in> used m" "x < map_end m" "length (hm_map m) = map_end m"
    and "i \<in> used m - {c} \<Longrightarrow> entry_hash (hm_map m ! i) = h (key_at m i)"
    and "i \<in> used m - {c} \<Longrightarrow> k < map_end m \<Longrightarrow>
      dist (map_end m) (start_at m i) k < dist (map_end m) (start_at m i) i \<Longrightarrow> key_at m k \<noteq> 0"
    and "i \<in> used m - {c} \<Longrightarrow> j \<in> used m - {c} \<Longrightarrow> hm_match m (key_at m i) (key_at m j) \<Longrightarrow> i = j"
    and "i < map_end m \<Longrightarrow> 0 < dist (map_end m) c i \<Longrightarrow> dist (map_end m) c i \<le> dist (map_end m) c x \<Longrightarrow>
      key_at m i \<noteq> 0 \<and> 0 < dist (map_end m) c (start_at m i) \<and>
      dist (map_end m) c (start_at m i) \<le> dist (map_end m) c i"
  using assms unfolding hole_ok_def table_ok_def by blast+

lemma movable_iff:
  "c < n \<Longrightarrow> y < n \<Longrightarrow> s < n \<Longrightarrow> y \<noteq> c \<Longrightarrow> movable c y s \<longleftrightarrow> \<not> (0 < dist n c s \<and> dist n c s \<le> dist n c y)"
  by (auto simp: movable_def dist_def)

lemma hole_ok_start:
  assumes "hm_wf h m" "c \<in> used m"
  shows "hole_ok h m c c"
proof -
  note D = hm_wfD [OF assms(1)]
  have c: "c < map_end m" using assms(2) by (simp add: used_def)
  have "key_at m k \<noteq> 0" if "i \<in> used m" "k < map_end m"
    "dist (map_end m) (start_at m i) k < dist (map_end m) (start_at m i) i" for i k
    using reachableD [OF D(2) _ _ that(2,3)] that(1) by (simp add: used_def)
  moreover have "\<not> (0 < dist (map_end m) c i \<and> dist (map_end m) c i \<le> dist (map_end m) c c)" for i by auto
  ultimately show ?thesis unfolding hole_ok_def using D(1,4,5) assms(2) c by blast
qed

lemma hole_advance:
  assumes hole: "hole_ok h m c x" and y: "y = next_position m x" "y \<noteq> c" "key_at m y \<noteq> 0"
    and stay: "\<not> movable c y (start_at m y)"
  shows "hole_ok h m c y"
proof -
  let ?n = "map_end m"
  note D = hole_okD [OF hole]
  have n: "0 < ?n" "c < ?n" "y < ?n" using table_ok_pos [OF D(1)] D(2) next_position_less [of m x] y(1) by (auto simp: used_def)
  have dy: "dist ?n c y = Suc (dist ?n c x)" using n D(3) y(1,2) by (auto simp: dist_def next_position_def split: if_splits)
  have s: "start_at m y < ?n" by (rule initial_position_less [OF D(1)])
  have st: "0 < dist ?n c (start_at m y) \<and> dist ?n c (start_at m y) \<le> dist ?n c y"
    using stay movable_iff [OF n(2,3) s y(2)] by blast
  have "key_at m i \<noteq> 0 \<and> 0 < dist ?n c (start_at m i) \<and> dist ?n c (start_at m i) \<le> dist ?n c i"
    if i: "i < ?n" "0 < dist ?n c i" "dist ?n c i \<le> dist ?n c y" for i
  proof (cases "i = y")
    case True
    then show ?thesis using y(3) st by simp
  next
    case False
    then have "dist ?n c i \<noteq> dist ?n c y" using dist_inj [OF n(2) i(1) n(3)] by simp
    then show ?thesis using D(8) [OF i(1,2)] i(3) dy by linarith
  qed
  then show ?thesis using hole n(3) unfolding hole_ok_def by blast
qed

text \<open>Moving the entry at \<open>y\<close> to the candidate: entry \<open>i\<close> of the new table is entry
  \<open>moved_from c y i\<close> of the old one.\<close>

definition moved_from :: "nat \<Rightarrow> nat \<Rightarrow> nat \<Rightarrow> nat" where
  "moved_from c y i = (if i = c then y else i)"

lemma moved_entries:
  assumes "length (hm_map m) = map_end m" "c \<in> used m" "y \<in> used m" "y \<noteq> c"
  defines "m' \<equiv> put_entry c (hm_map m ! y) m"
  shows "hm_map m' ! i = hm_map m ! moved_from c y i" "key_at m' i \<noteq> 0 \<longleftrightarrow> key_at m i \<noteq> 0" "used m' = used m"
    and "(!) (hm_map m') ` (used m - {y}) = (!) (hm_map m) ` (used m - {c})"
proof -
  have c: "c < map_end m" "key_at m c \<noteq> 0" "key_at m y \<noteq> 0" using assms(2,3) by (simp_all add: used_def)
  show at: "hm_map m' ! i = hm_map m ! moved_from c y i" for i
    using c(1) assms(1) by (simp add: m'_def moved_from_def)
  show key_iff: "key_at m' i \<noteq> 0 \<longleftrightarrow> key_at m i \<noteq> 0" for i unfolding at using c by (simp add: moved_from_def)
  show "used m' = used m" unfolding used_def key_iff by (simp add: m'_def)
  have "moved_from c y ` (used m - {y}) = used m - {c}"
    using assms(2-4) by (auto simp: moved_from_def image_iff)
  then show "(!) (hm_map m') ` (used m - {y}) = (!) (hm_map m) ` (used m - {c})"
    unfolding at by (metis image_image)
qed

lemma hole_move:
  assumes hole: "hole_ok h m c x" and y: "y \<in> used m" "y \<noteq> c"
    and move: "movable c y (start_at m y)"
  shows "hole_ok h (put_entry c (hm_map m ! y) m) y y"
proof -
  let ?n = "map_end m" and ?m = "put_entry c (hm_map m ! y) m"
  note D = hole_okD [OF hole] and M = moved_entries [OF hole_okD(4) [OF hole] hole_okD(2) [OF hole] y]
  have c: "c < ?n" "y < ?n" using D(2) y(1) by (simp_all add: used_def)
  have s: "start_at m y < ?n" by (rule initial_position_less [OF D(1)])
  have src: "moved_from c y i \<in> used m - {c}" if "i \<in> used m - {y}" for i
    using that y by (simp add: moved_from_def)
  have before: "dist ?n (start_at m y) k < dist ?n (start_at m y) y"
    if "k < ?n" "dist ?n (start_at m y) k < dist ?n (start_at m y) c" for k
    using that move c y(2) s by (auto simp: movable_def dist_def split: if_splits)
  have path: "key_at ?m k \<noteq> 0" if i: "i \<in> used m - {y}" and k: "k < ?n"
    "dist ?n (initial_position m (entry_hash (hm_map ?m ! i))) k < dist ?n (initial_position m (entry_hash (hm_map ?m ! i))) i"
    for i k
  proof -
    have "dist ?n (start_at m (moved_from c y i)) k < dist ?n (start_at m (moved_from c y i)) (moved_from c y i)"
      using k(2) before [OF k(1)] unfolding M(1) by (cases "i = c") (simp_all add: moved_from_def)
    then show ?thesis using D(6) [OF src [OF i] k(1)] M(2) by blast
  qed
  have hash: "entry_hash (hm_map ?m ! i) = h (key_at ?m i)" if "i \<in> used m - {y}" for i
    unfolding M(1) using D(5) [OF src [OF that]] .
  have unique: "i = j" if ij: "i \<in> used m - {y}" "j \<in> used m - {y}" "hm_match m (key_at ?m i) (key_at ?m j)" for i j
  proof -
    have "moved_from c y i = moved_from c y j" using ij(3) unfolding M(1) by (rule D(7) [OF src [OF ij(1)] src [OF ij(2)]])
    then show ?thesis using ij(1,2) by (auto simp: moved_from_def split: if_splits)
  qed
  have "table_ok ?m" using D(1) by (simp add: table_ok_def)
  moreover have "\<not> (0 < dist ?n y i \<and> dist ?n y i \<le> dist ?n y y)" for i by auto
  ultimately show ?thesis
    unfolding hole_ok_def M(3) update_simps(1,3,5) using path hash unique c(2) y(1) by blast
qed

lemma remove_loop_correct:
  assumes "hole_ok h m c x" "e < map_end m" "key_at m e = 0"
  shows "\<exists>m' c' x'. remove_loop m c x = Some (m', c') \<and> hole_ok h m' c' x' \<and> key_at m' (next_position m' x') = 0 \<and>
    used m' = used m \<and> hm_match m' = hm_match m \<and> hm_capacity m' = hm_capacity m \<and>
    hm_occupancy m' = hm_occupancy m \<and> (!) (hm_map m') ` (used m - {c'}) = (!) (hm_map m) ` (used m - {c})"
  using assms
proof (induction "dist (map_end m) x e" arbitrary: m c x rule: less_induct)
  case less
  let ?n = "map_end m" and ?y = "next_position m x"
  note D = hole_okD [OF less.prems(1)]
  have c: "c < ?n" "key_at m c \<noteq> 0" using D(2) by (simp_all add: used_def)
  have y: "?y < ?n" "(if x + 1 = ?n then 0 else x + 1) = ?y"
    using c(1) next_position_less [of m x] D(3) by (auto simp: next_position_def)
  show ?case
  proof (cases "key_at m ?y = 0")
    case True
    then show ?thesis using less.prems(1) y(2) by (subst remove_loop.simps) (auto simp: Let_def)
  next
    case False
    have xe: "x \<noteq> e"
    proof
      assume "x = e"
      then show False using D(8) [of e] less.prems(2,3) c dist_eq_0_iff [OF c(1) less.prems(2)] by fastforce
    qed
    have less: "dist ?n ?y e < dist ?n x e" using dist_next [OF D(3) less.prems(2) xe] by simp
    have yc: "?y \<noteq> c"
    proof
      assume "?y = c"
      then have "dist ?n c e \<le> dist ?n c x" using D(3) c(1) less.prems(2)
        by (auto simp: dist_def next_position_def split: if_splits)
      then show False using D(8) [of e] less.prems(2,3) c dist_eq_0_iff [OF c(1) less.prems(2)] by fastforce
    qed
    have uy: "?y \<in> used m" using y(1) False by (simp add: used_def)
    show ?thesis
    proof (cases "movable c ?y (start_at m ?y)")
      case True
      let ?m = "put_entry c (hm_map m ! ?y) m"
      note M = moved_entries [OF D(4,2) uy yc]
      have "remove_loop m c x = remove_loop ?m ?y ?y"
        using False True y(2) by (subst remove_loop.simps) (simp add: Let_def)
      moreover have "hole_ok h ?m ?y ?y" by (rule hole_move [OF less.prems(1) uy yc True])
      moreover have "key_at ?m e = 0" using M(2) [of e] less.prems(3) by blast
      ultimately show ?thesis using less.hyps [of ?m ?y ?y] less less.prems(2) M(3,4) by simp
    next
      case stay: False
      have "remove_loop m c x = remove_loop m c ?y"
        using False stay y(2) by (subst remove_loop.simps) (simp add: Let_def)
      then show ?thesis
        using less.hyps [of m ?y c] less less.prems hole_advance [OF less.prems(1) refl yc False stay] by simp
    qed
  qed
qed

definition cleared :: "nat \<Rightarrow> hashmap \<Rightarrow> hashmap" where
  "cleared c m = (put_entry c ((hm_map m ! c)\<lparr>entry_key := 0\<rparr>) m)\<lparr>hm_occupancy := hm_occupancy m - 1\<rparr>"

lemma cleared_simps [simp]:
  "map_end (cleared c m) = map_end m" "initial_position (cleared c m) = initial_position m"
  "hm_match (cleared c m) = hm_match m" "hm_capacity (cleared c m) = hm_capacity m"
  "hm_occupancy (cleared c m) = hm_occupancy m - 1"
  by (simp_all add: cleared_def)

lemma cleared_at:
  assumes "length (hm_map m) = map_end m" "c < map_end m"
  shows "i \<noteq> c \<Longrightarrow> hm_map (cleared c m) ! i = hm_map m ! i" "key_at (cleared c m) i \<noteq> 0 \<longleftrightarrow> i \<noteq> c \<and> key_at m i \<noteq> 0"
    and "used (cleared c m) = used m - {c}" "length (hm_map (cleared c m)) = map_end m"
  using assms by (auto simp: cleared_def nth_list_update used_def)

text \<open>Clearing the candidate hides no other entry: a search that passes it would also pass
  the empty entry that ends the interval.\<close>

lemma hole_not_on_path:
  assumes hole: "hole_ok h m c x" and free: "key_at m (next_position m x) = 0" and i: "i \<in> used m - {c}"
  shows "\<not> dist (map_end m) (start_at m i) c < dist (map_end m) (start_at m i) i"
proof
  let ?n = "map_end m" and ?y = "next_position m x" and ?s = "start_at m i"
  note D = hole_okD [OF hole]
  assume on: "dist ?n ?s c < dist ?n ?s i"
  have n: "c < ?n" "i < ?n" "key_at m c \<noteq> 0" "key_at m i \<noteq> 0" "i \<noteq> c" using D(2) i by (simp_all add: used_def)
  have s: "?s < ?n" by (rule initial_position_less [OF D(1)])
  have y: "?y < ?n" "?y \<noteq> c" "?y \<noteq> i" using n free next_position_less [of m x] by auto
  have dy: "dist ?n c ?y = Suc (dist ?n c x)" using n(1) D(3) y(2) by (auto simp: dist_def next_position_def split: if_splits)
  show False
  proof (cases "dist ?n c i \<le> dist ?n c x")
    case True
    then have "0 < dist ?n c ?s" "dist ?n c ?s \<le> dist ?n c i" using D(8) [OF n(2)] n dist_eq_0_iff [of c ?n i] by auto
    then show False using on n s by (auto simp: dist_def split: if_splits)
  next
    case False
    have "dist ?n c ?y \<noteq> dist ?n c i" using dist_inj [OF n(1) y(1) n(2)] y(3) by simp
    then have ci: "dist ?n c ?y < dist ?n c i" using False dy by linarith
    have "dist ?n ?s ?y < dist ?n ?s i" by (rule dist_path [OF s n(1,2) y(1) on ci])
    then show False using D(6) [OF i y(1)] free by blast
  qed
qed

lemma cleared_wf:
  assumes hole: "hole_ok h m c x" and free: "key_at m (next_position m x) = 0"
    and occ: "unat (hm_occupancy m) = card (used m)"
  shows "hm_wf h (cleared c m)"
proof -
  let ?n = "map_end m" and ?m = "cleared c m"
  note D = hole_okD [OF hole]
  have c: "c < ?n" using D(2) by (simp add: used_def)
  note C = cleared_at [OF D(4) c]
  have "reachable_entries ?m"
    unfolding reachable_entries_def cleared_simps(1,2)
  proof (intro allI impI)
    fix i k
    assume "i < ?n" "key_at ?m i \<noteq> 0" and k: "k < ?n"
      and d: "dist ?n (initial_position m (entry_hash (hm_map ?m ! i))) k < dist ?n (initial_position m (entry_hash (hm_map ?m ! i))) i"
    then have i: "i \<in> used m - {c}" using C(2) by (auto simp: used_def)
    then have at: "hm_map ?m ! i = hm_map m ! i" using C(1) by simp
    have "key_at m k \<noteq> 0" using D(6) [OF i k] d unfolding at by blast
    moreover have "k \<noteq> c" using hole_not_on_path [OF hole free i] d unfolding at by blast
    ultimately show "key_at ?m k \<noteq> 0" using C(2) by blast
  qed
  moreover have "table_ok ?m" using D(1) C(4) by (simp add: table_ok_def)
  moreover have "entry_hash (hm_map ?m ! i) = h (key_at ?m i)" if "i \<in> used m - {c}" for i
    using D(5) [OF that] C(1) [of i] that by simp
  moreover have "i = j" if "i \<in> used m - {c}" "j \<in> used m - {c}" "hm_match ?m (key_at ?m i) (key_at ?m j)" for i j
    using D(7) [OF that(1,2)] that C(1) [of i] C(1) [of j] by simp
  moreover have "unat (hm_occupancy ?m) = card (used ?m)"
  proof -
    have "0 < card (used m)" using D(2) card_gt_0_iff by fastforce
    then have "hm_occupancy m \<noteq> 0" using occ by auto
    then show ?thesis using occ D(2) C(3) by (simp add: unat_minus_one)
  qed
  ultimately show ?thesis unfolding hm_wf_def C(3) by blast
qed

lemma Clear_simps [simp]:
  "hm_match (Clear m) = hm_match m" "hm_capacity (Clear m) = hm_capacity m" "hm_occupancy (Clear m) = 0"
  "map_end (Clear m) = map_end m" "hm_lookup (Clear m) k = None"
  by (auto simp: Clear_def map_end_def hm_lookup_def find_None_iff)

lemma Clear_inv:
  assumes "hm_inv h m" shows "hm_inv h (Clear m)"
proof -
  have ok: "table_ok m" "length (hm_map m) = map_end m" using assms by (simp_all add: hm_inv_def hm_wf_def table_ok_def)
  have "key_at (Clear m) i = 0" if "i < map_end m" for i using that ok(2) by (simp add: Clear_def)
  then have "used (Clear m) = {}" "reachable_entries (Clear m)" by (auto simp: used_def reachable_entries_def)
  moreover have "table_ok (Clear m)" using ok by (simp add: table_ok_def map_end_def) (simp add: Clear_def)
  ultimately show ?thesis using table_ok_pos [OF ok(1)] by (simp add: hm_inv_def hm_wf_def load_ok_def)
qed

locale hash_contract =
  fixes match :: "uint64 \<Rightarrow> uint64 \<Rightarrow> bool" and h :: "uint64 \<Rightarrow> uint32"
  assumes match_refl: "match k k" and match_sym: "match a b \<Longrightarrow> match b a"
    and match_trans: "match a b \<Longrightarrow> match b c \<Longrightarrow> match a c"
    and match_hash: "match a b \<Longrightarrow> h a = h b"
begin

lemma match_iff: "match a b \<Longrightarrow> match a c \<longleftrightarrow> match b c"
  using match_sym match_trans by blast

lemma lookup_at:
  assumes "hm_wf h m" "hm_match m = match" "i \<in> used m" "match k (key_at m i)"
  shows "hm_lookup m k = Some (entry_value (hm_map m ! i))"
proof -
  have len: "length (hm_map m) = map_end m" using assms(1) by (simp add: hm_wf_def table_ok_def)
  have "j = i" if "j < length (hm_map m)" "key_at m j \<noteq> 0 \<and> match k (key_at m j)" for j
  proof -
    have "j \<in> used m" using that len by (simp add: used_def)
    moreover have "match (key_at m j) (key_at m i)" using that(2) assms(4) match_iff match_sym by blast
    ultimately show ?thesis using assms(1,2,3) unfolding hm_wf_def by blast
  qed
  then have "List.find (\<lambda>e. entry_key e \<noteq> 0 \<and> match k (entry_key e)) (hm_map m) = Some (hm_map m ! i)"
    using assms(3,4) len by (intro find_unique) (auto simp: used_def)
  then show ?thesis using assms(2) by (simp add: hm_lookup_def)
qed

lemma lookup_none:
  assumes "hm_wf h m" "hm_match m = match" "\<And>i. i \<in> used m \<Longrightarrow> \<not> match k (key_at m i)"
  shows "hm_lookup m k = None"
proof -
  have len: "length (hm_map m) = map_end m" using assms(1) by (simp add: hm_wf_def table_ok_def)
  have "List.find (\<lambda>e. entry_key e \<noteq> 0 \<and> match k (entry_key e)) (hm_map m) = None"
    using assms(3) len by (intro find_none) (auto simp: used_def)
  then show ?thesis using assms(2) by (simp add: hm_lookup_def)
qed

lemma lookup_cases:
  assumes "hm_wf h m" "hm_match m = match"
  obtains i where "i \<in> used m" "match k (key_at m i)" "hm_lookup m k = Some (entry_value (hm_map m ! i))"
  | "\<And>i. i \<in> used m \<Longrightarrow> \<not> match k (key_at m i)" "hm_lookup m k = None"
  using lookup_at [OF assms] lookup_none [OF assms] by metis

text \<open>Two well-formed tables with the same keys and values up to their positions stand for
  the same map.\<close>

lemma lookup_transfer:
  assumes m: "hm_wf h m" "hm_match m = match" and m': "hm_wf h m'" "hm_match m' = match"
    and some: "\<And>i. i \<in> used m \<Longrightarrow> match k (key_at m i) \<Longrightarrow>
      \<exists>j \<in> used m'. match k (key_at m' j) \<and> entry_value (hm_map m' ! j) = entry_value (hm_map m ! i)"
    and none: "\<And>j. j \<in> used m' \<Longrightarrow> match k (key_at m' j) \<Longrightarrow> \<exists>i \<in> used m. match k (key_at m i)"
  shows "hm_lookup m' k = hm_lookup m k"
proof (rule lookup_cases [OF m, of k])
  fix i assume "i \<in> used m" "match k (key_at m i)" "hm_lookup m k = Some (entry_value (hm_map m ! i))"
  with some [of i] obtain j where "j \<in> used m'" "match k (key_at m' j)"
      "entry_value (hm_map m' ! j) = entry_value (hm_map m ! i)" "hm_lookup m k = Some (entry_value (hm_map m ! i))"
    by blast
  then show ?thesis using lookup_at [OF m', of j k] by simp
next
  assume "\<And>i. i \<in> used m \<Longrightarrow> \<not> match k (key_at m i)" "hm_lookup m k = None"
  then show ?thesis using none lookup_none [OF m', of k] by metis
qed

lemma Probe_contract:
  assumes wf: "hm_wf h m" "hm_match m = match" and free: "card (used m) < map_end m"
  shows "\<exists>q < map_end m. Probe m key (h key) = Some q \<and>
    (if hm_lookup m key = None
     then key_at m q = 0 \<and> (\<forall>k < map_end m. dist (map_end m) (initial_position m (h key)) k
       < dist (map_end m) (initial_position m (h key)) q \<longrightarrow> key_at m k \<noteq> 0)
     else q \<in> used m \<and> matches_at m key (h key) q \<and> hm_lookup m key = Some (entry_value (hm_map m ! q)))"
proof -
  obtain e where e: "e < map_end m" "key_at m e = 0" using used_less [OF free] by blast
  have M: "matches_at m key (h key) i \<longleftrightarrow> match key (key_at m i)" if "i \<in> used m" for i
  proof -
    have "entry_hash (hm_map m ! i) = h (key_at m i)" "key_at m i \<noteq> 0"
      using that wf by (simp_all add: hm_wf_def used_def)
    then show ?thesis using match_hash [of key "key_at m i"] wf(2) by (auto simp: matches_at_def)
  qed
  have ok: "table_ok m" "reachable_entries m" using wf by (simp_all add: hm_wf_def)
  obtain q where q: "q < map_end m" "Probe m key (h key) = Some q"
      "if \<exists>j < map_end m. matches_at m key (h key) j then matches_at m key (h key) q
       else key_at m q = 0 \<and> (\<forall>k < map_end m. dist (map_end m) (initial_position m (h key)) k
         < dist (map_end m) (initial_position m (h key)) q \<longrightarrow> key_at m k \<noteq> 0)"
    using Probe_correct [OF ok e, of key "h key"] by blast
  show ?thesis
  proof (rule lookup_cases [OF wf, of key])
    fix i assume i: "i \<in> used m" "match key (key_at m i)" "hm_lookup m key = Some (entry_value (hm_map m ! i))"
    have "i < map_end m" "matches_at m key (h key) i" using i(1,2) M by (simp_all add: used_def)
    then have mq: "matches_at m key (h key) q" using q(3) by meson
    then have uq: "q \<in> used m" using q(1) by (simp add: used_def matches_at_def)
    have "hm_lookup m key = Some (entry_value (hm_map m ! q))" using lookup_at [OF wf uq] M [OF uq] mq by simp
    then show ?thesis using q(1,2) mq uq by simp
  next
    assume no: "\<And>i. i \<in> used m \<Longrightarrow> \<not> match key (key_at m i)" "hm_lookup m key = None"
    then have "\<not> (\<exists>j < map_end m. matches_at m key (h key) j)"
      using wf(2) by (auto simp: used_def matches_at_def)
    then have "key_at m q = 0 \<and> (\<forall>k < map_end m. dist (map_end m) (initial_position m (h key)) k
       < dist (map_end m) (initial_position m (h key)) q \<longrightarrow> key_at m k \<noteq> 0)" using q(3) by meson
    then show ?thesis using q(1,2) no(2) by simp
  qed
qed

lemma inserted_wf:
  assumes wf: "hm_wf h m" "hm_match m = match" and q: "q < map_end m" "key_at m q = 0"
    and path: "\<forall>k < map_end m. dist (map_end m) (initial_position m (entry_hash e)) k
       < dist (map_end m) (initial_position m (entry_hash e)) q \<longrightarrow> key_at m k \<noteq> 0"
    and e: "entry_key e \<noteq> 0" "entry_hash e = h (entry_key e)"
    and new: "\<And>i. i \<in> used m \<Longrightarrow> \<not> match (entry_key e) (key_at m i)"
  shows "hm_wf h (inserted q e m)" "unat (hm_occupancy m + 1) = Suc (unat (hm_occupancy m))"
proof -
  let ?m = "inserted q e m" and ?n = "map_end m"
  note D = hm_wfD [OF wf(1)] and at = inserted_at [OF hm_wfD(3) [OF wf(1)] q(1), where e = e]
  note used = at(4) [OF e(1)]
  have "card (used m) < ?n"
    using psubset_card_mono [of "{..<?n}" "used m"] q by (auto simp: used_def psubset_eq)
  then have "Suc (unat (hm_occupancy m)) < 2 ^ 32"
    using D(6) unat_less [of "hm_capacity m"] by (auto simp: map_end_def)
  then show occ: "unat (hm_occupancy m + 1) = Suc (unat (hm_occupancy m))" by (simp add: unat_add_no_wrap)
  have "table_ok ?m" using D(1) by (simp add: table_ok_def)
  moreover have "reachable_entries ?m" by (rule inserted_reachable [OF D(1,2) q(1) e(1) path])
  moreover have "entry_hash (hm_map ?m ! i) = h (key_at ?m i)" if "i \<in> used ?m" for i
    using that D(4) [of i] at(1) at(2) [of i] e(2) used by (cases "i = q") (simp_all del: inserted_simps)
  moreover have "i = j" if ij: "i \<in> used ?m" "j \<in> used ?m" and mt: "hm_match ?m (key_at ?m i) (key_at ?m j)" for i j
  proof -
    have old: "x = q \<or> x \<in> used m \<and> key_at ?m x = key_at m x" if "x \<in> used ?m" for x
      using that at(2) [of x] used by (auto simp del: inserted_simps)
    have mt: "match (key_at ?m i) (key_at ?m j)" using mt wf(2) by simp
    consider "i = q" "j = q" | "i = q" "j \<in> used m" "key_at ?m j = key_at m j"
      | "j = q" "i \<in> used m" "key_at ?m i = key_at m i"
      | "i \<in> used m" "j \<in> used m" "key_at ?m i = key_at m i" "key_at ?m j = key_at m j"
      using old [OF ij(1)] old [OF ij(2)] by blast
    then show ?thesis
    proof cases
      case 2
      then show ?thesis using mt new [of j] at(1) by (simp del: inserted_simps)
    next
      case 3
      then show ?thesis using match_sym [OF mt] new [of i] at(1) by (simp del: inserted_simps)
    next
      case 4
      then show ?thesis using mt D(5) [of i j] wf(2) by (simp del: inserted_simps)
    qed simp
  qed
  moreover have "unat (hm_occupancy ?m) = card (used ?m)"
    unfolding used using occ D(6) q by (simp add: used_def)
  ultimately show "hm_wf h ?m" unfolding hm_wf_def by blast
qed

lemma inserted_lookup:
  assumes wf: "hm_wf h m" "hm_match m = match" and q: "q < map_end m" "key_at m q = 0"
    and wf': "hm_wf h (inserted q e m)" and e: "entry_key e \<noteq> 0"
  shows "hm_lookup (inserted q e m) k = (if match (entry_key e) k then Some (entry_value e) else hm_lookup m k)"
proof (cases "match (entry_key e) k")
  case True
  note at = inserted_at [OF hm_wfD(3) [OF wf(1)] q(1), where e = e]
  have "hm_lookup (inserted q e m) k = Some (entry_value (hm_map (inserted q e m) ! q))"
    by (rule lookup_at [OF wf']) (use match_sym [OF True] at(1) at(4) [OF e] wf(2) in \<open>simp_all del: inserted_simps(5)\<close>)
  then show ?thesis using True at(1) by (simp del: inserted_simps)
next
  case False
  let ?m = "inserted q e m"
  note at = inserted_at [OF hm_wfD(3) [OF wf(1)] q(1), where e = e]
  have nq: "\<not> match k (key_at ?m q)" using False at(1) match_sym by metis
  have "hm_lookup ?m k = hm_lookup m k"
  proof (rule lookup_transfer [OF wf wf'])
    show "\<exists>j \<in> used ?m. match k (key_at ?m j) \<and> entry_value (hm_map ?m ! j) = entry_value (hm_map m ! i)"
      if i: "i \<in> used m" "match k (key_at m i)" for i
    proof -
      have "i \<noteq> q" using i(1) q(2) by (auto simp: used_def)
      then show ?thesis using i at(2) [of i] at(4) [OF e] by (intro bexI [of _ i]) (simp_all del: inserted_simps)
    qed
    show "\<exists>i \<in> used m. match k (key_at m i)" if "j \<in> used ?m" "match k (key_at ?m j)" for j
    proof -
      have "j \<noteq> q" using that(2) nq by metis
      then show ?thesis using that at(2) [of j] at(4) [OF e] by (intro bexI [of _ j]) (simp_all del: inserted_simps)
    qed
  qed (use wf(2) in simp)
  then show ?thesis using False by simp
qed

lemma new_entry:
  assumes wf: "hm_wf h m" "hm_match m = match" and none: "hm_lookup m key = None" and i: "i \<in> used m"
  shows "\<not> match key (key_at m i)"
  using lookup_at [OF wf i] none by force

lemma Probe_new:
  assumes wf: "hm_wf h m" "hm_match m = match" and free: "card (used m) < map_end m"
    and none: "hm_lookup m key = None" and key: "key \<noteq> 0"
    and e: "e = \<lparr>entry_key = key, entry_value = v, entry_hash = h key\<rparr>"
  shows "\<exists>q < map_end m. Probe m key (h key) = Some q \<and> key_at m q = 0 \<and> hm_wf h (inserted q e m) \<and>
    used (inserted q e m) = insert q (used m) \<and> q \<notin> used m \<and>
    unat (hm_occupancy m + 1) = Suc (unat (hm_occupancy m)) \<and>
    (\<forall>k. hm_lookup (inserted q e m) k = (if match key k then Some v else hm_lookup m k))"
proof -
  obtain q where q: "q < map_end m" "Probe m key (h key) = Some q" "key_at m q = 0"
      "\<forall>k < map_end m. dist (map_end m) (initial_position m (h key)) k
       < dist (map_end m) (initial_position m (h key)) q \<longrightarrow> key_at m k \<noteq> 0"
    using Probe_contract [OF wf free, of key] none by auto
  have e': "entry_key e = key" "entry_hash e = h key" "entry_value e = v" using e by simp_all
  note w = inserted_wf [OF wf q(1,3), of e, unfolded e', OF q(4) key refl new_entry [OF wf none]]
  then show ?thesis
    using q inserted_lookup [OF wf q(1,3) w(1)] inserted_at(4) [OF hm_wfD(3) [OF wf(1)] q(1), of e] e' key
    by (auto simp: used_def)
qed

text \<open>An insertion that does not grow the table, and one into a table with the key.\<close>

lemma insert_direct:
  assumes wf: "hm_wf h m" "hm_match m = match" and none: "hm_lookup m key = None" and key: "key \<noteq> 0"
    and load: "load_ok (Suc (unat (hm_occupancy m))) m"
  shows "\<exists>m' q. run_call (LookupInsert key (h key)) m = Some (m', q) \<and> hm_wf h m' \<and> hm_match m' = match \<and>
    hm_capacity m' = hm_capacity m \<and> unat (hm_occupancy m') = Suc (unat (hm_occupancy m)) \<and>
    q \<in> used m' \<and> key_at m' q = key \<and> entry_hash (hm_map m' ! q) = h key \<and>
    (\<forall>k. hm_lookup m' k = (if match key k then Some 0 else hm_lookup m k))"
proof -
  let ?e = "\<lparr>entry_key = key, entry_value = 0, entry_hash = h key\<rparr>"
  have free: "card (used m) < map_end m" using load_ok_less [OF load] hm_wfD(6) [OF wf(1)] by simp
  obtain q where q: "q < map_end m" "Probe m key (h key) = Some q" "key_at m q = 0" "hm_wf h (inserted q ?e m)"
      "used (inserted q ?e m) = insert q (used m)" "unat (hm_occupancy m + 1) = Suc (unat (hm_occupancy m))"
      "\<forall>k. hm_lookup (inserted q ?e m) k = (if match key k then Some 0 else hm_lookup m k)"
    using Probe_new [OF wf free none key refl] by blast
  let ?o = "hm_occupancy m + 1"
  have "unat (?o + ?o div 4) = unat ?o + unat ?o div 4"
    using load q(6) unat_less [of "hm_capacity m"]
    by (subst unat_add_no_wrap) (simp_all add: load_ok_def map_end_def unat_div_distrib)
  then have "\<not> hm_capacity m \<le> ?o + ?o div 4"
    using load q(6) by (simp add: load_ok_def map_end_def word_le_nat_alt)
  then have "run_call (LookupInsert key (h key)) m = Some (inserted q ?e m, q)"
    using q(2,3) by (subst run_call.simps) (simp add: Let_def inserted_def)
  then show ?thesis
    using q inserted_at(1) [OF hm_wfD(3) [OF wf(1)] q(1), of ?e] wf(2) by (simp del: inserted_simps(5))
qed

lemma insert_present:
  assumes wf: "hm_wf h m" "hm_match m = match" and free: "card (used m) < map_end m"
    and some: "hm_lookup m key \<noteq> None"
  shows "\<exists>q. run_call (LookupInsert key (h key)) m = Some (m, q) \<and> q \<in> used m \<and> matches_at m key (h key) q"
proof -
  obtain q where "Probe m key (h key) = Some q" "q \<in> used m" "matches_at m key (h key) q"
    using Probe_contract [OF wf free, of key] some by auto
  then show ?thesis by (subst run_call.simps) (simp add: used_def)
qed

lemma set_value_lookup:
  assumes wf: "hm_wf h m" "hm_match m = match" and q: "q \<in> used m"
  shows "hm_lookup (set_value q v m) k = (if match (key_at m q) k then Some v else hm_lookup m k)"
proof -
  have qn: "q < map_end m" using q by (simp add: used_def)
  have wf': "hm_wf h (set_value q v m)" "hm_match (set_value q v m) = match"
    using set_value_wf [OF wf(1) qn] wf(2) by simp_all
  note at = set_value_at [OF hm_wfD(3) [OF wf(1)] qn, of v]
  show ?thesis
  proof (cases "match (key_at m q) k")
    case True
    then show ?thesis using lookup_at [OF wf', of q k] q at match_sym [OF True] by simp
  next
    case False
    then have nq: "\<not> match k (key_at m q)" using match_sym by blast
    have "hm_lookup (set_value q v m) k = hm_lookup m k"
    proof (rule lookup_transfer [OF wf wf'])
      fix i assume "i \<in> used m" "match k (key_at m i)"
      then show "\<exists>j \<in> used (set_value q v m). match k (key_at (set_value q v m) j) \<and>
          entry_value (hm_map (set_value q v m) ! j) = entry_value (hm_map m ! i)"
        using at nq by (intro bexI [of _ i]) auto
    qed (use at in auto)
    then show ?thesis using False by simp
  qed
qed

text \<open>The entries of a list of which no two match, as a map.\<close>

definition list_lookup :: "entry list \<Rightarrow> uint64 \<Rightarrow> uint64 option" where
  "list_lookup ps k = map_option entry_value (List.find (\<lambda>e. entry_key e \<noteq> 0 \<and> match k (entry_key e)) ps)"

fun keys_distinct :: "entry list \<Rightarrow> bool" where
  "keys_distinct [] \<longleftrightarrow> True"
| "keys_distinct (p # ps) \<longleftrightarrow> keys_distinct ps \<and>
     (entry_key p \<noteq> 0 \<longrightarrow> entry_hash p = h (entry_key p) \<and>
       (\<forall>e \<in> set ps. entry_key e \<noteq> 0 \<longrightarrow> \<not> match (entry_key p) (entry_key e)))"

lemma list_lookup_Cons:
  assumes "keys_distinct (p # ps)" "entry_key p \<noteq> 0"
  shows "list_lookup (p # ps) k = (if match (entry_key p) k then Some (entry_value p) else list_lookup ps k)"
    and "match (entry_key p) k \<Longrightarrow> list_lookup ps k = None"
proof -
  show "list_lookup (p # ps) k = (if match (entry_key p) k then Some (entry_value p) else list_lookup ps k)"
    using assms(2) match_sym by (auto simp: list_lookup_def)
  assume k: "match (entry_key p) k"
  have "\<not> match k (entry_key e)" if "e \<in> set ps" "entry_key e \<noteq> 0" for e
    using k that assms match_trans by (metis keys_distinct.simps(2))
  then show "list_lookup ps k = None" by (auto simp: list_lookup_def find_None_iff)
qed

lemma rehash_one:
  assumes wf: "hm_wf h m" "hm_match m = match" and p: "entry_key p \<noteq> 0" "entry_hash p = h (entry_key p)"
    and none: "hm_lookup m (entry_key p) = None" and load: "load_ok (Suc (unat (hm_occupancy m))) m"
  obtains m1 q where "run_call (LookupInsert (entry_key p) (entry_hash p)) m = Some (m1, q)"
    and "hm_wf h (set_value q (entry_value p) m1)" "hm_match (set_value q (entry_value p) m1) = match"
    and "hm_capacity (set_value q (entry_value p) m1) = hm_capacity m"
    and "map_end (set_value q (entry_value p) m1) = map_end m"
    and "unat (hm_occupancy (set_value q (entry_value p) m1)) = Suc (unat (hm_occupancy m))"
    and "\<And>k. hm_lookup (set_value q (entry_value p) m1) k =
      (if match (entry_key p) k then Some (entry_value p) else hm_lookup m k)"
proof -
  obtain m1 q where m1: "run_call (LookupInsert (entry_key p) (h (entry_key p))) m = Some (m1, q)"
      "hm_wf h m1" "hm_match m1 = match" "hm_capacity m1 = hm_capacity m"
      "unat (hm_occupancy m1) = Suc (unat (hm_occupancy m))" "q \<in> used m1" "key_at m1 q = entry_key p"
      "\<forall>k. hm_lookup m1 k = (if match (entry_key p) k then Some 0 else hm_lookup m k)"
    using insert_direct [OF wf none p(1) load] by blast
  have "q < map_end m1" using m1(6) by (simp add: used_def)
  then have "hm_wf h (set_value q (entry_value p) m1)" using m1(2) by (intro set_value_wf)
  moreover have "hm_lookup (set_value q (entry_value p) m1) k =
      (if match (entry_key p) k then Some (entry_value p) else hm_lookup m k)" for k
    using set_value_lookup [OF m1(2,3,6)] m1(7,8) by simp
  ultimately show thesis using that m1 p(2) by (simp add: map_end_def)
qed

lemma rehash_correct:
  assumes "hm_wf h m" "hm_match m = match" "keys_distinct ps"
    and "unat n = length (filter (\<lambda>e. entry_key e \<noteq> 0) ps)"
    and "load_ok (unat (hm_occupancy m) + unat n) m"
    and "\<And>e. e \<in> set ps \<Longrightarrow> entry_key e \<noteq> 0 \<Longrightarrow> hm_lookup m (entry_key e) = None"
  shows "\<exists>m'. run_call (Rehash ps n) m = Some (m', 0) \<and> hm_wf h m' \<and> hm_match m' = match \<and>
    hm_capacity m' = hm_capacity m \<and> unat (hm_occupancy m') = unat (hm_occupancy m) + unat n \<and>
    (\<forall>k. hm_lookup m' k = (case list_lookup ps k of None \<Rightarrow> hm_lookup m k | Some v \<Rightarrow> Some v))"
  using assms
proof (induction ps arbitrary: m n)
  case Nil
  then have "n = 0" by (simp add: unat_eq_0)
  then show ?case using Nil by (subst run_call.simps) (simp add: list_lookup_def)
next
  case (Cons p ps)
  show ?case
  proof (cases "entry_key p = 0")
    case True
    have "run_call (Rehash (p # ps) n) m = run_call (Rehash ps n) m"
    proof (cases "n > 0")
      case n: True
      then show ?thesis using True by (subst run_call.simps) simp
    qed (subst (1 2) run_call.simps, simp)
    moreover have "list_lookup (p # ps) k = list_lookup ps k" for k using True by (simp add: list_lookup_def)
    ultimately show ?thesis using Cons.IH [OF Cons.prems(1,2), of n] Cons.prems True by simp
  next
    case False
    have n: "unat n = Suc (length (filter (\<lambda>e. entry_key e \<noteq> 0) ps))" using Cons.prems(4) False by simp
    then have "n \<noteq> 0" by auto
    then have n1: "n > 0" "unat (n - 1) = length (filter (\<lambda>e. entry_key e \<noteq> 0) ps)"
      using n by (simp_all add: unat_minus_one word_neq_0_conv)
    have hash: "entry_hash p = h (entry_key p)" using Cons.prems(3) False by simp
    have load: "load_ok (Suc (unat (hm_occupancy m))) m" using Cons.prems(5) n by (simp add: load_ok_def)
    have none: "hm_lookup m (entry_key p) = None" using Cons.prems(6) [of p] False by simp
    obtain m1 q where call: "run_call (LookupInsert (entry_key p) (entry_hash p)) m = Some (m1, q)"
      and m2: "hm_wf h (set_value q (entry_value p) m1)" "hm_match (set_value q (entry_value p) m1) = match"
        "hm_capacity (set_value q (entry_value p) m1) = hm_capacity m"
        "map_end (set_value q (entry_value p) m1) = map_end m"
        "unat (hm_occupancy (set_value q (entry_value p) m1)) = Suc (unat (hm_occupancy m))"
        "\<And>k. hm_lookup (set_value q (entry_value p) m1) k =
           (if match (entry_key p) k then Some (entry_value p) else hm_lookup m k)"
      using rehash_one [OF Cons.prems(1,2) False hash none load] by metis
    let ?m2 = "set_value q (entry_value p) m1"
    have "load_ok (unat (hm_occupancy ?m2) + unat (n - 1)) ?m2"
      using Cons.prems(5) n n1(2) m2(4,5) by (simp add: load_ok_def)
    moreover have "hm_lookup ?m2 (entry_key e) = None" if "e \<in> set ps" "entry_key e \<noteq> 0" for e
      using that m2(6) [of "entry_key e"] Cons.prems(3,6) False by auto
    ultimately obtain m' where m': "run_call (Rehash ps (n - 1)) ?m2 = Some (m', 0)" "hm_wf h m'" "hm_match m' = match"
        "hm_capacity m' = hm_capacity ?m2" "unat (hm_occupancy m') = unat (hm_occupancy ?m2) + unat (n - 1)"
        "\<forall>k. hm_lookup m' k = (case list_lookup ps k of None \<Rightarrow> hm_lookup ?m2 k | Some v \<Rightarrow> Some v)"
      using Cons.IH [OF m2(1,2) _ n1(2)] Cons.prems(3) by auto
    have "run_call (Rehash (p # ps) n) m = Some (m', 0)"
      using n1(1) False call m'(1) by (subst run_call.simps) simp
    moreover have "hm_lookup m' k = (case list_lookup (p # ps) k of None \<Rightarrow> hm_lookup m k | Some v \<Rightarrow> Some v)" for k
      using m'(6) m2(6) [of k] list_lookup_Cons [OF Cons.prems(3) False, of k] by (simp split: option.splits)
    ultimately show ?thesis using m' m2 n n1(2) by simp
  qed
qed

lemma keys_distinctI:
  assumes "\<And>i. i < length ps \<Longrightarrow> entry_key (ps ! i) \<noteq> 0 \<Longrightarrow> entry_hash (ps ! i) = h (entry_key (ps ! i))"
    and "\<And>i j. i < length ps \<Longrightarrow> j < length ps \<Longrightarrow> entry_key (ps ! i) \<noteq> 0 \<Longrightarrow> entry_key (ps ! j) \<noteq> 0 \<Longrightarrow>
      match (entry_key (ps ! i)) (entry_key (ps ! j)) \<Longrightarrow> i = j"
  shows "keys_distinct ps"
  using assms
proof (induction ps)
  case (Cons p ps)
  have "keys_distinct ps"
  proof (rule Cons.IH)
    show "entry_hash (ps ! i) = h (entry_key (ps ! i))" if "i < length ps" "entry_key (ps ! i) \<noteq> 0" for i
      using Cons.prems(1) [of "Suc i"] that by simp
    show "i = j" if "i < length ps" "j < length ps" "entry_key (ps ! i) \<noteq> 0" "entry_key (ps ! j) \<noteq> 0"
      "match (entry_key (ps ! i)) (entry_key (ps ! j))" for i j
      using Cons.prems(2) [of "Suc i" "Suc j"] that by simp
  qed
  moreover have "\<not> match (entry_key p) (entry_key e)" if "e \<in> set ps" "entry_key e \<noteq> 0" "entry_key p \<noteq> 0" for e
  proof -
    obtain i where "i < length ps" "ps ! i = e" using \<open>e \<in> set ps\<close> by (auto simp: in_set_conv_nth)
    then show ?thesis using Cons.prems(2) [of 0 "Suc i"] that by auto
  qed
  ultimately show ?case using Cons.prems(1) [of 0] by auto
qed simp

lemma wf_entries:
  assumes wf: "hm_wf h m" "hm_match m = match"
  shows "keys_distinct (hm_map m)" and "list_lookup (hm_map m) k = hm_lookup m k"
    and "unat (hm_occupancy m) = length (filter (\<lambda>e. entry_key e \<noteq> 0) (hm_map m))"
proof -
  note D = hm_wfD [OF wf(1)]
  show "keys_distinct (hm_map m)"
    using D(4,5) D(3) wf(2) by (intro keys_distinctI) (simp_all add: used_def)
  show "list_lookup (hm_map m) k = hm_lookup m k" using wf(2) by (simp add: list_lookup_def hm_lookup_def)
  show "unat (hm_occupancy m) = length (filter (\<lambda>e. entry_key e \<noteq> 0) (hm_map m))"
    using D(3,6) by (simp add: length_filter_conv_card used_def)
qed

lemma grow_correct:
  assumes wf: "hm_wf h m" "hm_match m = match" and cap: "unat (hm_capacity m) < 2 ^ 31"
  shows "\<exists>m'. run_call (Rehash (hm_map m) (hm_occupancy m)) (Initialize (hm_capacity m * 2) m) = Some (m', 0) \<and>
    hm_inv h m' \<and> hm_match m' = match \<and> map_end m' = 2 * map_end m \<and>
    hm_occupancy m' = hm_occupancy m \<and> (\<forall>k. hm_lookup m' k = hm_lookup m k)"
proof -
  let ?c = "hm_capacity m * 2" and ?m = "Initialize (hm_capacity m * 2) m"
  note D = hm_wfD [OF wf(1)] and E = wf_entries [OF wf]
  obtain k where k: "unat (hm_capacity m) = 2 ^ k" using D(1) by (auto simp: table_ok_def)
  have c: "unat ?c = 2 * unat (hm_capacity m)" using cap by (simp add: unat_mult_no_wrap)
  have wf0: "hm_wf h ?m" using c k by (intro Initialize_wf [of _ "Suc k"]) simp
  have "unat (hm_occupancy m) \<le> map_end m"
    using D(6) card_mono [of "{..<map_end m}" "used m"] by (auto simp: used_def)
  then have load: "unat (hm_occupancy m) + unat (hm_occupancy m) div 4 < 2 * map_end m"
    using table_ok_pos [OF D(1)] by linarith
  have "hm_match ?m = match" "load_ok (unat (hm_occupancy ?m) + unat (hm_occupancy m)) ?m"
    using wf(2) load c by (simp_all add: load_ok_def map_end_def)
  from rehash_correct [OF wf0 this(1) E(1,3) this(2)]
  obtain m' where m': "run_call (Rehash (hm_map m) (hm_occupancy m)) ?m = Some (m', 0)" "hm_wf h m'"
      "hm_match m' = match" "hm_capacity m' = ?c" "unat (hm_occupancy m') = unat (hm_occupancy m)"
      "\<forall>k. hm_lookup m' k = (case list_lookup (hm_map m) k of None \<Rightarrow> hm_lookup ?m k | Some v \<Rightarrow> Some v)"
    by auto
  have "hm_lookup m' k = hm_lookup m k" for k using m'(6) E(2) by (simp split: option.splits)
  moreover have "map_end m' = 2 * map_end m" using m'(4) c by (simp add: map_end_def)
  moreover have "hm_inv h m'" using m'(2,5) load \<open>map_end m' = 2 * map_end m\<close> by (simp add: hm_inv_def load_ok_def)
  ultimately show ?thesis using m' by (simp add: word_unat_eq_iff)
qed

lemma insert_correct:
  assumes inv: "hm_inv h m" "hm_match m = match" and key: "key \<noteq> 0" and cap: "unat (hm_capacity m) < 2 ^ 31"
  shows "\<exists>m' q. run_call (LookupInsert key (h key)) m = Some (m', q) \<and> hm_inv h m' \<and> hm_match m' = match \<and>
    q \<in> used m' \<and> match key (key_at m' q) \<and>
    unat (hm_occupancy m') \<le> Suc (unat (hm_occupancy m)) \<and>
    map_end m' \<le> max (map_end m) (2 * (Suc (unat (hm_occupancy m)) + Suc (unat (hm_occupancy m)) div 4)) \<and>
    (\<forall>k. hm_lookup m' k = (if match key k \<and> hm_lookup m key = None then Some 0 else hm_lookup m k))"
proof -
  let ?e = "\<lparr>entry_key = key, entry_value = 0, entry_hash = h key\<rparr>"
  have wf: "hm_wf h m" "load_ok (unat (hm_occupancy m)) m" using inv by (simp_all add: hm_inv_def)
  have free: "card (used m) < map_end m" using load_ok_less [OF wf(2)] hm_wfD(6) [OF wf(1)] by simp
  consider "hm_lookup m key \<noteq> None" | "hm_lookup m key = None" "load_ok (Suc (unat (hm_occupancy m))) m"
    | "hm_lookup m key = None" "\<not> load_ok (Suc (unat (hm_occupancy m))) m" by blast
  then show ?thesis
  proof cases
    case 1
    then show ?thesis using insert_present [OF wf(1) inv(2) free 1] inv by (auto simp: matches_at_def)
  next
    case 2
    then show ?thesis using insert_direct [OF wf(1) inv(2) _ key] match_refl
      by (fastforce simp: hm_inv_def load_ok_def map_end_def)
  next
    case 3
    obtain q where q: "q < map_end m" "Probe m key (h key) = Some q" "key_at m q = 0" "hm_wf h (inserted q ?e m)"
        "unat (hm_occupancy m + 1) = Suc (unat (hm_occupancy m))"
        "\<forall>k. hm_lookup (inserted q ?e m) k = (if match key k then Some 0 else hm_lookup m k)"
      using Probe_new [OF wf(1) inv(2) free 3(1) key refl] by blast
    let ?m = "inserted q ?e m" and ?o = "hm_occupancy m + 1"
    obtain m' where m': "run_call (Rehash (hm_map ?m) (hm_occupancy ?m)) (Initialize (hm_capacity ?m * 2) ?m) = Some (m', 0)"
        "hm_inv h m'" "hm_match m' = match" "\<forall>k. hm_lookup m' k = hm_lookup ?m k"
        "map_end m' = 2 * map_end m" "hm_occupancy m' = ?o"
      using grow_correct [OF q(4)] inv(2) cap by auto
    have wf': "hm_wf h m'" "card (used m') < map_end m'"
      using m'(2) load_ok_less [of "unat (hm_occupancy m')" m'] hm_wfD(6) [of h m'] by (simp_all add: hm_inv_def)
    obtain r where r: "Probe m' key (h key) = Some r" "r \<in> used m'" "matches_at m' key (h key) r"
      using Probe_contract [OF wf'(1) m'(3) wf'(2), of key] m'(4) q(6) match_refl by auto
    have "unat (?o + ?o div 4) = unat ?o + unat ?o div 4"
      using wf(2) cap q(5) by (subst unat_add_no_wrap) (simp_all add: load_ok_def map_end_def unat_div_distrib)
    then have "hm_capacity m \<le> ?o + ?o div 4"
      using 3(2) q(5) by (simp add: load_ok_def map_end_def word_le_nat_alt)
    then have "run_call (LookupInsert key (h key)) m = Some (m', r)"
      using q(2,3) m'(1) r(1) by (subst run_call.simps) (simp add: Let_def inserted_def)
    moreover have "map_end m' \<le> 2 * (Suc (unat (hm_occupancy m)) + Suc (unat (hm_occupancy m)) div 4)"
      using 3(2) m'(5) by (simp add: load_ok_def)
    ultimately show ?thesis using m' r q(5,6) 3(1) by (auto simp: matches_at_def)
  qed
qed

text \<open>A table with the entries of another one but for the entry \<open>q\<close>.\<close>

lemma lookup_without:
  assumes wf: "hm_wf h m" "hm_match m = match" and wf': "hm_wf h m'" "hm_match m' = match"
    and image: "(!) (hm_map m') ` used m' = (!) (hm_map m) ` (used m - {q})"
    and q: "q \<in> used m" "match key (key_at m q)"
  shows "hm_lookup m' k = (if match key k then None else hm_lookup m k)"
proof -
  have to_old: "\<exists>i \<in> used m - {q}. hm_map m ! i = hm_map m' ! j" if "j \<in> used m'" for j
    using image that by (metis (no_types, lifting) image_iff)
  have to_new: "\<exists>j \<in> used m'. hm_map m' ! j = hm_map m ! i" if "i \<in> used m - {q}" for i
    using image that by (metis (no_types, lifting) image_iff)
  show ?thesis
  proof (cases "match key k")
    case True
    have "\<not> match k (key_at m' j)" if j: "j \<in> used m'" for j
    proof
      assume "match k (key_at m' j)"
      then obtain i where i: "i \<in> used m - {q}" "match k (key_at m i)" using to_old [OF j] by force
      have "match (key_at m q) (key_at m i)" using match_trans [OF match_sym [OF q(2)] match_trans [OF True i(2)]] .
      then show False using hm_wfD(5) [OF wf(1), of q i] q(1) i(1) wf(2) by simp
    qed
    then show ?thesis using lookup_none [OF wf'] True by simp
  next
    case False
    then have nq: "\<not> match k (key_at m q)" using q(2) match_trans match_sym by blast
    have "hm_lookup m' k = hm_lookup m k"
    proof (rule lookup_transfer [OF wf wf'])
      fix i assume i: "i \<in> used m" "match k (key_at m i)"
      then have "i \<in> used m - {q}" using nq by auto
      then obtain j where "j \<in> used m'" "hm_map m' ! j = hm_map m ! i" using to_new by blast
      then show "\<exists>j \<in> used m'. match k (key_at m' j) \<and> entry_value (hm_map m' ! j) = entry_value (hm_map m ! i)"
        using i(2) by (intro bexI [of _ j]) simp_all
    next
      fix j assume "j \<in> used m'" "match k (key_at m' j)"
      then show "\<exists>i \<in> used m. match k (key_at m i)" using to_old [of j] by force
    qed
    then show ?thesis using False by simp
  qed
qed

lemma remove_present:
  assumes wf: "hm_wf h m" "hm_match m = match" and free: "card (used m) < map_end m"
    and q: "Probe m key (h key) = Some q" "q \<in> used m" "match key (key_at m q)"
  shows "\<exists>m'. Remove m key (h key) = Some m' \<and> hm_wf h m' \<and> hm_match m' = match \<and> hm_capacity m' = hm_capacity m \<and>
    hm_occupancy m' = hm_occupancy m - 1 \<and> 0 < unat (hm_occupancy m) \<and>
    (\<forall>k. hm_lookup m' k = (if match key k then None else hm_lookup m k))"
proof -
  obtain e where e: "e < map_end m" "key_at m e = 0" using used_less [OF free] by blast
  obtain m1 c x where m1: "remove_loop m q q = Some (m1, c)" "hole_ok h m1 c x" "key_at m1 (next_position m1 x) = 0"
      "used m1 = used m" "hm_match m1 = hm_match m" "hm_capacity m1 = hm_capacity m" "hm_occupancy m1 = hm_occupancy m"
      "(!) (hm_map m1) ` (used m - {c}) = (!) (hm_map m) ` (used m - {q})"
    using remove_loop_correct [OF hole_ok_start [OF wf(1) q(2)] e] by blast
  let ?m = "cleared c m1"
  note D = hm_wfD [OF wf(1)]
  have wf': "hm_wf h ?m" "hm_match ?m = match" using cleared_wf [OF m1(2,3)] m1 D(6) wf(2) by simp_all
  have "c < map_end m1" using hole_okD(2) [OF m1(2)] by (simp add: used_def)
  note C = cleared_at [OF hole_okD(4) [OF m1(2)] this]
  have image: "(!) (hm_map ?m) ` used ?m = (!) (hm_map m) ` (used m - {q})"
    unfolding m1(8) [symmetric] C(3) m1(4) using C(1) by (intro image_cong) auto
  have "hm_lookup ?m k = (if match key k then None else hm_lookup m k)" for k
    by (rule lookup_without [OF wf wf' image q(2,3)])
  moreover have "Remove m key (h key) = Some ?m"
    using q m1(1,7) by (simp add: Remove_def cleared_def used_def)
  moreover have "0 < unat (hm_occupancy m)" using D(6) q(2) card_gt_0_iff [of "used m"] by auto
  ultimately show ?thesis using wf' m1(6,7) by simp
qed

lemma remove_correct:
  assumes inv: "hm_inv h m" "hm_match m = match"
  shows "\<exists>m'. Remove m key (h key) = Some m' \<and> hm_inv h m' \<and> hm_match m' = match \<and> hm_capacity m' = hm_capacity m \<and>
    unat (hm_occupancy m') \<le> unat (hm_occupancy m) \<and>
    (\<forall>k. hm_lookup m' k = (if match key k then None else hm_lookup m k))"
proof -
  have wf: "hm_wf h m" "load_ok (unat (hm_occupancy m)) m" using inv by (simp_all add: hm_inv_def)
  have free: "card (used m) < map_end m" using load_ok_less [OF wf(2)] hm_wfD(6) [OF wf(1)] by simp
  show ?thesis
  proof (cases "hm_lookup m key = None")
    case True
    then obtain q where q: "Probe m key (h key) = Some q" "key_at m q = 0"
      using Probe_contract [OF wf(1) inv(2) free, of key] by auto
    have "hm_lookup m k = None" if "match key k" for k
      using new_entry [OF wf(1) inv(2) True] match_trans [OF that] lookup_none [OF wf(1) inv(2), of k] by blast
    then show ?thesis using q inv by (auto simp: Remove_def)
  next
    case False
    then obtain q where "Probe m key (h key) = Some q" "q \<in> used m" "match key (key_at m q)"
      using Probe_contract [OF wf(1) inv(2) free, of key] inv(2) by (auto simp: matches_at_def)
    from remove_present [OF wf(1) inv(2) free this]
    obtain m' where m': "Remove m key (h key) = Some m'" "hm_wf h m'" "hm_match m' = match" "hm_capacity m' = hm_capacity m"
        "hm_occupancy m' = hm_occupancy m - 1" "0 < unat (hm_occupancy m)"
        "\<forall>k. hm_lookup m' k = (if match key k then None else hm_lookup m k)" by blast
    have le: "unat (hm_occupancy m') \<le> unat (hm_occupancy m)"
      using m'(5,6) by (simp add: unat_minus_one unat_gt_0)
    have "unat (hm_occupancy m') div 4 \<le> unat (hm_occupancy m) div 4" using le by (rule div_le_mono)
    then have "load_ok (unat (hm_occupancy m')) m'"
      using wf(2) m'(4) le by (simp add: load_ok_def map_end_def del: unat_minus_one)
    then show ?thesis using m'(1-4,7) le by (simp add: hm_inv_def)
  qed
qed

lemma Lookup_correct:
  assumes inv: "hm_inv h m" "hm_match m = match"
  shows "\<exists>p. Lookup m key (h key) False = Some (m, p) \<and>
    hm_lookup m key = map_option (\<lambda>i. entry_value (hm_map m ! i)) p"
proof -
  have wf: "hm_wf h m" "load_ok (unat (hm_occupancy m)) m" using inv by (simp_all add: hm_inv_def)
  have free: "card (used m) < map_end m" using load_ok_less [OF wf(2)] hm_wfD(6) [OF wf(1)] by simp
  obtain q where "Probe m key (h key) = Some q" "if hm_lookup m key = None then key_at m q = 0
      else q \<in> used m \<and> hm_lookup m key = Some (entry_value (hm_map m ! q))"
    using Probe_contract [OF wf(1) inv(2) free, of key] by auto
  then show ?thesis by (auto simp: Lookup_def used_def split: if_splits)
qed

end

text \<open>The only match function of the sources compares the pointers, and fits every hash function.\<close>

interpretation pointers: hash_contract SamePointerValue h for h :: "uint64 \<Rightarrow> uint32"
  by unfold_locales (simp_all add: SamePointerValue_def)

subsection \<open>The hash map as a dictionary\<close>

text \<open>What a client does: look a key up, write the value of an entry that is there or new,
  remove a key, clear the map. \<open>h\<close> computes the hash the client passes.\<close>

definition get :: "(uint64 \<Rightarrow> uint32) \<Rightarrow> hashmap \<Rightarrow> uint64 \<Rightarrow> uint64 option" where
  "get h m key =
     Option.bind (Lookup m key (h key) False) (\<lambda>(m, p). map_option (\<lambda>i. entry_value (hm_map m ! i)) p)"

fun hm_step :: "(uint64 \<Rightarrow> uint32) \<Rightarrow> (uint64, uint64) dict_op \<Rightarrow> hashmap \<Rightarrow> hashmap option" where
  "hm_step h (Put key value) m =
     Option.bind (Lookup m key (h key) True) (\<lambda>(m, p). map_option (\<lambda>i. set_value i value m) p)"
| "hm_step h (Del key) m = Remove m key (h key)"
| "hm_step h Empty m = Some (Clear m)"

text \<open>\<open>room h n m\<close>: a map that can take \<open>n\<close> more operations before its capacity could
  overflow the 32-bit field.\<close>

definition room :: "(uint64 \<Rightarrow> uint32) \<Rightarrow> nat \<Rightarrow> hashmap \<Rightarrow> bool" where
  "room h n m \<longleftrightarrow> hm_inv h m \<and> hm_match m = SamePointerValue \<and>
     unat (hm_occupancy m) + n \<le> 2 ^ 29 \<and> map_end m < 2 ^ 31"

lemma get_eq_lookup: "hm_inv h m \<Longrightarrow> hm_match m = SamePointerValue \<Longrightarrow> get h m k = hm_lookup m k"
  using pointers.Lookup_correct [of h m k] by (auto simp: get_def)

lemma put_correct:
  assumes "room h (Suc n) m" "key \<noteq> 0"
  shows "\<exists>m'. hm_step h (Put key v) m = Some m' \<and> room h n m' \<and>
    (\<forall>k. hm_lookup m' k = (if k = key then Some v else hm_lookup m k))"
proof -
  have inv: "hm_inv h m" "hm_match m = SamePointerValue" and size: "unat (hm_occupancy m) + Suc n \<le> 2 ^ 29" "map_end m < 2 ^ 31"
    using assms(1) by (simp_all add: room_def)
  obtain m1 q where m1: "run_call (LookupInsert key (h key)) m = Some (m1, q)" "hm_inv h m1" "hm_match m1 = SamePointerValue"
      "q \<in> used m1" "key_at m1 q = key" "unat (hm_occupancy m1) \<le> Suc (unat (hm_occupancy m))"
      "map_end m1 \<le> max (map_end m) (2 * (Suc (unat (hm_occupancy m)) + Suc (unat (hm_occupancy m)) div 4))"
      "\<forall>k. hm_lookup m1 k = (if key = k \<and> hm_lookup m key = None then Some 0 else hm_lookup m k)"
    using pointers.insert_correct [OF inv assms(2)] size(2)
    by (auto simp: SamePointerValue_def map_end_def)
  have wf: "hm_wf h m1" "q < map_end m1" using m1(2,4) by (simp_all add: hm_inv_def used_def)
  let ?m = "set_value q v m1"
  have "hm_step h (Put key v) m = Some ?m" using m1(1) by (simp add: Lookup_def)
  moreover have "hm_inv h ?m" using m1(2) set_value_wf [OF wf] by (simp add: hm_inv_def load_ok_def)
  moreover have "hm_lookup ?m k = (if k = key then Some v else hm_lookup m k)" for k
    using pointers.set_value_lookup [OF wf(1) m1(3,4), of v k] m1(5,8) by (auto simp: SamePointerValue_def)
  moreover have "map_end ?m < 2 ^ 31" using m1(7) size by simp
  ultimately show ?thesis using m1(3,6) size(1) by (auto simp: room_def)
qed

lemma del_correct:
  assumes "room h (Suc n) m"
  shows "\<exists>m'. hm_step h (Del key) m = Some m' \<and> room h n m' \<and>
    (\<forall>k. hm_lookup m' k = (if k = key then None else hm_lookup m k))"
proof -
  have inv: "hm_inv h m" "hm_match m = SamePointerValue" using assms by (simp_all add: room_def)
  obtain m' where m': "Remove m key (h key) = Some m'" "hm_inv h m'" "hm_match m' = SamePointerValue"
      "hm_capacity m' = hm_capacity m" "unat (hm_occupancy m') \<le> unat (hm_occupancy m)"
      "\<forall>k. hm_lookup m' k = (if key = k then None else hm_lookup m k)"
    using pointers.remove_correct [OF inv, of key] by (auto simp: SamePointerValue_def)
  then show ?thesis using assms by (auto simp: room_def map_end_def)
qed

lemma HashMap_room: "n \<le> 2 ^ 29 \<Longrightarrow> room h n (HashMap SamePointerValue 16)"
  using Initialize_wf [of 16 4 h] by (simp add: room_def HashMap_def hm_inv_def load_ok_def)

interpretation hm: limited_dictionary "room h" "\<lambda>k. k \<noteq> 0" "get h" "hm_step h" for h
proof unfold_locales
  fix n m and op :: "(uint64, uint64) dict_op"
  assume r: "room h (Suc n) m" and k: "op_key_ok (\<lambda>k. k \<noteq> 0) op"
  have get: "get h x k = hm_lookup x k" if "room h i x" for x i k using that get_eq_lookup by (simp add: room_def)
  show "\<exists>m'. hm_step h op m = Some m' \<and> room h n m' \<and> (\<forall>k. k \<noteq> 0 \<longrightarrow> get h m' k = op_map op (get h m) k)"
  proof (cases op)
    case (Put key v)
    then show ?thesis using put_correct [OF r, of key v] k get [OF r] get by fastforce
  next
    case (Del key)
    then show ?thesis using del_correct [OF r, of key] get [OF r] get by fastforce
  next
    case Empty
    have "room h n (Clear m)" using r Clear_inv [of h m] by (auto simp: room_def)
    then show ?thesis using Empty get by auto
  qed
qed

subsection \<open>Iteration\<close>

lemma next_loop_filter:
  "next_loop m p = (case filter (\<lambda>i. key_at m i \<noteq> 0) [p..<map_end m] of [] \<Rightarrow> None | i # _ \<Rightarrow> Some i)"
proof (induction m p rule: next_loop.induct)
  case (1 m p)
  then show ?case
    by (cases "p < map_end m") (simp_all add: next_loop.simps [of m p] upt_conv_Cons)
qed

lemma next_loop_bounds: "next_loop m p = Some q \<Longrightarrow> p \<le> q \<and> q < map_end m"
proof (induction m p rule: next_loop.induct)
  case (1 m p)
  then show ?case by (cases "p < map_end m \<and> key_at m p \<noteq> 0") (auto simp: next_loop.simps [of m p] split: if_splits)
qed

text \<open>The positions that the loop \<open>for (p = Start(); p != NULL; p = Next(p))\<close> visits.\<close>

function iterate_from :: "hashmap \<Rightarrow> nat option \<Rightarrow> nat list" where
  "iterate_from m None = []"
| "iterate_from m (Some p) = p # iterate_from m (Next m (int p))"
  by pat_completeness auto
termination
proof (relation "measure (\<lambda>(m, p). case p of None \<Rightarrow> 0 | Some p \<Rightarrow> Suc (map_end m - p))", goal_cases)
  case (2 m p)
  then show ?case using next_loop_bounds [of m "Suc p"] by (auto simp: Next_def nat_add_distrib split: option.splits)
qed simp

lemma filter_upt_step:
  "filter P [p..<n] = i # is \<Longrightarrow> is = filter P [Suc i..<n]"
proof (induction "n - p" arbitrary: p)
  case (Suc d)
  then have "d = n - Suc p" "[p..<n] = p # [Suc p..<n]" by (simp_all add: upt_conv_Cons)
  then show ?case using Suc.hyps(1) [of "Suc p"] Suc.prems by (cases "P p") auto
qed simp

lemma iterate_from_next: "iterate_from m (next_loop m p) = filter (\<lambda>i. key_at m i \<noteq> 0) [p..<map_end m]"
proof (induction "map_end m - p" arbitrary: p rule: less_induct)
  case less
  show ?case
  proof (cases "filter (\<lambda>i. key_at m i \<noteq> 0) [p..<map_end m]")
    case (Cons i rest)
    then have n: "next_loop m p = Some i" by (simp add: next_loop_filter [of m p])
    then have "p \<le> i" "i < map_end m" using next_loop_bounds by blast+
    then have "iterate_from m (next_loop m (Suc i)) = filter (\<lambda>i. key_at m i \<noteq> 0) [Suc i..<map_end m]"
      by (intro less) simp
    then show ?thesis using n Cons filter_upt_step [OF Cons] by (simp add: Next_def nat_add_distrib)
  qed (simp add: next_loop_filter [of m p])
qed

subsection \<open>Properties\<close>

text \<open>C20: Any sequence of up to \<open>2 ^ 29\<close> operations on a new map of pointers of initial
  capacity 16 - writing the value of a non-null key, removing one, clearing - returns, keeps the map well-formed, and leaves
  exactly the entries that the same operations leave in a finite map, whatever hash function
  the client uses and however often the table grows.\<close>

theorem hash_map_refines_map:
  assumes "length ops \<le> 2 ^ 29" and "list_all (op_key_ok (\<lambda>k. k \<noteq> 0)) ops"
  shows "\<exists>m. run_ops (hm_step h) ops (HashMap SamePointerValue 16) = Some m \<and> hm_inv h m \<and>
    (\<forall>k. k \<noteq> 0 \<longrightarrow> get h m k = fold op_map ops Map.empty k)"
proof -
  have r: "room h (length ops + 0) (HashMap SamePointerValue 16)" using HashMap_room [OF assms(1)] by simp
  have "get h (HashMap SamePointerValue 16) k = None" for k
    using get_eq_lookup [of h "HashMap SamePointerValue 16" k] r by (simp add: room_def HashMap_def)
  then show ?thesis using hm.run_refines_map [OF r assms(2), of Map.empty] by (auto simp: room_def)
qed

theorem hash_map_refines_map_witness:
  "\<exists>m. run_ops (hm_step ucast) [Put 1 5, Put 17 6, Del 1] (HashMap SamePointerValue 16) = Some m \<and>
     get ucast m 17 = Some 6 \<and> get ucast m 1 = None"
  using hash_map_refines_map [of "[Put 1 5, Put 17 6, Del 1]" ucast] by (auto simp: fun_upd_def)

text \<open>C21: The operations of a well-formed map return and keep it well-formed: every key is
  found from its initial position, no key is stored twice, the occupancy is the number of
  entries in use and stays below 80 per cent of the capacity. A lookup without insertion
  does not change the map; \<open>Remove\<close> moves entries so that no later search stops too soon.\<close>

theorem hash_map_invariant:
  assumes "hm_inv h m" and "hm_match m = SamePointerValue" and "key \<noteq> 0" and "unat (hm_capacity m) < 2 ^ 31"
  shows "\<exists>m1 p m2 m3. Lookup m key (h key) True = Some (m1, Some p) \<and> hm_inv h m1 \<and> key_at m1 p = key \<and>
    Remove m key (h key) = Some m2 \<and> hm_inv h m2 \<and> get h m2 key = None \<and>
    Resize m = Some m3 \<and> hm_inv h m3 \<and> get h m3 = get h m \<and> map_end m3 = 2 * map_end m \<and>
    hm_inv h (Clear m) \<and> (\<exists>q. Lookup m key (h key) False = Some (m, q))"
proof -
  have wf: "hm_wf h m" using assms(1) by (simp add: hm_inv_def)
  obtain m1 p where m1: "Lookup m key (h key) True = Some (m1, Some p)" "hm_inv h m1" "key_at m1 p = key"
    using pointers.insert_correct [OF assms] by (auto simp: Lookup_def SamePointerValue_def)
  obtain m2 where m2: "Remove m key (h key) = Some m2" "hm_inv h m2" "hm_match m2 = SamePointerValue" "hm_lookup m2 key = None"
    using pointers.remove_correct [OF assms(1,2), of key] by (auto simp: SamePointerValue_def)
  obtain m3 where m3: "Resize m = Some m3" "hm_inv h m3" "hm_match m3 = SamePointerValue"
      "map_end m3 = 2 * map_end m" "\<forall>k. hm_lookup m3 k = hm_lookup m k"
    using pointers.grow_correct [OF wf assms(2,4)] by (auto simp: Resize_def)
  have "get h m3 = get h m" using m3 assms(1,2) by (simp add: fun_eq_iff get_eq_lookup)
  moreover have "get h m2 key = None" using m2 by (simp add: get_eq_lookup)
  ultimately show ?thesis
    using m1 m2 m3 Clear_inv [OF assms(1)] pointers.Lookup_correct [OF assms(1,2), of key] by blast
qed

theorem hash_map_invariant_witness:
  "\<exists>m2. Remove (HashMap SamePointerValue 16) 3 3 = Some m2 \<and> hm_inv ucast m2"
proof -
  have r: "room ucast 0 (HashMap SamePointerValue 16)" by (rule HashMap_room) simp
  then have "hm_inv ucast (HashMap SamePointerValue 16)" "hm_match (HashMap SamePointerValue 16) = SamePointerValue"
    "unat (hm_capacity (HashMap SamePointerValue 16)) < 2 ^ 31"
    by (simp_all add: room_def map_end_def)
  then show ?thesis using hash_map_invariant [of ucast "HashMap SamePointerValue 16" 3] by auto
qed

text \<open>C22: Iterating with \<open>Start\<close> and \<open>Next\<close> ends and visits every entry in use exactly once, in
  the order of the table, for every map.\<close>

theorem hash_map_iteration:
  "iterate_from m (Start m) = filter (\<lambda>i. key_at m i \<noteq> 0) [0..<map_end m] \<and>
   distinct (iterate_from m (Start m)) \<and> set (iterate_from m (Start m)) = used m"
proof -
  have "iterate_from m (Start m) = filter (\<lambda>i. key_at m i \<noteq> 0) [0..<map_end m]"
    using iterate_from_next [of m 0] by (simp add: Start_def Next_def)
  then show ?thesis by (auto simp: used_def)
qed

end
