(* ===== verification/Message_Queue.thy ===== *)
theory Message_Queue
  imports Dart_Prelude
begin

text \<open>
  The queue of messages of an isolate (\<open>runtime/vm/message.h\<close> and \<open>runtime/vm/message.cc\<close>): a
  singly linked list through the \<open>next_\<close> fields of the messages. The heap maps addresses to
  messages, the null pointer is 0, and deleting a message removes its address; following a
  pointer to no message is \<open>None\<close>, as is a loop that does not end. The release build is
  modelled: the assertions of the debug build appear as hypotheses.
\<close>

subsection \<open>Messages and the heap\<close>

datatype priority = kNormalPriority | kOOBPriority

type_synonym addr = nat

type_synonym dart_port = int

record message =
  msg_next :: addr
  dest_port :: dart_port
  reply_port :: dart_port
  msg_data :: addr
  msg_priority :: priority

type_synonym heap = "addr \<rightharpoonup> message"

definition kIllegalPort :: dart_port where
  "kIllegalPort = 0"

definition new_message :: "dart_port \<Rightarrow> dart_port \<Rightarrow> addr \<Rightarrow> priority \<Rightarrow> message" where
  "new_message dest reply data priority =
     \<lparr>msg_next = 0, dest_port = dest, reply_port = reply, msg_data = data, msg_priority = priority\<rparr>"

definition IsOOB :: "message \<Rightarrow> bool" where
  "IsOOB msg \<longleftrightarrow> msg_priority msg = kOOBPriority"

subsection \<open>The queue\<close>

record msg_queue =
  mq_head :: addr
  mq_tail :: addr

definition MessageQueue :: msg_queue where
  "MessageQueue = \<lparr>mq_head = 0, mq_tail = 0\<rparr>"

definition set_next :: "heap \<Rightarrow> addr \<Rightarrow> addr \<Rightarrow> heap option" where
  "set_next h p n = map_option (\<lambda>msg. h(p \<mapsto> msg\<lparr>msg_next := n\<rparr>)) (h p)"

definition Enqueue :: "heap \<Rightarrow> msg_queue \<Rightarrow> addr \<Rightarrow> (heap \<times> msg_queue) option" where
  "Enqueue h q msg =
     (if mq_head q = 0 then Some (h, \<lparr>mq_head = msg, mq_tail = msg\<rparr>)
      else map_option (\<lambda>h. (h, q\<lparr>mq_tail := msg\<rparr>)) (set_next h (mq_tail q) msg))"

definition Dequeue :: "heap \<Rightarrow> msg_queue \<Rightarrow> (msg_queue \<times> addr) option" where
  "Dequeue h q =
     (let result = mq_head q
      in if result \<noteq> 0
         then
           map_option (\<lambda>msg.
             let q = q\<lparr>mq_head := msg_next msg\<rparr>
             in (if mq_head q = 0 then q\<lparr>mq_tail := 0\<rparr> else q, result)) (h result)
         else Some (q, 0))"

partial_function (option) flush_loop ::
    "dart_port \<Rightarrow> heap \<Rightarrow> msg_queue \<Rightarrow> addr \<Rightarrow> addr \<Rightarrow> (heap \<times> msg_queue) option" where
  [code]: "flush_loop port h q cur prev =
     (if cur \<noteq> 0
      then
        Option.bind (h cur) (\<lambda>msg.
          let next = msg_next msg
          in if dest_port msg = port
             then
               if prev \<noteq> 0
               then Option.bind (set_next h prev next) (\<lambda>h. flush_loop port (h(cur := None)) q next prev)
               else flush_loop port (h(cur := None)) (q\<lparr>mq_head := next\<rparr>) next prev
             else flush_loop port h q next cur)
      else Some (h, q\<lparr>mq_tail := prev\<rparr>))"

definition Flush :: "heap \<Rightarrow> msg_queue \<Rightarrow> dart_port \<Rightarrow> (heap \<times> msg_queue) option" where
  "Flush h q port = flush_loop port h q (mq_head q) 0"

partial_function (option) flush_all_loop :: "heap \<Rightarrow> addr \<Rightarrow> heap option" where
  [code]: "flush_all_loop h cur =
     (if cur \<noteq> 0
      then Option.bind (h cur) (\<lambda>msg. flush_all_loop (h(cur := None)) (msg_next msg))
      else Some h)"

definition FlushAll :: "heap \<Rightarrow> msg_queue \<Rightarrow> (heap \<times> msg_queue) option" where
  "FlushAll h q = map_option (\<lambda>h. (h, \<lparr>mq_head = 0, mq_tail = 0\<rparr>)) (flush_all_loop h (mq_head q))"

subsection \<open>The list a queue stands for\<close>

text \<open>\<open>links h p as z\<close>: from \<open>p\<close>, the \<open>next_\<close> fields lead through the messages \<open>as\<close> to \<open>z\<close>.\<close>

fun links :: "heap \<Rightarrow> addr \<Rightarrow> addr list \<Rightarrow> addr \<Rightarrow> bool" where
  "links h p [] z \<longleftrightarrow> p = z"
| "links h p (a # as) z \<longleftrightarrow> p = a \<and> a \<noteq> 0 \<and> (\<exists>msg. h a = Some msg \<and> links h (msg_next msg) as z)"

definition last_addr :: "addr list \<Rightarrow> addr" where
  "last_addr as = (if as = [] then 0 else last as)"

definition queue_rep :: "heap \<Rightarrow> msg_queue \<Rightarrow> addr list \<Rightarrow> bool" where
  "queue_rep h q as \<longleftrightarrow> links h (mq_head q) as 0 \<and> distinct as \<and> mq_tail q = last_addr as"

text \<open>Two heaps that hold the same messages but for their places in queues.\<close>

definition same_message :: "message option \<Rightarrow> message option \<Rightarrow> bool" where
  "same_message a b \<longleftrightarrow> map_option (msg_next_update (\<lambda>_. 0)) a = map_option (msg_next_update (\<lambda>_. 0)) b"

lemma same_message_refl [simp]: "same_message a a"
  by (simp add: same_message_def)

lemma same_message_trans: "same_message a b \<Longrightarrow> same_message b c \<Longrightarrow> same_message a c"
  by (simp add: same_message_def)

lemma same_message_set_next [simp]: "same_message (Some (msg\<lparr>msg_next := n\<rparr>)) (Some msg)"
  by (simp add: same_message_def)

lemma same_message_dest: "same_message (Some a) (Some b) \<Longrightarrow> dest_port a = dest_port b \<and> msg_priority a = msg_priority b"
  by (cases a; cases b) (simp add: same_message_def)

lemma links_append: "links h p (as @ bs) z \<longleftrightarrow> (\<exists>y. links h p as y \<and> links h y bs z)"
  by (induction as arbitrary: p) auto

lemma links_cong: "(\<And>a. a \<in> set as \<Longrightarrow> h' a = h a) \<Longrightarrow> links h' p as z \<longleftrightarrow> links h p as z"
  by (induction as arbitrary: p) auto

lemma links_mem: "links h p as z \<Longrightarrow> a \<in> set as \<Longrightarrow> a \<noteq> 0 \<and> (\<exists>msg. h a = Some msg)"
  by (induction as arbitrary: p) auto

lemma links_head: "links h p as 0 \<Longrightarrow> p = 0 \<longleftrightarrow> as = []"
  by (cases as) auto

text \<open>Redirecting the last \<open>next_\<close> field of a path.\<close>

lemma links_redirect:
  assumes "links h p (as @ [a]) z" "a \<notin> set as" "h a = Some msg"
  shows "links (h(a \<mapsto> msg\<lparr>msg_next := z'\<rparr>)) p (as @ [a]) z'"
proof -
  have "links h p as a" "a \<noteq> 0" using assms(1) by (auto simp: links_append)
  moreover have "links (h(a \<mapsto> msg\<lparr>msg_next := z'\<rparr>)) p as a \<longleftrightarrow> links h p as a"
    using assms(2) by (intro links_cong) auto
  ultimately show ?thesis by (simp add: links_append)
qed

subsection \<open>Correctness of the operations\<close>

lemma Enqueue_correct:
  assumes q: "queue_rep h q as" and msg: "h a = Some msg" "msg_next msg = 0" "a \<noteq> 0" "a \<notin> set as"
  shows "\<exists>h' q'. Enqueue h q a = Some (h', q') \<and> queue_rep h' q' (as @ [a]) \<and>
    (\<forall>b. same_message (h' b) (h b)) \<and> (\<forall>b. b \<notin> set as \<longrightarrow> h' b = h b)"
proof (cases "as = []")
  case True
  then show ?thesis using q msg by (auto simp: queue_rep_def Enqueue_def last_addr_def)
next
  case False
  define t where "t = last as"
  have as: "as = butlast as @ [t]" "t \<in> set as" using False by (simp_all add: t_def)
  have l: "links h (mq_head q) as 0" "distinct as" "mq_tail q = t"
    using q False by (simp_all add: queue_rep_def last_addr_def t_def)
  have head: "mq_head q \<noteq> 0" using links_head [OF l(1)] False by simp
  obtain mt where mt: "h t = Some mt" using links_mem [OF l(1) as(2)] by blast
  let ?h = "h(t \<mapsto> mt\<lparr>msg_next := a\<rparr>)"
  have "t \<notin> set (butlast as)" using l(2) as(1) by (metis distinct_append disjoint_insert(1) list.simps(15) Int_commute)
  then have "links ?h (mq_head q) (butlast as @ [t]) a"
    using links_redirect [of h "mq_head q" "butlast as" t 0 mt a] l(1) as(1) mt by simp
  then have "links ?h (mq_head q) as a" using as(1) by simp
  moreover have "?h a = Some msg" using msg as(2) by auto
  ultimately have "links ?h (mq_head q) (as @ [a]) 0" using msg by (auto simp: links_append)
  then have "queue_rep ?h (q\<lparr>mq_tail := a\<rparr>) (as @ [a])"
    using l(2) msg(4) by (simp add: queue_rep_def last_addr_def)
  moreover have "Enqueue h q a = Some (?h, q\<lparr>mq_tail := a\<rparr>)"
    using head l(3) mt by (simp add: Enqueue_def set_next_def)
  ultimately show ?thesis using mt as(2) by (intro exI [of _ ?h] exI [of _ "q\<lparr>mq_tail := a\<rparr>"]) auto
qed

lemma Dequeue_correct:
  assumes q: "queue_rep h q as"
  shows "\<exists>q'. Dequeue h q = Some (q', case as of [] \<Rightarrow> 0 | a # _ \<Rightarrow> a) \<and> queue_rep h q' (tl as)"
proof (cases as)
  case Nil
  then show ?thesis using q by (auto simp: Dequeue_def queue_rep_def)
next
  case (Cons a bs)
  then obtain msg where msg: "h a = Some msg" "mq_head q = a" "a \<noteq> 0" "links h (msg_next msg) bs 0" "distinct bs"
      "mq_tail q = last (a # bs)"
    using q by (auto simp: queue_rep_def last_addr_def)
  then show ?thesis using Cons links_head [OF msg(4)]
    by (auto simp: Dequeue_def queue_rep_def last_addr_def)
qed

text \<open>The loop of \<open>Flush\<close>: \<open>ks\<close> are the messages kept so far, \<open>rs\<close> those still to be read.\<close>

definition dest_at :: "heap \<Rightarrow> addr \<Rightarrow> dart_port" where
  "dest_at h a = dest_port (the (h a))"

definition flush_state :: "heap \<Rightarrow> msg_queue \<Rightarrow> addr list \<Rightarrow> addr list \<Rightarrow> addr \<Rightarrow> addr \<Rightarrow> bool" where
  "flush_state h q ks rs cur prev \<longleftrightarrow>
     links h (mq_head q) ks cur \<and> links h cur rs 0 \<and> distinct (ks @ rs) \<and> prev = last_addr ks"

lemma flush_state_keep:
  assumes "flush_state h q ks (a # rs) cur prev" "h a = Some msg"
  shows "flush_state h q (ks @ [a]) rs (msg_next msg) a" "cur = a" "a \<noteq> 0"
  using assms by (auto simp: flush_state_def links_append last_addr_def)

lemma flush_state_drop_first:
  assumes "flush_state h q [] (a # rs) cur prev" "h a = Some msg"
  shows "flush_state (h(a := None)) (q\<lparr>mq_head := msg_next msg\<rparr>) [] rs (msg_next msg) prev"
proof -
  have "links (h(a := None)) (msg_next msg) rs 0 \<longleftrightarrow> links h (msg_next msg) rs 0"
    using assms by (intro links_cong) (auto simp: flush_state_def)
  then show ?thesis using assms by (auto simp: flush_state_def)
qed

lemma flush_state_drop:
  assumes st: "flush_state h q ks (a # rs) cur prev" and ne: "ks \<noteq> []" and a: "h a = Some msg"
  shows "\<exists>mp. h prev = Some mp \<and> prev \<noteq> 0 \<and> prev \<in> set ks \<and>
    flush_state (h(prev \<mapsto> mp\<lparr>msg_next := msg_next msg\<rparr>, a := None)) q ks rs (msg_next msg) prev"
proof -
  define ks' where "ks' = butlast ks"
  have ks: "ks = ks' @ [prev]" using st ne by (simp add: flush_state_def last_addr_def ks'_def)
  have l: "links h (mq_head q) (ks' @ [prev]) cur" "links h (msg_next msg) rs 0" "distinct (ks' @ [prev] @ a # rs)"
    using st a ks by (auto simp: flush_state_def)
  obtain mp where mp: "h prev = Some mp" "prev \<noteq> 0" using links_mem [OF l(1), of prev] by auto
  let ?h = "h(prev \<mapsto> mp\<lparr>msg_next := msg_next msg\<rparr>, a := None)"
  have "links (h(prev \<mapsto> mp\<lparr>msg_next := msg_next msg\<rparr>)) (mq_head q) (ks' @ [prev]) (msg_next msg)"
    using l(3) by (intro links_redirect [OF l(1) _ mp(1)]) auto
  moreover have "links ?h (mq_head q) (ks' @ [prev]) (msg_next msg) \<longleftrightarrow>
      links (h(prev \<mapsto> mp\<lparr>msg_next := msg_next msg\<rparr>)) (mq_head q) (ks' @ [prev]) (msg_next msg)"
    using l(3) by (intro links_cong) auto
  moreover have "links ?h (msg_next msg) rs 0 \<longleftrightarrow> links h (msg_next msg) rs 0" using l(3) by (intro links_cong) auto
  ultimately have "flush_state ?h q ks rs (msg_next msg) prev"
    using l ks by (auto simp: flush_state_def last_addr_def)
  then show ?thesis using mp ks by auto
qed

text \<open>The heap after the messages \<open>rs\<close> for a port have been deleted.\<close>

definition flushed :: "dart_port \<Rightarrow> addr list \<Rightarrow> heap \<Rightarrow> heap \<Rightarrow> bool" where
  "flushed port rs h h' \<longleftrightarrow>
     (\<forall>b. b \<in> set rs \<and> dest_at h b = port \<longrightarrow> h' b = None) \<and>
     (\<forall>b. \<not> (b \<in> set rs \<and> dest_at h b = port) \<longrightarrow> same_message (h' b) (h b))"

lemma same_message_dest_at: "same_message (h' b) (h b) \<Longrightarrow> h b \<noteq> None \<Longrightarrow> dest_at h' b = dest_at h b"
proof -
  assume same: "same_message (h' b) (h b)" and "h b \<noteq> None"
  then obtain m where m: "h b = Some m" by blast
  then obtain m' where m': "h' b = Some m'" using same by (cases "h' b") (simp_all add: same_message_def)
  show ?thesis using same_message_dest [of m' m] same m m' by (simp add: dest_at_def)
qed

lemma flushed_step:
  assumes fl: "flushed port rs h1 h'" and a: "a \<notin> set rs" "dest_at h a = port" "h1 a = None"
    and same: "\<And>b. b \<noteq> a \<Longrightarrow> same_message (h1 b) (h b)" and mem: "\<And>b. b \<in> set rs \<Longrightarrow> h b \<noteq> None"
  shows "flushed port (a # rs) h h'"
proof -
  have old: "dest_at h1 b = dest_at h b" if "b \<in> set rs" for b
    using same_message_dest_at [of h1 b h] same [of b] mem [OF that] that a(1) by auto
  have "h' b = None" if "b \<in> set (a # rs)" "dest_at h b = port" for b
  proof (cases "b = a")
    case True
    have "same_message (h' a) (h1 a)" using fl a(1) by (simp add: flushed_def)
    then show ?thesis using True a(3) by (simp add: same_message_def)
  next
    case False
    then show ?thesis using that fl old by (simp add: flushed_def)
  qed
  moreover have "same_message (h' b) (h b)" if nb: "\<not> (b \<in> set (a # rs) \<and> dest_at h b = port)" for b
  proof -
    have ne: "b \<noteq> a" using nb a(2) by auto
    then have "same_message (h' b) (h1 b)" using fl nb old by (simp add: flushed_def)
    then show ?thesis using same_message_trans same [OF ne] by blast
  qed
  ultimately show ?thesis by (simp add: flushed_def)
qed

lemma filter_dest_cong:
  assumes "\<And>b. b \<in> set rs \<Longrightarrow> h b \<noteq> None \<and> same_message (h1 b) (h b)"
  shows "filter (\<lambda>b. dest_at h1 b \<noteq> port) rs = filter (\<lambda>b. dest_at h b \<noteq> port) rs"
proof (rule filter_cong)
  show "dest_at h1 b \<noteq> port \<longleftrightarrow> dest_at h b \<noteq> port" if "b \<in> set rs" for b
    using assms [OF that] same_message_dest_at [of h1 b h] by simp
qed simp

lemma flush_loop_correct:
  assumes "flush_state h q ks rs cur prev"
  shows "\<exists>h' q'. flush_loop port h q cur prev = Some (h', q') \<and>
    queue_rep h' q' (ks @ filter (\<lambda>a. dest_at h a \<noteq> port) rs) \<and> flushed port rs h h' \<and>
    (\<forall>b. b \<notin> set (ks @ rs) \<longrightarrow> h' b = h b)"
  using assms
proof (induction rs arbitrary: h q ks cur prev)
  case Nil
  then show ?case by (subst flush_loop.simps) (auto simp: flush_state_def queue_rep_def flushed_def)
next
  case (Cons a rs)
  obtain msg where msg: "h a = Some msg" using Cons.prems by (auto simp: flush_state_def)
  note st = flush_state_keep [OF Cons.prems msg]
  have a: "a \<notin> set rs" "a \<notin> set ks" "dest_at h a = dest_port msg"
    using Cons.prems msg by (auto simp: flush_state_def dest_at_def)
  have mem: "h b \<noteq> None" if "b \<in> set rs" for b
    using Cons.prems links_mem [of h cur "a # rs" 0 b] that by (auto simp: flush_state_def)
  show ?case
  proof (cases "dest_port msg = port")
    case False
    obtain h' q' where r: "flush_loop port h q (msg_next msg) a = Some (h', q')"
        "queue_rep h' q' ((ks @ [a]) @ filter (\<lambda>a. dest_at h a \<noteq> port) rs)" "flushed port rs h h'"
        "\<forall>b. b \<notin> set ((ks @ [a]) @ rs) \<longrightarrow> h' b = h b"
      using Cons.IH [OF st(1)] by blast
    have "flush_loop port h q cur prev = Some (h', q')"
      using False msg st(2,3) r(1) by (subst flush_loop.simps) (simp add: Let_def)
    moreover have "flushed port (a # rs) h h'" using r(3) a False by (auto simp: flushed_def)
    ultimately show ?thesis using r(2,4) False a(3) by simp
  next
    case True
    obtain h1 q1 where h1: "flush_loop port h q cur prev = flush_loop port h1 q1 (msg_next msg) prev"
        "flush_state h1 q1 ks rs (msg_next msg) prev" "h1 a = None"
        "\<And>b. b \<noteq> a \<Longrightarrow> same_message (h1 b) (h b)" "\<And>b. b \<noteq> a \<Longrightarrow> b \<notin> set ks \<Longrightarrow> h1 b = h b"
    proof (cases "ks = []")
      case k: True
      have "prev = 0" using Cons.prems k by (simp add: flush_state_def last_addr_def)
      then have "flush_loop port h q cur prev = flush_loop port (h(a := None)) (q\<lparr>mq_head := msg_next msg\<rparr>) (msg_next msg) prev"
        using True msg st(2,3) by (subst flush_loop.simps) (simp add: Let_def)
      then show thesis using that flush_state_drop_first [OF Cons.prems [unfolded k] msg] k by simp
    next
      case k: False
      obtain mp where mp: "h prev = Some mp" "prev \<noteq> 0" "prev \<in> set ks"
          "flush_state (h(prev \<mapsto> mp\<lparr>msg_next := msg_next msg\<rparr>, a := None)) q ks rs (msg_next msg) prev"
        using flush_state_drop [OF Cons.prems k msg] by blast
      have "flush_loop port h q cur prev =
          flush_loop port (h(prev \<mapsto> mp\<lparr>msg_next := msg_next msg\<rparr>, a := None)) q (msg_next msg) prev"
        using True msg st(2,3) mp(1,2) by (subst flush_loop.simps) (simp add: set_next_def Let_def)
      then show thesis by (rule that [OF _ mp(4)]) (use mp(1,3) in auto)
    qed
    obtain h' q' where r: "flush_loop port h1 q1 (msg_next msg) prev = Some (h', q')"
        "queue_rep h' q' (ks @ filter (\<lambda>a. dest_at h1 a \<noteq> port) rs)" "flushed port rs h1 h'"
        "\<forall>b. b \<notin> set (ks @ rs) \<longrightarrow> h' b = h1 b"
      using Cons.IH [OF h1(2)] by blast
    have "flushed port (a # rs) h h'" using flushed_step [OF r(3) a(1) _ h1(3,4) mem] a(3) True by simp
    moreover have "filter (\<lambda>b. dest_at h1 b \<noteq> port) rs = filter (\<lambda>b. dest_at h b \<noteq> port) rs"
    proof (rule filter_dest_cong)
      fix b assume "b \<in> set rs"
      then show "h b \<noteq> None \<and> same_message (h1 b) (h b)" using h1(4) [of b] mem a(1) by metis
    qed
    ultimately show ?thesis using h1(1,5) r(1,2,4) a(3) True by simp
  qed
qed

lemma Flush_correct:
  assumes "queue_rep h q as"
  shows "\<exists>h' q'. Flush h q port = Some (h', q') \<and> queue_rep h' q' (filter (\<lambda>a. dest_at h a \<noteq> port) as) \<and>
    flushed port as h h' \<and> (\<forall>b. b \<notin> set as \<longrightarrow> h' b = h b)"
  using flush_loop_correct [of h q "[]" as "mq_head q" 0 port] assms
  by (auto simp: Flush_def flush_state_def queue_rep_def last_addr_def)

lemma flush_all_loop_correct:
  "links h cur as 0 \<Longrightarrow> distinct as \<Longrightarrow> flush_all_loop h cur = Some (\<lambda>b. if b \<in> set as then None else h b)"
proof (induction as arbitrary: h cur)
  case Nil
  then show ?case by (subst flush_all_loop.simps) simp
next
  case (Cons a as)
  then obtain msg where msg: "h a = Some msg" "cur = a" "a \<noteq> 0" "links h (msg_next msg) as 0" by auto
  have "links (h(a := None)) (msg_next msg) as 0"
    using msg(4) Cons.prems(2) by (subst links_cong [of as "h(a := None)" h]) auto
  then have "flush_all_loop (h(a := None)) (msg_next msg) = Some (\<lambda>b. if b \<in> set as then None else (h(a := None)) b)"
    using Cons by simp
  then show ?case using msg by (subst flush_all_loop.simps) auto
qed

lemma FlushAll_correct:
  assumes "queue_rep h q as"
  shows "FlushAll h q = Some (\<lambda>b. if b \<in> set as then None else h b, MessageQueue)"
  using flush_all_loop_correct [of h "mq_head q" as] assms by (simp add: FlushAll_def queue_rep_def MessageQueue_def)

subsection \<open>The interface of a queue in a shared heap\<close>

text \<open>A handler owns two queues whose messages live in the same heap. What it needs of a
  queue: the operations act on the list of messages, and change no message of another queue.\<close>

locale shared_queue =
  fixes rep :: "heap \<Rightarrow> 'q \<Rightarrow> addr list \<Rightarrow> bool" and enq :: "heap \<Rightarrow> 'q \<Rightarrow> addr \<Rightarrow> (heap \<times> 'q) option"
    and deq :: "heap \<Rightarrow> 'q \<Rightarrow> ('q \<times> addr) option" and flush :: "heap \<Rightarrow> 'q \<Rightarrow> dart_port \<Rightarrow> (heap \<times> 'q) option"
  assumes rep_frame: "rep h q as \<Longrightarrow> (\<And>a. a \<in> set as \<Longrightarrow> h' a = h a) \<Longrightarrow> rep h' q as"
    and rep_mem: "rep h q as \<Longrightarrow> a \<in> set as \<Longrightarrow> a \<noteq> 0 \<and> h a \<noteq> None" and rep_distinct: "rep h q as \<Longrightarrow> distinct as"
    and enq_law: "rep h q as \<Longrightarrow> h a = Some msg \<Longrightarrow> msg_next msg = 0 \<Longrightarrow> a \<noteq> 0 \<Longrightarrow> a \<notin> set as \<Longrightarrow>
      \<exists>h' q'. enq h q a = Some (h', q') \<and> rep h' q' (as @ [a]) \<and> (\<forall>b. same_message (h' b) (h b)) \<and>
        (\<forall>b. b \<notin> set as \<longrightarrow> h' b = h b)"
    and deq_law: "rep h q as \<Longrightarrow>
      \<exists>q'. deq h q = Some (q', case as of [] \<Rightarrow> 0 | a # _ \<Rightarrow> a) \<and> rep h q' (tl as)"
    and flush_law: "rep h q as \<Longrightarrow>
      \<exists>h' q'. flush h q port = Some (h', q') \<and> rep h' q' (filter (\<lambda>a. dest_at h a \<noteq> port) as) \<and>
        flushed port as h h' \<and> (\<forall>b. b \<notin> set as \<longrightarrow> h' b = h b)"
begin

definition rep2 :: "heap \<Rightarrow> 'q \<Rightarrow> 'q \<Rightarrow> addr list \<Rightarrow> addr list \<Rightarrow> bool" where
  "rep2 h q r as bs \<longleftrightarrow> rep h q as \<and> rep h r bs \<and> set as \<inter> set bs = {}"

lemma rep2_commute: "rep2 h q r as bs \<longleftrightarrow> rep2 h r q bs as"
  by (auto simp: rep2_def)

lemma enq2:
  assumes r: "rep2 h q r as bs" and a: "h a = Some msg" "msg_next msg = 0" "a \<noteq> 0" "a \<notin> set as" "a \<notin> set bs"
  shows "\<exists>h' q'. enq h q a = Some (h', q') \<and> rep2 h' q' r (as @ [a]) bs \<and> (\<forall>b. same_message (h' b) (h b)) \<and>
    (\<forall>b. b \<notin> set as \<longrightarrow> h' b = h b)"
proof -
  obtain h' q' where e: "enq h q a = Some (h', q')" "rep h' q' (as @ [a])" "\<forall>b. same_message (h' b) (h b)"
      "\<forall>b. b \<notin> set as \<longrightarrow> h' b = h b"
    using enq_law [of h q as a msg] a r unfolding rep2_def by blast
  have "rep h' r bs" by (rule rep_frame [of h]) (use r e(4) in \<open>auto simp: rep2_def\<close>)
  then show ?thesis using e r a by (auto simp: rep2_def)
qed

lemma deq2:
  assumes "rep2 h q r as bs"
  shows "\<exists>q'. deq h q = Some (q', case as of [] \<Rightarrow> 0 | a # _ \<Rightarrow> a) \<and> rep2 h q' r (tl as) bs"
proof -
  obtain q' where "deq h q = Some (q', case as of [] \<Rightarrow> 0 | a # _ \<Rightarrow> a)" "rep h q' (tl as)"
    using deq_law assms unfolding rep2_def by blast
  moreover have "set (tl as) \<subseteq> set as" by (cases as) auto
  ultimately show ?thesis using assms unfolding rep2_def by blast
qed

lemma flush2:
  assumes r: "rep2 h q r as bs"
  shows "\<exists>h' q'. flush h q port = Some (h', q') \<and> rep2 h' q' r (filter (\<lambda>a. dest_at h a \<noteq> port) as) bs \<and>
    flushed port as h h' \<and> (\<forall>b. b \<notin> set as \<longrightarrow> h' b = h b)"
proof -
  obtain h' q' where f: "flush h q port = Some (h', q')" "rep h' q' (filter (\<lambda>a. dest_at h a \<noteq> port) as)"
      "flushed port as h h'" "\<forall>b. b \<notin> set as \<longrightarrow> h' b = h b"
    using flush_law r unfolding rep2_def by blast
  have "rep h' r bs" by (rule rep_frame [of h]) (use r f(4) in \<open>auto simp: rep2_def\<close>)
  then show ?thesis using f r by (auto simp: rep2_def)
qed

end

lemma queue_rep_frame: "queue_rep h q as \<Longrightarrow> (\<And>a. a \<in> set as \<Longrightarrow> h' a = h a) \<Longrightarrow> queue_rep h' q as"
  using links_cong [of as h' h "mq_head q" 0] by (simp add: queue_rep_def)

lemma queue_rep_mem: "queue_rep h q as \<Longrightarrow> a \<in> set as \<Longrightarrow> a \<noteq> 0 \<and> h a \<noteq> None"
  using links_mem [of h "mq_head q" as 0 a] by (auto simp: queue_rep_def)

interpretation mq: shared_queue queue_rep Enqueue Dequeue Flush
proof unfold_locales
  show "distinct as" if "queue_rep h q as" for h q as using that by (simp add: queue_rep_def)
qed (rule queue_rep_frame queue_rep_mem Enqueue_correct Dequeue_correct Flush_correct; assumption)+

subsection \<open>Runs of a queue\<close>

text \<open>What the clients of a queue do: post a new message, take one and delete it, and close
  ports. The result of a run is the list of the messages taken.\<close>

datatype queue_op = Post addr message | Take | CloseOne dart_port | CloseEvery

fun queue_step :: "heap \<Rightarrow> msg_queue \<Rightarrow> queue_op \<Rightarrow> (heap \<times> msg_queue \<times> addr list) option" where
  "queue_step h q (Post a m) = map_option (\<lambda>(h, q). (h, q, [])) (Enqueue (h(a \<mapsto> m)) q a)"
| "queue_step h q Take = map_option (\<lambda>(q, a). (h(a := None), q, [a])) (Dequeue h q)"
| "queue_step h q (CloseOne port) = map_option (\<lambda>(h, q). (h, q, [])) (Flush h q port)"
| "queue_step h q CloseEvery = map_option (\<lambda>(h, q). (h, q, [])) (FlushAll h q)"

fun run_queue :: "heap \<Rightarrow> msg_queue \<Rightarrow> queue_op list \<Rightarrow> (heap \<times> msg_queue \<times> addr list) option" where
  "run_queue h q [] = Some (h, q, [])"
| "run_queue h q (c # cs) =
     Option.bind (queue_step h q c) (\<lambda>(h, q, out).
       map_option (\<lambda>(h, q, outs). (h, q, out @ outs)) (run_queue h q cs))"

text \<open>The abstract queue: a list of messages with their addresses.\<close>

fun list_step :: "(addr \<times> message) list \<Rightarrow> queue_op \<Rightarrow> (addr \<times> message) list \<times> addr list" where
  "list_step ms (Post a m) = (ms @ [(a, m)], [])"
| "list_step ms Take = (tl ms, [case ms of [] \<Rightarrow> 0 | (a, _) # _ \<Rightarrow> a])"
| "list_step ms (CloseOne port) = (filter (\<lambda>(a, m). dest_port m \<noteq> port) ms, [])"
| "list_step ms CloseEvery = ([], [])"

fun run_list :: "(addr \<times> message) list \<Rightarrow> queue_op list \<Rightarrow> (addr \<times> message) list \<times> addr list" where
  "run_list ms [] = (ms, [])"
| "run_list ms (c # cs) = (fst (run_list (fst (list_step ms c)) cs), snd (list_step ms c) @ snd (run_list (fst (list_step ms c)) cs))"

text \<open>A posted message is new: its address is that of no other message.\<close>

fun new_posts :: "(addr \<times> message) list \<Rightarrow> queue_op list \<Rightarrow> bool" where
  "new_posts ms [] \<longleftrightarrow> True"
| "new_posts ms (c # cs) \<longleftrightarrow>
     (case c of Post a m \<Rightarrow> a \<noteq> 0 \<and> a \<notin> fst ` set ms \<and> msg_next m = 0 | _ \<Rightarrow> True) \<and> new_posts (fst (list_step ms c)) cs"

definition stores :: "heap \<Rightarrow> msg_queue \<Rightarrow> (addr \<times> message) list \<Rightarrow> bool" where
  "stores h q ms \<longleftrightarrow> queue_rep h q (map fst ms) \<and> dom h = fst ` set ms \<and>
     (\<forall>(a, m) \<in> set ms. same_message (h a) (Some m))"

lemma storesD:
  assumes "stores h q ms"
  shows "queue_rep h q (map fst ms)" "dom h = fst ` set ms" "(a, m) \<in> set ms \<Longrightarrow> same_message (h a) (Some m)"
    "distinct (map fst ms)"
  using assms by (auto simp: stores_def queue_rep_def)

lemma stores_dest:
  assumes "stores h q ms" "(a, m) \<in> set ms"
  shows "dest_at h a = dest_port m"
proof -
  have same: "same_message (h a) (Some m)" by (rule storesD(3) [OF assms])
  then obtain m' where m': "h a = Some m'" by (cases "h a") (simp_all add: same_message_def)
  then show ?thesis using same_message_dest [of m' m] same by (simp add: dest_at_def)
qed

lemma queue_step_post:
  assumes "stores h q ms" "a \<noteq> 0" "a \<notin> fst ` set ms" "msg_next m = 0"
  shows "\<exists>h' q'. queue_step h q (Post a m) = Some (h', q', []) \<and> stores h' q' (ms @ [(a, m)])"
proof -
  note st = storesD [OF assms(1)]
  have "queue_rep (h(a \<mapsto> m)) q (map fst ms)" by (rule queue_rep_frame [OF st(1)]) (use assms(3) in auto)
  from Enqueue_correct [OF this, of a m] obtain h' q' where e: "Enqueue (h(a \<mapsto> m)) q a = Some (h', q')"
      "queue_rep h' q' (map fst ms @ [a])" "\<forall>b. same_message (h' b) ((h(a \<mapsto> m)) b)"
    using assms by auto
  have none: "h' b = None \<longleftrightarrow> (h(a \<mapsto> m)) b = None" for b
    using e(3) [rule_format, of b] unfolding same_message_def by (metis option.map_disc_iff)
  have "dom h' = fst ` set (ms @ [(a, m)])" using none st(2) by (auto simp: dom_def)
  moreover have "same_message (h' b) (Some n)" if "(b, n) \<in> set (ms @ [(a, m)])" for b n
  proof (cases "b = a")
    case True
    then have "n = m" using that assms(3) by force
    then show ?thesis using e(3) [rule_format, of a] True by simp
  next
    case False
    then have "same_message (h b) (Some n)" using that st(3) by auto
    then show ?thesis using e(3) [rule_format, of b] False same_message_trans by auto
  qed
  ultimately show ?thesis using e(1,2) by (auto simp: stores_def)
qed

lemma queue_step_take:
  assumes "stores h q ms"
  shows "\<exists>h' q'. queue_step h q Take = Some (h', q', snd (list_step ms Take)) \<and> stores h' q' (tl ms)"
proof -
  note st = storesD [OF assms]
  obtain q' where d: "Dequeue h q = Some (q', case map fst ms of [] \<Rightarrow> 0 | a # _ \<Rightarrow> a)" "queue_rep h q' (tl (map fst ms))"
    using Dequeue_correct [OF st(1)] by blast
  show ?thesis
  proof (cases ms)
    case Nil
    then show ?thesis using d st by (auto simp: stores_def)
  next
    case (Cons p ms')
    obtain a m where p: "p = (a, m)" by (cases p)
    have "queue_rep (h(a := None)) q' (map fst ms')"
      by (rule queue_rep_frame [of h]) (use d(2) Cons p st(4) in auto)
    moreover have "same_message ((h(a := None)) b) (Some n)" if "(b, n) \<in> set ms'" for b n
      using that st(3,4) Cons p by force
    ultimately show ?thesis using d(1) Cons p st(2,4) by (auto simp: stores_def)
  qed
qed

lemma queue_step_close:
  assumes "stores h q ms"
  shows "\<exists>h' q'. queue_step h q (CloseOne port) = Some (h', q', []) \<and>
    stores h' q' (filter (\<lambda>(a, m). dest_port m \<noteq> port) ms)"
proof -
  note st = storesD [OF assms] and dest = stores_dest [OF assms]
  obtain h' q' where f: "Flush h q port = Some (h', q')" "queue_rep h' q' (filter (\<lambda>a. dest_at h a \<noteq> port) (map fst ms))"
      "flushed port (map fst ms) h h'"
    using Flush_correct [OF st(1), of port] by blast
  let ?keep = "filter (\<lambda>(a, m). dest_port m \<noteq> port) ms"
  have "filter (\<lambda>a. dest_at h a \<noteq> port) (map fst ms) = map fst ?keep"
    using dest by (auto simp: filter_map intro!: arg_cong [of _ _ "map fst"] filter_cong)
  moreover have kept: "same_message (h' a) (Some m)" if "(a, m) \<in> set ?keep" for a m
  proof -
    have "same_message (h' a) (h a)" using f(3) that dest by (auto simp: flushed_def)
    then show ?thesis using st(3) [of a m] that same_message_trans by auto
  qed
  moreover have "h' a \<noteq> None \<longleftrightarrow> a \<in> fst ` set ?keep" for a
  proof
    show "h' a \<noteq> None" if "a \<in> fst ` set ?keep" using that kept by (force simp: same_message_def)
    show "a \<in> fst ` set ?keep" if "h' a \<noteq> None"
    proof (rule ccontr)
      assume no: "a \<notin> fst ` set ?keep"
      have "h' a = None"
      proof (cases "a \<in> fst ` set ms")
        case True
        then obtain m where "(a, m) \<in> set ms" by force
        then show ?thesis using no f(3) dest [of a m] by (force simp: flushed_def)
      next
        case False
        then have "same_message (h' a) (h a)" "h a = None" using f(3) st(2) by (auto simp: flushed_def)
        then show ?thesis by (simp add: same_message_def)
      qed
      then show False using that by simp
    qed
  qed
  ultimately have "queue_rep h' q' (map fst ?keep)" "dom h' = fst ` set ?keep" "\<forall>(a, m) \<in> set ?keep. same_message (h' a) (Some m)"
    using f(2) unfolding dom_def by (simp_all del: set_filter) blast+
  then show ?thesis using f(1) by (simp add: stores_def del: set_filter)
qed

lemma queue_step_close_every:
  assumes "stores h q ms"
  shows "\<exists>h' q'. queue_step h q CloseEvery = Some (h', q', []) \<and> stores h' q' []"
proof -
  have "(\<lambda>b. if b \<in> set (map fst ms) then None else h b) = Map.empty" using storesD(2) [OF assms] by (auto simp: fun_eq_iff domIff)
  then show ?thesis using FlushAll_correct [OF storesD(1) [OF assms]]
    by (simp add: stores_def queue_rep_def MessageQueue_def last_addr_def)
qed

lemma queue_step_refines:
  assumes "stores h q ms" "new_posts ms [c]"
  shows "\<exists>h' q'. queue_step h q c = Some (h', q', snd (list_step ms c)) \<and> stores h' q' (fst (list_step ms c))"
proof (cases c)
  case (Post a m)
  then show ?thesis using queue_step_post [OF assms(1), of a m] assms(2) by simp
next
  case Take
  then show ?thesis using queue_step_take [OF assms(1)] by simp
next
  case (CloseOne port)
  then show ?thesis using queue_step_close [OF assms(1), of port] by simp
next
  case CloseEvery
  then show ?thesis using queue_step_close_every [OF assms(1)] by simp
qed

lemma run_queue_refines:
  "stores h q ms \<Longrightarrow> new_posts ms cs \<Longrightarrow>
   \<exists>h' q'. run_queue h q cs = Some (h', q', snd (run_list ms cs)) \<and> stores h' q' (fst (run_list ms cs))"
proof (induction cs arbitrary: h q ms)
  case (Cons c cs)
  obtain h1 q1 where 1: "queue_step h q c = Some (h1, q1, snd (list_step ms c))" "stores h1 q1 (fst (list_step ms c))"
    using queue_step_refines [OF Cons.prems(1), of c] Cons.prems(2) by auto
  then obtain h2 q2 where "run_queue h1 q1 cs = Some (h2, q2, snd (run_list (fst (list_step ms c)) cs))"
      "stores h2 q2 (fst (run_list (fst (list_step ms c)) cs))"
    using Cons.IH Cons.prems(2) by fastforce
  then show ?case using 1(1) by simp
qed simp

text \<open>C23: Every run of a queue that starts empty returns and behaves like the list of its
  messages: messages are taken in the order they were posted, closing a port removes
  exactly its messages, and the heap holds exactly the messages still queued, so none is
  leaked, freed twice or used after it was freed.\<close>

theorem message_queue_refines_list:
  assumes "new_posts [] cs"
  shows "\<exists>h q. run_queue Map.empty MessageQueue cs = Some (h, q, snd (run_list [] cs)) \<and>
    queue_rep h q (map fst (fst (run_list [] cs))) \<and> dom h = fst ` set (fst (run_list [] cs)) \<and>
    (\<forall>(a, m) \<in> set (fst (run_list [] cs)). same_message (h a) (Some m))"
proof -
  have "stores Map.empty MessageQueue []"
    by (simp add: stores_def queue_rep_def MessageQueue_def last_addr_def)
  from run_queue_refines [OF this assms] show ?thesis unfolding stores_def by blast
qed

theorem message_queue_refines_list_witness:
  "\<exists>h q. run_queue Map.empty MessageQueue
     [Post 1 (new_message 7 0 0 kNormalPriority), Post 2 (new_message 8 0 0 kNormalPriority),
      Post 3 (new_message 7 0 0 kNormalPriority), Take, CloseOne 7, Take] = Some (h, q, [1, 2]) \<and> dom h = {}"
  using message_queue_refines_list [of "[Post 1 (new_message 7 0 0 kNormalPriority), Post 2 (new_message 8 0 0 kNormalPriority),
      Post 3 (new_message 7 0 0 kNormalPriority), Take, CloseOne 7, Take]"]
  by (auto simp add: new_message_def simp del: run_queue.simps)

end
