(* ===== verification/Message_Handler.thy ===== *)
theory Message_Handler
  imports Message_Queue
begin

text \<open>
  Message handlers (\<open>runtime/vm/message_handler.h\<close> and \<open>runtime/vm/message_handler.cc\<close>): a handler
  owns a queue for normal messages and one for out-of-band messages, counts its live ports,
  and runs as a task of the thread pool. The pointers \<open>pool_\<close>, \<open>task_\<close> and the callbacks are only
  compared with the null pointer, so the state records whether they are set; scheduling a
  task and notifying a subclass are events. What a subclass does to handle a message is the
  parameter \<open>handle\<close>: it may change a state of its own, the heap and the handler itself.

  \<open>HandleMessages\<close> and \<open>TaskCallback\<close> are given for one thread; the interleaving of a task with
  other threads, which run whenever the task has released the monitor, is the step relation
  \<open>handler_step\<close>.
\<close>

subsection \<open>The handler\<close>

record msg_handler =
  mh_queue :: msg_queue
  mh_oob_queue :: msg_queue
  live_ports :: int
  mh_pool :: bool
  mh_task :: bool
  start_callback :: bool
  end_callback :: bool

datatype event = RunTask | MessageNotify priority

definition MessageHandler :: msg_handler where
  "MessageHandler =
     \<lparr>mh_queue = MessageQueue, mh_oob_queue = MessageQueue, live_ports = 0, mh_pool = False,
      mh_task = False, start_callback = False, end_callback = False\<rparr>"

definition HasLivePorts :: "msg_handler \<Rightarrow> bool" where
  "HasLivePorts mh \<longleftrightarrow> live_ports mh > 0"

definition Run :: "bool \<Rightarrow> bool \<Rightarrow> msg_handler \<Rightarrow> msg_handler \<times> event list" where
  "Run has_start has_end mh =
     (mh\<lparr>mh_pool := True, start_callback := has_start, end_callback := has_end, mh_task := True\<rparr>, [RunTask])"

definition PostMessage :: "heap \<Rightarrow> msg_handler \<Rightarrow> addr \<Rightarrow> (heap \<times> msg_handler \<times> event list) option" where
  "PostMessage h mh message =
     Option.bind (h message) (\<lambda>msg.
       let saved_priority = msg_priority msg
       in Option.bind
            (if IsOOB msg
             then map_option (\<lambda>(h, q). (h, mh\<lparr>mh_oob_queue := q\<rparr>)) (Enqueue h (mh_oob_queue mh) message)
             else map_option (\<lambda>(h, q). (h, mh\<lparr>mh_queue := q\<rparr>)) (Enqueue h (mh_queue mh) message)) (\<lambda>(h, mh).
            if mh_pool mh \<and> \<not> mh_task mh
            then Some (h, mh\<lparr>mh_task := True\<rparr>, [RunTask, MessageNotify saved_priority])
            else Some (h, mh, [MessageNotify saved_priority])))"

definition DequeueMessage :: "heap \<Rightarrow> msg_handler \<Rightarrow> priority \<Rightarrow> (msg_handler \<times> addr) option" where
  "DequeueMessage h mh min_priority =
     Option.bind (Dequeue h (mh_oob_queue mh)) (\<lambda>(q, message).
       let mh = mh\<lparr>mh_oob_queue := q\<rparr>
       in if message = 0 \<and> min_priority \<noteq> kOOBPriority
          then map_option (\<lambda>(q, message). (mh\<lparr>mh_queue := q\<rparr>, message)) (Dequeue h (mh_queue mh))
          else Some (mh, message))"

partial_function (option) handle_loop ::
    "(addr \<Rightarrow> 'w \<Rightarrow> heap \<Rightarrow> msg_handler \<Rightarrow> bool \<times> 'w \<times> heap \<times> msg_handler) \<Rightarrow> bool \<Rightarrow> priority \<Rightarrow>
     'w \<Rightarrow> heap \<Rightarrow> msg_handler \<Rightarrow> addr \<Rightarrow> bool \<Rightarrow> (bool \<times> 'w \<times> heap \<times> msg_handler) option" where
  [code]: "handle_loop handle allow_multiple min_priority w h mh message result =
     (if message \<noteq> 0
      then
        Option.bind (h message) (\<lambda>msg.
          let saved_priority = msg_priority msg;
              (result, w, h, mh) = handle message w h mh
          in if \<not> result then Some (result, w, h, mh)
             else if \<not> allow_multiple \<and> saved_priority = kNormalPriority then Some (result, w, h, mh)
             else
               Option.bind (DequeueMessage h mh min_priority) (\<lambda>(mh, message).
                 handle_loop handle allow_multiple min_priority w h mh message result))
      else Some (result, w, h, mh))"

definition HandleMessages ::
    "(addr \<Rightarrow> 'w \<Rightarrow> heap \<Rightarrow> msg_handler \<Rightarrow> bool \<times> 'w \<times> heap \<times> msg_handler) \<Rightarrow> bool \<Rightarrow> bool \<Rightarrow>
     'w \<Rightarrow> heap \<Rightarrow> msg_handler \<Rightarrow> (bool \<times> 'w \<times> heap \<times> msg_handler) option" where
  "HandleMessages handle allow_normal_messages allow_multiple_normal_messages w h mh =
     (let min_priority = (if allow_normal_messages then kNormalPriority else kOOBPriority)
      in Option.bind (DequeueMessage h mh min_priority) (\<lambda>(mh, message).
           handle_loop handle allow_multiple_normal_messages min_priority w h mh message True))"

definition HandleNextMessage where
  "HandleNextMessage handle w h mh = HandleMessages handle True False w h mh"

definition HandleOOBMessages where
  "HandleOOBMessages handle w h mh = HandleMessages handle False False w h mh"

definition finish_task :: "bool \<Rightarrow> msg_handler \<Rightarrow> msg_handler \<times> bool" where
  "finish_task ok mh =
     (let mh = mh\<lparr>mh_task := False\<rparr>
      in if \<not> ok \<or> \<not> HasLivePorts mh then (mh\<lparr>mh_pool := False\<rparr>, True) else (mh, False))"

text \<open>\<open>TaskCallback\<close> also returns whether it calls the end callback.\<close>

definition TaskCallback ::
    "('w \<Rightarrow> heap \<Rightarrow> msg_handler \<Rightarrow> bool \<times> 'w \<times> heap \<times> msg_handler) \<Rightarrow>
     (addr \<Rightarrow> 'w \<Rightarrow> heap \<Rightarrow> msg_handler \<Rightarrow> bool \<times> 'w \<times> heap \<times> msg_handler) \<Rightarrow>
     'w \<Rightarrow> heap \<Rightarrow> msg_handler \<Rightarrow> ('w \<times> heap \<times> msg_handler \<times> bool) option" where
  "TaskCallback start handle w h mh =
     (let (ok, w, h, mh) =
            (if start_callback mh
             then (let (ok, w, h, mh) = start w h mh in (ok, w, h, mh\<lparr>start_callback := False\<rparr>))
             else (True, w, h, mh))
      in Option.bind (if ok then HandleMessages handle True True w h mh else Some (ok, w, h, mh)) (\<lambda>(ok, w, h, mh).
           let (mh, run_end_callback) = finish_task ok mh
           in Some (w, h, mh, run_end_callback \<and> end_callback mh)))"

definition ClosePort :: "heap \<Rightarrow> msg_handler \<Rightarrow> dart_port \<Rightarrow> (heap \<times> msg_handler) option" where
  "ClosePort h mh port =
     Option.bind (Flush h (mh_queue mh) port) (\<lambda>(h, q).
     Option.bind (Flush h (mh_oob_queue mh) port) (\<lambda>(h, oob_q).
     Some (h, mh\<lparr>mh_queue := q, mh_oob_queue := oob_q\<rparr>)))"

definition CloseAllPorts :: "heap \<Rightarrow> msg_handler \<Rightarrow> (heap \<times> msg_handler) option" where
  "CloseAllPorts h mh =
     Option.bind (FlushAll h (mh_queue mh)) (\<lambda>(h, q).
     Option.bind (FlushAll h (mh_oob_queue mh)) (\<lambda>(h, oob_q).
     Some (h, mh\<lparr>mh_queue := q, mh_oob_queue := oob_q\<rparr>)))"

definition increment_live_ports :: "msg_handler \<Rightarrow> msg_handler" where
  "increment_live_ports mh = mh\<lparr>live_ports := live_ports mh + 1\<rparr>"

definition decrement_live_ports :: "msg_handler \<Rightarrow> msg_handler" where
  "decrement_live_ports mh = mh\<lparr>live_ports := live_ports mh - 1\<rparr>"

subsection \<open>The messages of a handler\<close>

text \<open>\<open>holds h mh as bs\<close>: the normal messages \<open>as\<close> and the out-of-band messages \<open>bs\<close> wait.\<close>

definition priority_at :: "heap \<Rightarrow> addr \<Rightarrow> priority option" where
  "priority_at h a = map_option msg_priority (h a)"

definition holds :: "heap \<Rightarrow> msg_handler \<Rightarrow> addr list \<Rightarrow> addr list \<Rightarrow> bool" where
  "holds h mh as bs \<longleftrightarrow> mq.rep2 h (mh_queue mh) (mh_oob_queue mh) as bs \<and>
     (\<forall>a \<in> set as. priority_at h a = Some kNormalPriority) \<and> (\<forall>b \<in> set bs. priority_at h b = Some kOOBPriority)"

lemma priority_at_same: "same_message (h' b) (h b) \<Longrightarrow> priority_at h' b = priority_at h b"
proof -
  have "map_option msg_priority x = map_option msg_priority (map_option (msg_next_update (\<lambda>_. 0)) x)" for x :: "message option"
    by (cases x) simp_all
  then show "same_message (h' b) (h b) \<Longrightarrow> ?thesis" unfolding same_message_def priority_at_def by metis
qed

lemma same_message_None: "same_message x y \<Longrightarrow> x = None \<longleftrightarrow> y = None"
  unfolding same_message_def by (metis option.map_disc_iff)

lemma holds_mem: "holds h mh as bs \<Longrightarrow> a \<in> set as \<union> set bs \<Longrightarrow> a \<noteq> 0 \<and> h a \<noteq> None"
  using mq.rep_mem by (auto simp: holds_def mq.rep2_def)

lemma holds_update [simp]:
  "holds h (mh\<lparr>mh_task := x\<rparr>) as bs \<longleftrightarrow> holds h mh as bs" "holds h (mh\<lparr>mh_pool := x\<rparr>) as bs \<longleftrightarrow> holds h mh as bs"
  "holds h (mh\<lparr>live_ports := i\<rparr>) as bs \<longleftrightarrow> holds h mh as bs" "holds h (mh\<lparr>start_callback := x\<rparr>) as bs \<longleftrightarrow> holds h mh as bs"
  "holds h (mh\<lparr>end_callback := x\<rparr>) as bs \<longleftrightarrow> holds h mh as bs"
  by (simp_all add: holds_def)

lemma MessageHandler_holds: "holds h MessageHandler [] []"
  by (simp add: holds_def mq.rep2_def queue_rep_def MessageHandler_def MessageQueue_def last_addr_def)

lemma PostMessage_correct:
  assumes holds: "holds h mh as bs" and msg: "h a = Some msg" "msg_next msg = 0" "a \<noteq> 0" "a \<notin> set as" "a \<notin> set bs"
  shows "\<exists>h' mh' ev. PostMessage h mh a = Some (h', mh', ev) \<and>
    holds h' mh' (if IsOOB msg then as else as @ [a]) (if IsOOB msg then bs @ [a] else bs) \<and>
    (\<forall>b. same_message (h' b) (h b)) \<and> (\<forall>b. b \<notin> set as \<union> set bs \<longrightarrow> h' b = h b) \<and>
    mh_pool mh' = mh_pool mh \<and> mh_task mh' = (mh_task mh \<or> mh_pool mh) \<and> live_ports mh' = live_ports mh"
proof -
  have r: "mq.rep2 h (mh_queue mh) (mh_oob_queue mh) as bs"
    and p: "\<forall>a \<in> set as. priority_at h a = Some kNormalPriority" "\<forall>b \<in> set bs. priority_at h b = Some kOOBPriority"
    using holds by (simp_all add: holds_def)
  have pa: "priority_at h a = Some (if IsOOB msg then kOOBPriority else kNormalPriority)"
    using msg(1) by (cases "msg_priority msg") (simp_all add: priority_at_def IsOOB_def)
  show ?thesis
  proof (cases "IsOOB msg")
    case True
    obtain h' q' where e: "Enqueue h (mh_oob_queue mh) a = Some (h', q')"
        "mq.rep2 h' q' (mh_queue mh) (bs @ [a]) as" "\<forall>b. same_message (h' b) (h b)" "\<forall>b. b \<notin> set bs \<longrightarrow> h' b = h b"
      using mq.enq2 [of h "mh_oob_queue mh" "mh_queue mh" bs as a msg] r mq.rep2_commute msg by blast
    have "priority_at h' b = priority_at h b" for b using e(3) priority_at_same by blast
    then have "holds h' (mh\<lparr>mh_oob_queue := q'\<rparr>) as (bs @ [a])"
      using e(2) p pa True unfolding holds_def by (simp add: mq.rep2_commute)
    then show ?thesis using True msg(1) e by (auto simp: PostMessage_def Let_def)
  next
    case False
    obtain h' q' where e: "Enqueue h (mh_queue mh) a = Some (h', q')"
        "mq.rep2 h' q' (mh_oob_queue mh) (as @ [a]) bs" "\<forall>b. same_message (h' b) (h b)" "\<forall>b. b \<notin> set as \<longrightarrow> h' b = h b"
      using mq.enq2 [OF r msg] by blast
    have "priority_at h' b = priority_at h b" for b using e(3) priority_at_same by blast
    then have "holds h' (mh\<lparr>mh_queue := q'\<rparr>) (as @ [a]) bs"
      using e(2) p pa False unfolding holds_def by simp
    then show ?thesis using False msg(1) e by (auto simp: PostMessage_def Let_def)
  qed
qed

lemma DequeueMessage_correct:
  assumes "holds h mh as bs"
  shows "\<exists>mh'. DequeueMessage h mh prio = Some (mh',
      case bs of b # _ \<Rightarrow> b | [] \<Rightarrow> if prio = kOOBPriority then 0 else case as of [] \<Rightarrow> 0 | a # _ \<Rightarrow> a) \<and>
    holds h mh' (if bs = [] \<and> prio \<noteq> kOOBPriority then tl as else as) (tl bs) \<and>
    mh_pool mh' = mh_pool mh \<and> mh_task mh' = mh_task mh \<and> live_ports mh' = live_ports mh \<and>
    start_callback mh' = start_callback mh \<and> end_callback mh' = end_callback mh"
proof -
  have r: "mq.rep2 h (mh_oob_queue mh) (mh_queue mh) bs as" and p: "\<forall>a \<in> set as. priority_at h a = Some kNormalPriority"
      "\<forall>b \<in> set bs. priority_at h b = Some kOOBPriority"
    using assms mq.rep2_commute by (auto simp: holds_def)
  have tls: "set (tl xs) \<subseteq> set xs" for xs :: "addr list" by (cases xs) auto
  obtain q where q: "Dequeue h (mh_oob_queue mh) = Some (q, case bs of [] \<Rightarrow> 0 | b # _ \<Rightarrow> b)" "mq.rep2 h q (mh_queue mh) (tl bs) as"
    using mq.deq2 [OF r] by blast
  show ?thesis
  proof (cases "bs = [] \<and> prio \<noteq> kOOBPriority")
    case True
    obtain q1 where q1: "Dequeue h (mh_queue mh) = Some (q1, case as of [] \<Rightarrow> 0 | a # _ \<Rightarrow> a)" "mq.rep2 h q1 q (tl as) (tl bs)"
      using mq.deq2 q(2) mq.rep2_commute by blast
    have "holds h (mh\<lparr>mh_oob_queue := q, mh_queue := q1\<rparr>) (tl as) (tl bs)"
      using q1(2) p tls [of as] True by (auto simp: holds_def)
    then show ?thesis using True q(1) q1(1) by (simp add: DequeueMessage_def Let_def)
  next
    case False
    have nz: "bs \<noteq> [] \<longrightarrow> hd bs \<noteq> 0" using holds_mem [OF assms, of "hd bs"] by auto
    have "holds h (mh\<lparr>mh_oob_queue := q\<rparr>) as (tl bs)"
      using q(2) p tls [of bs] mq.rep2_commute by (auto simp: holds_def)
    then show ?thesis using False q(1) nz by (cases bs) (auto simp: DequeueMessage_def Let_def)
  qed
qed

subsection \<open>Handling messages in one thread\<close>

text \<open>A handler that does not touch its own queues deletes the message and may change its
  own state: \<open>f\<close> gives the result and the new state. \<open>process f\<close> handles a list of messages
  up to the first error and returns the messages that are left.\<close>

definition quiet :: "(addr \<Rightarrow> 'w \<Rightarrow> bool \<times> 'w) \<Rightarrow> addr \<Rightarrow> 'w \<Rightarrow> heap \<Rightarrow> msg_handler \<Rightarrow> bool \<times> 'w \<times> heap \<times> msg_handler" where
  "quiet f message w h mh = (fst (f message w), snd (f message w), h(message := None), mh)"

fun process :: "(addr \<Rightarrow> 'w \<Rightarrow> bool \<times> 'w) \<Rightarrow> addr list \<Rightarrow> 'w \<Rightarrow> bool \<times> 'w \<times> addr list" where
  "process f [] w = (True, w, [])"
| "process f (m # ms) w = (if fst (f m w) then process f ms (snd (f m w)) else (False, snd (f m w), ms))"

lemma process_suffix: "process f ms w = (ok, w', rest) \<Longrightarrow> \<exists>done. ms = done @ rest \<and> (ok \<longrightarrow> rest = [])"
proof (induction ms arbitrary: w)
  case (Cons m ms)
  show ?case
  proof (cases "fst (f m w)")
    case True
    then obtain d where "ms = d @ rest" "ok \<longrightarrow> rest = []" using Cons by auto
    then show ?thesis by (intro exI [of _ "m # d"]) simp
  next
    case False
    then show ?thesis using Cons.prems by (intro exI [of _ "[m]"]) simp
  qed
qed simp

lemma holds_frame:
  assumes "holds h mh as bs" "\<And>m. m \<in> set as \<union> set bs \<Longrightarrow> h' m = h m"
  shows "holds h' mh as bs"
proof -
  have "queue_rep h' q xs" if "queue_rep h q xs" "set xs \<subseteq> set as \<union> set bs" for q xs
    by (rule queue_rep_frame [OF that(1)]) (use that(2) assms(2) in blast)
  then have "mq.rep2 h' (mh_queue mh) (mh_oob_queue mh) as bs" using assms(1) by (simp add: holds_def mq.rep2_def)
  moreover have "priority_at h' a = priority_at h a" if "a \<in> set as \<union> set bs" for a
    using assms(2) [OF that] by (simp add: priority_at_def)
  ultimately show ?thesis using assms(1) by (simp add: holds_def)
qed

lemma holds_delete:
  assumes "holds h mh as bs" "m \<notin> set as" "m \<notin> set bs"
  shows "holds (h(m := None)) mh as bs"
  by (rule holds_frame [OF assms(1)]) (use assms(2,3) in auto)

text \<open>The messages one call of \<open>HandleMessages\<close> handles, if none fails.\<close>

definition pending :: "bool \<Rightarrow> bool \<Rightarrow> addr list \<Rightarrow> addr list \<Rightarrow> addr list" where
  "pending allow_normal allow_multiple as bs =
     bs @ (if allow_normal then if allow_multiple then as else take 1 as else [])"

abbreviation min_priority :: "bool \<Rightarrow> priority" where
  "min_priority allow_normal \<equiv> if allow_normal then kNormalPriority else kOOBPriority"

lemma DequeueMessage_empty:
  assumes "holds h mh as bs" "pending n multi as bs = []"
  obtains mh' where "DequeueMessage h mh (min_priority n) = Some (mh', 0)" "holds h mh' as bs"
    and "mh_pool mh' = mh_pool mh" "mh_task mh' = mh_task mh" "live_ports mh' = live_ports mh" "end_callback mh' = end_callback mh"
      "start_callback mh' = start_callback mh"
proof -
  have "bs = []" "n \<Longrightarrow> as = []" using assms(2) by (auto simp: pending_def split: if_splits)
  then show thesis using that DequeueMessage_correct [OF assms(1), of "min_priority n"] by (cases n) auto
qed

lemma DequeueMessage_next:
  assumes holds: "holds h mh as bs" and ms: "pending n multi as bs = m # ms"
  obtains mh' as' bs' where "DequeueMessage h mh (min_priority n) = Some (mh', m)" "holds h mh' as' bs'"
    and "m \<notin> set as'" "m \<notin> set bs'" "m \<noteq> 0" "h m \<noteq> None" "bs @ as = m # bs' @ as'" "length bs' = length bs - 1"
    and "mh_pool mh' = mh_pool mh" "mh_task mh' = mh_task mh" "live_ports mh' = live_ports mh" "end_callback mh' = end_callback mh"
      "start_callback mh' = start_callback mh"
    and "if bs = [] \<and> \<not> multi then ms = [] else pending n multi as' bs' = ms"
    and "bs = [] \<longleftrightarrow> priority_at h m = Some kNormalPriority"
proof (cases bs)
  case (Cons b bs')
  then have m: "m = b" "ms = pending n multi as bs'" using ms by (auto simp: pending_def)
  have d: "distinct bs" "set as \<inter> set bs = {}" using holds by (auto simp: holds_def mq.rep2_def queue_rep_def)
  obtain mh' where "DequeueMessage h mh (min_priority n) = Some (mh', b)" "holds h mh' as bs'"
      "mh_pool mh' = mh_pool mh" "mh_task mh' = mh_task mh" "live_ports mh' = live_ports mh" "end_callback mh' = end_callback mh"
      "start_callback mh' = start_callback mh"
    using DequeueMessage_correct [OF holds, of "min_priority n"] Cons by auto
  moreover have "priority_at h b = Some kOOBPriority" using holds Cons by (simp add: holds_def)
  ultimately show thesis using that [of mh' as bs'] m d holds_mem [OF holds, of b] Cons by auto
next
  case Nil
  then obtain as' where as: "n" "as = m # as'" "multi \<longrightarrow> ms = as'" "\<not> multi \<longrightarrow> ms = []"
    using ms by (cases as) (auto simp: pending_def split: if_splits)
  have d: "distinct as" using holds by (simp add: holds_def mq.rep2_def queue_rep_def)
  obtain mh' where "DequeueMessage h mh (min_priority n) = Some (mh', m)" "holds h mh' as' []"
      "mh_pool mh' = mh_pool mh" "mh_task mh' = mh_task mh" "live_ports mh' = live_ports mh" "end_callback mh' = end_callback mh"
      "start_callback mh' = start_callback mh"
    using DequeueMessage_correct [OF holds, of "min_priority n"] Nil as by auto
  moreover have "priority_at h m = Some kNormalPriority" using holds as by (simp add: holds_def)
  ultimately show thesis using that [of mh' as' "[]"] Nil as d holds_mem [OF holds, of m] by (auto simp: pending_def)
qed

lemma handle_loop_null: "handle_loop handle multi p w h mh 0 result = Some (result, w, h, mh)"
  by (subst handle_loop.simps) simp

lemma dequeue_drops:
  assumes "bs @ as = m # bs' @ as'" "length bs' = length bs - 1"
  shows "as' = drop (1 - length bs) as" "bs' = drop 1 bs"
proof -
  have "as' = drop (1 - length bs) as \<and> bs' = drop 1 bs"
    using assms by (cases bs) (simp_all add: append_eq_append_conv)
  then show "as' = drop (1 - length bs) as" "bs' = drop 1 bs" by simp_all
qed

lemma HandleMessages_quiet:
  assumes "holds h mh as bs"
  shows "\<exists>ok w' rest h' mh' done. process f (pending n multi as bs) w = (ok, w', rest) \<and>
    pending n multi as bs = done @ rest \<and> HandleMessages (quiet f) n multi w h mh = Some (ok, w', h', mh') \<and>
    holds h' mh' (drop (length done - length bs) as) (drop (length done) bs) \<and>
    h' = (\<lambda>b. if b \<in> set done then None else h b) \<and>
    mh_pool mh' = mh_pool mh \<and> mh_task mh' = mh_task mh \<and> live_ports mh' = live_ports mh \<and> end_callback mh' = end_callback mh \<and>
    start_callback mh' = start_callback mh"
  using assms
proof (induction "pending n multi as bs" arbitrary: w h mh as bs)
  case Nil
  obtain mh' where d: "DequeueMessage h mh (min_priority n) = Some (mh', 0)" "holds h mh' as bs"
      "mh_pool mh' = mh_pool mh" "mh_task mh' = mh_task mh" "live_ports mh' = live_ports mh" "end_callback mh' = end_callback mh"
      "start_callback mh' = start_callback mh"
    by (rule DequeueMessage_empty [OF Nil.prems Nil.hyps [symmetric]])
  then have "HandleMessages (quiet f) n multi w h mh = Some (True, w, h, mh')"
    by (simp add: HandleMessages_def Let_def handle_loop_null)
  then show ?case using d(2-) unfolding Nil.hyps [symmetric]
    by (intro exI [of _ True] exI [of _ w] exI [of _ "[]"] exI [of _ h] exI [of _ mh']) simp
next
  case (Cons m ms)
  obtain mh' as' bs' where d: "DequeueMessage h mh (min_priority n) = Some (mh', m)" "holds h mh' as' bs'"
      "m \<notin> set as'" "m \<notin> set bs'" "m \<noteq> 0" "h m \<noteq> None" "bs @ as = m # bs' @ as'" "length bs' = length bs - 1"
      "mh_pool mh' = mh_pool mh" "mh_task mh' = mh_task mh" "live_ports mh' = live_ports mh" "end_callback mh' = end_callback mh"
      "start_callback mh' = start_callback mh"
      "if bs = [] \<and> \<not> multi then ms = [] else pending n multi as' bs' = ms"
      "bs = [] \<longleftrightarrow> priority_at h m = Some kNormalPriority"
    by (rule DequeueMessage_next [OF Cons.prems Cons.hyps(2) [symmetric]])
  obtain msg where msg: "h m = Some msg" using d(6) by blast
  let ?h = "h(m := None)" and ?w = "snd (f m w)"
  have holds: "holds ?h mh' as' bs'" by (rule holds_delete [OF d(2-4)])
  note drops = dequeue_drops [OF d(7,8)]
  show ?case
  proof (cases "fst (f m w) \<and> \<not> (bs = [] \<and> \<not> multi)")
    case False
    have "handle_loop (quiet f) multi (min_priority n) w h mh' m True = Some (fst (f m w), ?w, ?h, mh')"
      using False d(5,15) msg by (subst handle_loop.simps) (auto simp: quiet_def Let_def priority_at_def)
    then have "HandleMessages (quiet f) n multi w h mh = Some (fst (f m w), ?w, ?h, mh')"
      using d(1) by (simp add: HandleMessages_def Let_def)
    moreover have "process f (m # ms) w = (fst (f m w), ?w, ms)" using False d(14) by auto
    moreover have "?h = (\<lambda>b. if b \<in> set [m] then None else h b)" by auto
    ultimately show ?thesis using holds drops d(9-13) unfolding Cons.hyps(2) [symmetric]
      by (intro exI [of _ "fst (f m w)"] exI [of _ ?w] exI [of _ ms] exI [of _ ?h] exI [of _ mh'] exI [of _ "[m]"]) simp
  next
    case True
    have p: "ms = pending n multi as' bs'" using d(14) True by simp
    obtain ok w' rest h1 mh1 dn where r: "process f ms ?w = (ok, w', rest)" "ms = dn @ rest"
        "HandleMessages (quiet f) n multi ?w ?h mh' = Some (ok, w', h1, mh1)"
        "holds h1 mh1 (drop (length dn - length bs') as') (drop (length dn) bs')"
        "h1 = (\<lambda>b. if b \<in> set dn then None else ?h b)" "mh_pool mh1 = mh_pool mh'" "mh_task mh1 = mh_task mh'"
        "live_ports mh1 = live_ports mh'" "end_callback mh1 = end_callback mh'" "start_callback mh1 = start_callback mh'"
      using Cons.hyps(1) [OF p holds, of ?w] p by auto
    have "handle_loop (quiet f) multi (min_priority n) w h mh' m True = HandleMessages (quiet f) n multi ?w ?h mh'"
      using True d(5,15) msg by (subst handle_loop.simps) (auto simp: quiet_def Let_def priority_at_def HandleMessages_def)
    then have "HandleMessages (quiet f) n multi w h mh = Some (ok, w', h1, mh1)"
      using d(1) r(3) by (simp add: HandleMessages_def [of _ _ _ w h] Let_def)
    moreover have "drop (length dn - length bs') as' = drop (length (m # dn) - length bs) as" "drop (length dn) bs' = drop (length (m # dn)) bs"
      using drops d(8) by (cases "bs"; simp)+
    moreover have "h1 = (\<lambda>b. if b \<in> set (m # dn) then None else h b)" using r(5) by auto
    ultimately show ?thesis using r d(9-13) True unfolding Cons.hyps(2) [symmetric]
      by (intro exI [of _ ok] exI [of _ w'] exI [of _ rest] exI [of _ h1] exI [of _ mh1] exI [of _ "m # dn"]) simp
  qed
qed

lemma flushed_append:
  assumes "flushed port as h h1" "\<And>b. b \<notin> set as \<Longrightarrow> h1 b = h b" "flushed port bs h1 h2" "\<And>b. b \<notin> set bs \<Longrightarrow> h2 b = h1 b"
    and dj: "set as \<inter> set bs = {}"
  shows "flushed port (as @ bs) h h2"
proof -
  have "(b \<in> set (as @ bs) \<and> dest_at h b = port \<longrightarrow> h2 b = None) \<and>
    (\<not> (b \<in> set (as @ bs) \<and> dest_at h b = port) \<longrightarrow> same_message (h2 b) (h b))" for b
  proof (cases "b \<in> set as")
    case True
    then have "b \<notin> set bs" using dj by blast
    then show ?thesis using True assms(1) assms(4) [of b] by (auto simp: flushed_def)
  next
    case False
    then have "h1 b = h b" "dest_at h1 b = dest_at h b" using assms(2) [of b] by (simp_all add: dest_at_def)
    moreover have "b \<in> set bs \<and> dest_at h1 b = port \<longrightarrow> h2 b = None"
      "\<not> (b \<in> set bs \<and> dest_at h1 b = port) \<longrightarrow> same_message (h2 b) (h1 b)"
      using assms(3) unfolding flushed_def by blast+
    ultimately show ?thesis using False by auto
  qed
  then show ?thesis by (simp add: flushed_def)
qed

lemma Flush_holds:
  assumes "holds h mh as bs"
  shows "\<exists>h' mh'. ClosePort h mh port = Some (h', mh') \<and>
    holds h' mh' (filter (\<lambda>a. dest_at h a \<noteq> port) as) (filter (\<lambda>a. dest_at h a \<noteq> port) bs) \<and>
    flushed port (as @ bs) h h' \<and> (\<forall>b. b \<notin> set as \<union> set bs \<longrightarrow> h' b = h b) \<and>
    mh_pool mh' = mh_pool mh \<and> mh_task mh' = mh_task mh \<and> live_ports mh' = live_ports mh"
proof -
  have r: "mq.rep2 h (mh_queue mh) (mh_oob_queue mh) as bs" and p: "\<forall>a \<in> set as. priority_at h a = Some kNormalPriority"
      "\<forall>b \<in> set bs. priority_at h b = Some kOOBPriority" and dj: "set as \<inter> set bs = {}"
    using assms by (auto simp: holds_def mq.rep2_def)
  let ?as = "filter (\<lambda>a. dest_at h a \<noteq> port) as"
  obtain h1 q1 where 1: "Flush h (mh_queue mh) port = Some (h1, q1)" "mq.rep2 h1 q1 (mh_oob_queue mh) ?as bs"
      "flushed port as h h1" "\<forall>b. b \<notin> set as \<longrightarrow> h1 b = h b"
    using mq.flush2 [OF r] by blast
  have "dest_at h1 b = dest_at h b" if "b \<in> set bs" for b using 1(4) that dj by (auto simp: dest_at_def)
  then have bs: "filter (\<lambda>a. dest_at h1 a \<noteq> port) bs = filter (\<lambda>a. dest_at h a \<noteq> port) bs" by (simp cong: filter_cong)
  obtain h2 q2 where 2: "Flush h1 (mh_oob_queue mh) port = Some (h2, q2)"
      "mq.rep2 h2 q2 q1 (filter (\<lambda>a. dest_at h a \<noteq> port) bs) ?as" "flushed port bs h1 h2" "\<forall>b. b \<notin> set bs \<longrightarrow> h2 b = h1 b"
    using mq.flush2 [of h1 "mh_oob_queue mh" q1 bs ?as port] 1(2) mq.rep2_commute unfolding bs by blast
  have fl: "flushed port (as @ bs) h h2" using flushed_append [OF 1(3) _ 2(3) _ dj] 1(4) 2(4) by blast
  have "priority_at h2 a = priority_at h a" if "a \<in> set as \<union> set bs" "dest_at h a \<noteq> port" for a
    using fl that by (intro priority_at_same) (auto simp: flushed_def)
  then have "holds h2 (mh\<lparr>mh_queue := q1, mh_oob_queue := q2\<rparr>) ?as (filter (\<lambda>a. dest_at h a \<noteq> port) bs)"
    using 2(2) mq.rep2_commute p by (auto simp: holds_def)
  then show ?thesis using 1 2 fl by (simp add: ClosePort_def)
qed

lemma FlushAll_holds:
  assumes "holds h mh as bs"
  shows "\<exists>mh'. CloseAllPorts h mh = Some (\<lambda>b. if b \<in> set as \<union> set bs then None else h b, mh') \<and>
    holds (\<lambda>b. if b \<in> set as \<union> set bs then None else h b) mh' [] [] \<and>
    mh_pool mh' = mh_pool mh \<and> mh_task mh' = mh_task mh \<and> live_ports mh' = live_ports mh"
proof -
  let ?h = "\<lambda>b. if b \<in> set as then None else h b"
  have r: "queue_rep h (mh_queue mh) as" "queue_rep h (mh_oob_queue mh) bs" "set as \<inter> set bs = {}"
    using assms by (simp_all add: holds_def mq.rep2_def)
  have "queue_rep ?h (mh_oob_queue mh) bs" by (rule queue_rep_frame [OF r(2)]) (use r(3) in auto)
  then have "FlushAll ?h (mh_oob_queue mh) = Some (\<lambda>b. if b \<in> set bs then None else ?h b, MessageQueue)"
    by (rule FlushAll_correct)
  moreover have "(\<lambda>b. if b \<in> set bs then None else ?h b) = (\<lambda>b. if b \<in> set as \<union> set bs then None else h b)" by auto
  ultimately show ?thesis using FlushAll_correct [OF r(1)]
    by (simp add: CloseAllPorts_def holds_def mq.rep2_def queue_rep_def MessageQueue_def last_addr_def)
qed

subsection \<open>A task and the other threads\<close>

text \<open>Where the task of the handler is: not running, in the start callback, or in
  \<open>HandleMessage\<close>. In the last two the monitor is free. \<open>resume\<close> is what the task does with the
  monitor held, from the point where it would take the next message up to the next point
  where it releases the monitor. The end callback comes after the last use of the handler by
  the task and is not a step, nor is the deletion of the handler.\<close>

datatype task_pc = Waiting | Starting | Handling addr

type_synonym task_state = "heap \<times> msg_handler \<times> task_pc"

definition resume :: "heap \<Rightarrow> msg_handler \<Rightarrow> task_state option" where
  "resume h mh =
     map_option (\<lambda>(mh, message).
       if message \<noteq> 0 then (h, mh, Handling message) else (h, fst (finish_task True mh), Waiting))
     (DequeueMessage h mh kNormalPriority)"

text \<open>Each step is one critical section of a thread. The second part of the state holds the
  messages that calls of \<open>HandleOOBMessages\<close> and \<open>HandleNextMessage\<close> have taken from the queues
  and are handling, with the monitor released.\<close>

inductive handler_step :: "task_state \<times> addr set \<Rightarrow> task_state \<times> addr set \<Rightarrow> bool" where
  begin_start: "mh_task mh \<Longrightarrow> start_callback mh \<Longrightarrow> handler_step ((h, mh, Waiting), held) ((h, mh, Starting), held)"
| begin_handle: "mh_task mh \<Longrightarrow> \<not> start_callback mh \<Longrightarrow> resume h mh = Some s \<Longrightarrow>
    handler_step ((h, mh, Waiting), held) (s, held)"
| started: "resume h (mh\<lparr>start_callback := False\<rparr>) = Some s \<Longrightarrow> handler_step ((h, mh, Starting), held) (s, held)"
| start_failed:
    "handler_step ((h, mh, Starting), held) ((h, fst (finish_task False (mh\<lparr>start_callback := False\<rparr>)), Waiting), held)"
| handled: "resume (h(m := None)) mh = Some s \<Longrightarrow> handler_step ((h, mh, Handling m), held) (s, held)"
| handle_failed: "handler_step ((h, mh, Handling m), held) ((h(m := None), fst (finish_task False mh), Waiting), held)"
| run: "\<not> mh_pool mh \<Longrightarrow> handler_step ((h, mh, pc), held) ((h, fst (Run has_start has_end mh), pc), held)"
| post: "a \<noteq> 0 \<Longrightarrow> h a = None \<Longrightarrow>
    PostMessage (h(a \<mapsto> new_message dest reply data prio)) mh a = Some (h', mh', ev) \<Longrightarrow>
    handler_step ((h, mh, pc), held) ((h', mh', pc), held)"
| close_port: "ClosePort h mh port = Some (h', mh') \<Longrightarrow> handler_step ((h, mh, pc), held) ((h', mh', pc), held)"
| close_all: "CloseAllPorts h mh = Some (h', mh') \<Longrightarrow> handler_step ((h, mh, pc), held) ((h', mh', pc), held)"
| take_oob: "DequeueMessage h mh kOOBPriority = Some (mh', m) \<Longrightarrow> m \<noteq> 0 \<Longrightarrow>
    handler_step ((h, mh, pc), held) ((h, mh', pc), insert m held)"
| take_next: "\<not> mh_pool mh \<Longrightarrow> DequeueMessage h mh kNormalPriority = Some (mh', m) \<Longrightarrow> m \<noteq> 0 \<Longrightarrow>
    handler_step ((h, mh, pc), held) ((h, mh', pc), insert m held)"
| taken_handled: "m \<in> held \<Longrightarrow> handler_step ((h, mh, pc), held) ((h(m := None), mh, pc), held - {m})"
| increment: "handler_step ((h, mh, pc), held) ((h, increment_live_ports mh, pc), held)"
| decrement: "handler_step ((h, mh, pc), held) ((h, decrement_live_ports mh, pc), held)"

inductive handler_reachable :: "task_state \<times> addr set \<Rightarrow> bool" where
  initial: "handler_reachable ((Map.empty, MessageHandler, Waiting), {})"
| step: "handler_reachable s \<Longrightarrow> handler_step s s' \<Longrightarrow> handler_reachable s'"

text \<open>The invariant: the queues are well-formed, the messages that are being handled are
  allocated and in no queue, and while the handler belongs to a pool, waiting messages
  imply a task.\<close>

fun being_handled :: "task_pc \<Rightarrow> addr set" where
  "being_handled (Handling m) = {m}"
| "being_handled pc = {}"

definition sys_ok :: "heap \<Rightarrow> msg_handler \<Rightarrow> task_pc \<Rightarrow> addr set \<Rightarrow> addr list \<Rightarrow> addr list \<Rightarrow> bool" where
  "sys_ok h mh pc held as bs \<longleftrightarrow> holds h mh as bs \<and>
     (mh_pool mh \<and> (as \<noteq> [] \<or> bs \<noteq> []) \<longrightarrow> mh_task mh) \<and> (pc \<noteq> Waiting \<longrightarrow> mh_task mh) \<and>
     (mh_task mh \<longrightarrow> mh_pool mh) \<and> being_handled pc \<inter> held = {} \<and>
     (\<forall>m \<in> being_handled pc \<union> held. m \<notin> set as \<union> set bs \<and> h m \<noteq> None)"

text \<open>What stays with other threads while the task is at work.\<close>

definition held_ok :: "heap \<Rightarrow> addr set \<Rightarrow> addr list \<Rightarrow> addr list \<Rightarrow> bool" where
  "held_ok h held as bs \<longleftrightarrow> (\<forall>m \<in> held. m \<notin> set as \<union> set bs \<and> h m \<noteq> None)"

lemma sys_ok_held: "sys_ok h mh pc held as bs \<Longrightarrow> held_ok h held as bs"
  by (simp add: sys_ok_def held_ok_def)

lemma finish_task_ok:
  assumes "holds h mh as bs" "ok \<longrightarrow> as = [] \<and> bs = []" "held_ok h held as bs"
  shows "sys_ok h (fst (finish_task ok mh)) Waiting held as bs \<or> \<not> mh_pool mh"
  using assms by (auto simp: sys_ok_def held_ok_def finish_task_def Let_def)

lemma finish_task_failed:
  assumes "holds h mh as bs" "held_ok h held as bs" shows "sys_ok h (fst (finish_task False mh)) Waiting held as bs"
  using assms by (simp add: sys_ok_def held_ok_def finish_task_def Let_def)

lemma resume_ok:
  assumes holds: "holds h mh as bs" and task: "mh_task mh" "mh_pool mh" and held: "held_ok h held as bs"
  shows "\<exists>mh' pc as' bs'. resume h mh = Some (h, mh', pc) \<and> sys_ok h mh' pc held as' bs'"
proof (cases "pending True True as bs")
  case Nil
  obtain mh' where d: "DequeueMessage h mh kNormalPriority = Some (mh', 0)" "holds h mh' as bs" "mh_pool mh' = mh_pool mh"
    using DequeueMessage_empty [OF holds Nil] by auto
  have "as = []" "bs = []" using Nil by (simp_all add: pending_def)
  then have "sys_ok h (fst (finish_task True mh')) Waiting held as bs" using finish_task_ok [OF d(2), of True held] held d(3) task by simp
  then show ?thesis using d(1) by (auto simp: resume_def)
next
  case (Cons m ms)
  obtain mh' as' bs' where d: "DequeueMessage h mh kNormalPriority = Some (mh', m)" "holds h mh' as' bs'"
      "m \<notin> set as'" "m \<notin> set bs'" "m \<noteq> 0" "h m \<noteq> None" "mh_pool mh' = mh_pool mh" "mh_task mh' = mh_task mh"
      "bs @ as = m # bs' @ as'"
    using DequeueMessage_next [OF holds Cons] by (metis (full_types))
  have "set as \<union> set bs = insert m (set as' \<union> set bs')" using arg_cong [OF d(9), of set] by auto
  then have "sys_ok h mh' (Handling m) held as' bs'" using d(2-8) task held by (auto simp: sys_ok_def held_ok_def)
  then show ?thesis using d(1,5) by (auto simp: resume_def)
qed

lemma post_ok:
  assumes ok: "sys_ok h mh pc held as bs" and a: "a \<noteq> 0" "h a = None"
  shows "\<exists>h' mh' ev as' bs'. PostMessage (h(a \<mapsto> new_message dest reply data prio)) mh a = Some (h', mh', ev) \<and>
    sys_ok h' mh' pc held as' bs' \<and> a \<in> set as' \<union> set bs'"
proof -
  let ?msg = "new_message dest reply data prio" and ?h = "h(a \<mapsto> new_message dest reply data prio)"
  have holds: "holds h mh as bs" using ok by (simp add: sys_ok_def)
  have new: "a \<notin> set as" "a \<notin> set bs" using holds_mem [OF holds, of a] a(2) by auto
  have "holds ?h mh as bs" by (rule holds_frame [OF holds]) (use new in auto)
  from PostMessage_correct [OF this _ _ a(1) new, of ?msg]
  obtain h' mh' ev where p: "PostMessage ?h mh a = Some (h', mh', ev)"
      "holds h' mh' (if IsOOB ?msg then as else as @ [a]) (if IsOOB ?msg then bs @ [a] else bs)"
      "\<forall>b. same_message (h' b) (?h b)" "mh_pool mh' = mh_pool mh" "mh_task mh' = (mh_task mh \<or> mh_pool mh)"
    by (auto simp: new_message_def)
  have "h' m \<noteq> None \<and> m \<noteq> a" if "m \<in> being_handled pc \<union> held" for m
  proof -
    have "h m \<noteq> None" using that ok by (auto simp: sys_ok_def)
    then show ?thesis using a(2) same_message_None [OF p(3) [rule_format, of m]] by auto
  qed
  then have "sys_ok h' mh' pc held (if IsOOB ?msg then as else as @ [a]) (if IsOOB ?msg then bs @ [a] else bs)"
    using p(2,4,5) ok by (auto simp: sys_ok_def)
  then show ?thesis using p(1) by (intro exI conjI) auto
qed

text \<open>Taking messages away keeps the invariant.\<close>

lemma sys_ok_fewer:
  assumes ok: "sys_ok h mh pc held as bs" and holds: "holds h' mh' as' bs'"
    and same: "mh_pool mh' = mh_pool mh" "mh_task mh' = mh_task mh"
    and fewer: "set as' \<union> set bs' \<subseteq> set as \<union> set bs" and heap: "\<And>m. m \<in> being_handled pc \<union> held \<Longrightarrow> h' m = h m"
  shows "sys_ok h' mh' pc held as' bs'"
proof -
  have "as \<noteq> [] \<or> bs \<noteq> []" if "as' \<noteq> [] \<or> bs' \<noteq> []"
    using that fewer by (metis Un_empty set_empty subset_empty)
  moreover have "m \<notin> set as' \<union> set bs' \<and> h' m \<noteq> None" if "m \<in> being_handled pc \<union> held" for m
    using that ok heap fewer unfolding sys_ok_def by (metis in_mono)
  ultimately show ?thesis using ok holds same by (simp add: sys_ok_def)
qed

lemma close_port_ok:
  assumes ok: "sys_ok h mh pc held as bs"
  shows "\<exists>h' mh' as' bs'. ClosePort h mh port = Some (h', mh') \<and> sys_ok h' mh' pc held as' bs'"
proof -
  have holds: "holds h mh as bs" using ok by (simp add: sys_ok_def)
  obtain h' mh' where c: "ClosePort h mh port = Some (h', mh')"
      "holds h' mh' (filter (\<lambda>a. dest_at h a \<noteq> port) as) (filter (\<lambda>a. dest_at h a \<noteq> port) bs)"
      "\<forall>b. b \<notin> set as \<union> set bs \<longrightarrow> h' b = h b" "mh_pool mh' = mh_pool mh" "mh_task mh' = mh_task mh"
    using Flush_holds [OF holds, of port] by blast
  have "h' m = h m" if "m \<in> being_handled pc \<union> held" for m using that ok c(3) by (simp add: sys_ok_def)
  from sys_ok_fewer [OF ok c(2,4,5) _ this] show ?thesis using c(1) by auto
qed

lemma close_all_ok:
  assumes ok: "sys_ok h mh pc held as bs"
  shows "\<exists>h' mh'. CloseAllPorts h mh = Some (h', mh') \<and> sys_ok h' mh' pc held [] []"
proof -
  have "holds h mh as bs" using ok by (simp add: sys_ok_def)
  from FlushAll_holds [OF this] show ?thesis using ok unfolding sys_ok_def by auto
qed

lemma dequeue_ok:
  assumes ok: "sys_ok h mh pc held as bs" and d: "DequeueMessage h mh prio = Some (mh', m)" "m \<noteq> 0"
  shows "\<exists>as' bs'. sys_ok h mh' pc (insert m held) as' bs'"
proof -
  have holds: "holds h mh as bs" using ok by (simp add: sys_ok_def)
  define n where "n = (prio \<noteq> kOOBPriority)"
  have prio: "prio = min_priority n" by (cases prio) (simp_all add: n_def)
  show ?thesis
  proof (cases "pending n True as bs")
    case Nil
    then obtain mh1 where "DequeueMessage h mh prio = Some (mh1, 0)" unfolding prio by (rule DequeueMessage_empty [OF holds])
    then show ?thesis using d by simp
  next
    case (Cons m1 ms)
    obtain mh1 as' bs' where 1: "DequeueMessage h mh prio = Some (mh1, m1)" "holds h mh1 as' bs'"
        "m1 \<notin> set as'" "m1 \<notin> set bs'" "bs @ as = m1 # bs' @ as'" "mh_pool mh1 = mh_pool mh" "mh_task mh1 = mh_task mh" "h m1 \<noteq> None"
      unfolding prio by (rule DequeueMessage_next [OF holds Cons])
    have eq: "mh1 = mh'" "m1 = m" using 1(1) d(1) by simp_all
    have sub: "set as \<union> set bs = insert m (set as' \<union> set bs')" using arg_cong [OF 1(5), of set] eq by auto
    have "sys_ok h mh' pc held as' bs'"
      using sys_ok_fewer [OF ok 1(2)] 1(6,7) sub unfolding eq by auto
    then have "sys_ok h mh' pc (insert m held) as' bs'"
      using ok sub 1(3,4,8) unfolding sys_ok_def eq by auto
    then show ?thesis by blast
  qed
qed

lemma taken_handled_ok:
  assumes "sys_ok h mh pc held as bs" "m \<in> held"
  shows "sys_ok (h(m := None)) mh pc (held - {m}) as bs"
  using assms holds_delete [of h mh as bs m] unfolding sys_ok_def by auto

lemma handled_delete:
  assumes "sys_ok h mh (Handling m) held as bs"
  shows "holds (h(m := None)) mh as bs" "mh_task mh" "mh_pool mh" "held_ok (h(m := None)) held as bs"
  using assms holds_delete [of h mh as bs m] by (auto simp: sys_ok_def held_ok_def)

definition sys_inv :: "task_state \<times> addr set \<Rightarrow> bool" where
  "sys_inv s \<longleftrightarrow> (\<exists>as bs. case s of ((h, mh, pc), held) \<Rightarrow> sys_ok h mh pc held as bs)"

lemma sys_invI: "sys_ok h mh pc held as bs \<Longrightarrow> sys_inv ((h, mh, pc), held)"
  by (auto simp: sys_inv_def)

lemma sys_invE: "sys_inv ((h, mh, pc), held) \<Longrightarrow> (\<And>as bs. sys_ok h mh pc held as bs \<Longrightarrow> thesis) \<Longrightarrow> thesis"
  by (auto simp: sys_inv_def)

lemma resume_inv:
  assumes "holds h mh as bs" "mh_task mh" "mh_pool mh" "held_ok h held as bs" "resume h mh = Some s"
  shows "sys_inv (s, held)"
  using resume_ok [OF assms(1-4)] assms(5) sys_invI by fastforce

lemma start_holds:
  assumes "sys_ok h mh pc held as bs" "mh_task mh"
  shows "holds h (mh\<lparr>start_callback := False\<rparr>) as bs" "holds h mh as bs" "mh_pool mh" "held_ok h held as bs"
  using assms by (simp_all add: sys_ok_def held_ok_def)

lemma handler_step_inv: "handler_step s s' \<Longrightarrow> sys_inv s \<Longrightarrow> sys_inv s'"
proof (induction rule: handler_step.induct)
  case (begin_start mh h held)
  then show ?case by (auto simp: sys_inv_def sys_ok_def)
next
  case (begin_handle mh h s held)
  then obtain as bs where "sys_ok h mh Waiting held as bs" by (elim sys_invE)
  from resume_inv [OF start_holds(2) [OF this] _ _ start_holds(4) [OF this]] start_holds(3) [OF this] show ?case
    using begin_handle by blast
next
  case (started h mh s held)
  then obtain as bs where ok: "sys_ok h mh Starting held as bs" by (elim sys_invE)
  then have "mh_task mh" by (simp add: sys_ok_def)
  from resume_inv [OF start_holds(1) [OF ok this] _ _ start_holds(4) [OF ok this]] start_holds(3) [OF ok this] this show ?case
    using started by simp
next
  case (start_failed h mh held)
  then obtain as bs where ok: "sys_ok h mh Starting held as bs" by (elim sys_invE)
  then have "holds h (mh\<lparr>start_callback := False\<rparr>) as bs" by (simp add: sys_ok_def)
  from finish_task_failed [OF this sys_ok_held [OF ok]] show ?case by (rule sys_invI)
next
  case (handled h m mh s held)
  then obtain as bs where "sys_ok h mh (Handling m) held as bs" by (elim sys_invE)
  from resume_inv [OF handled_delete [OF this]] show ?case using handled by blast
next
  case (handle_failed h mh m held)
  then obtain as bs where "sys_ok h mh (Handling m) held as bs" by (elim sys_invE)
  from finish_task_failed [OF handled_delete(1,4) [OF this]] show ?case by (rule sys_invI)
next
  case (run mh h pc held has_start has_end)
  then show ?case by (auto simp: sys_inv_def sys_ok_def Run_def)
next
  case (post a h dest reply data prio mh h' mh' ev pc held)
  then obtain as bs where "sys_ok h mh pc held as bs" by (elim sys_invE)
  from post_ok [OF this post.hyps(1,2), of dest reply data prio] show ?case using post.hyps(3) sys_invI by force
next
  case (close_port h mh port h' mh' pc held)
  then obtain as bs where "sys_ok h mh pc held as bs" by (elim sys_invE)
  from close_port_ok [OF this, of port] show ?case using close_port.hyps sys_invI by force
next
  case (close_all h mh h' mh' pc held)
  then obtain as bs where "sys_ok h mh pc held as bs" by (elim sys_invE)
  from close_all_ok [OF this] show ?case using close_all.hyps sys_invI by force
next
  case (take_oob h mh mh' m pc held)
  then obtain as bs where "sys_ok h mh pc held as bs" by (elim sys_invE)
  from dequeue_ok [OF this] show ?case using take_oob.hyps sys_invI by blast
next
  case (take_next mh h mh' m pc held)
  then obtain as bs where "sys_ok h mh pc held as bs" by (elim sys_invE)
  from dequeue_ok [OF this] show ?case using take_next.hyps sys_invI by blast
next
  case (taken_handled m held h mh pc)
  then obtain as bs where "sys_ok h mh pc held as bs" by (elim sys_invE)
  from taken_handled_ok [OF this taken_handled.hyps] show ?case by (rule sys_invI)
next
  case (increment h mh pc held)
  then show ?case by (auto simp: sys_inv_def sys_ok_def increment_live_ports_def)
next
  case (decrement h mh pc held)
  then show ?case by (auto simp: sys_inv_def sys_ok_def decrement_live_ports_def)
qed

lemma handler_reachable_inv: "handler_reachable s \<Longrightarrow> sys_inv s"
proof (induction rule: handler_reachable.induct)
  case initial
  have "sys_ok Map.empty MessageHandler Waiting {} [] []"
    using MessageHandler_holds by (simp add: sys_ok_def MessageHandler_def)
  then show ?case by (rule sys_invI)
next
  case (step s s')
  then show ?case using handler_step_inv by blast
qed

text \<open>Where the task goes on once it holds the monitor again, when what it waited for succeeded.\<close>

fun task_continue :: "task_state \<Rightarrow> task_state option" where
  "task_continue (h, mh, Waiting) = (if start_callback mh then Some (h, mh, Starting) else resume h mh)"
| "task_continue (h, mh, Starting) = resume h (mh\<lparr>start_callback := False\<rparr>)"
| "task_continue (h, mh, Handling m) = resume (h(m := None)) mh"

lemma task_continue_returns:
  assumes ok: "sys_ok h mh pc held as bs" and task: "mh_task mh"
  shows "task_continue (h, mh, pc) \<noteq> None"
proof (cases pc)
  case Waiting
  then show ?thesis using resume_ok [OF start_holds(2) [OF ok task] task start_holds(3,4) [OF ok task]] by auto
next
  case Starting
  then show ?thesis using resume_ok [OF start_holds(1) [OF ok task] _ _ start_holds(4) [OF ok task]] task start_holds(3) [OF ok task] by auto
next
  case (Handling m)
  then show ?thesis using resume_ok [OF handled_delete [OF ok [unfolded Handling]]] by auto
qed

text \<open>C24: No reachable interleaving of the task with posting, closing, starting and handling
  threads loses a wake-up or follows a bad pointer: while the handler belongs to a pool,
  a waiting message implies a scheduled task; the messages being handled, by the task or by
  other threads, are still allocated; every operation another thread may call next returns;
  and a scheduled task can go on.\<close>

theorem message_handler_invariant:
  assumes "handler_reachable ((h, mh, pc), held)"
  shows "(mh_pool mh \<and> (mq_head (mh_queue mh) \<noteq> 0 \<or> mq_head (mh_oob_queue mh) \<noteq> 0) \<longrightarrow> mh_task mh) \<and>
    (\<forall>m. pc = Handling m \<longrightarrow> h m \<noteq> None \<and> m \<notin> held) \<and> (\<forall>m \<in> held. h m \<noteq> None) \<and>
    (mh_task mh \<longrightarrow> task_continue (h, mh, pc) \<noteq> None) \<and>
    (a \<noteq> 0 \<and> h a = None \<longrightarrow> PostMessage (h(a \<mapsto> new_message dest reply data prio)) mh a \<noteq> None) \<and>
    ClosePort h mh port \<noteq> None \<and> CloseAllPorts h mh \<noteq> None \<and> DequeueMessage h mh prio \<noteq> None"
proof -
  obtain as bs where ok: "sys_ok h mh pc held as bs" using handler_reachable_inv [OF assms] by (rule sys_invE)
  then have holds: "holds h mh as bs" by (simp add: sys_ok_def)
  have "mq_head (mh_queue mh) = 0 \<longleftrightarrow> as = []" "mq_head (mh_oob_queue mh) = 0 \<longleftrightarrow> bs = []"
    using holds links_head by (auto simp: holds_def mq.rep2_def queue_rep_def)
  then have "mh_pool mh \<and> (mq_head (mh_queue mh) \<noteq> 0 \<or> mq_head (mh_oob_queue mh) \<noteq> 0) \<longrightarrow> mh_task mh"
    using ok by (auto simp: sys_ok_def)
  moreover have "pc = Handling m \<Longrightarrow> h m \<noteq> None \<and> m \<notin> held" "m \<in> held \<Longrightarrow> h m \<noteq> None" for m using ok by (auto simp: sys_ok_def)
  moreover have "a \<noteq> 0 \<Longrightarrow> h a = None \<Longrightarrow> PostMessage (h(a \<mapsto> new_message dest reply data prio)) mh a \<noteq> None"
    using post_ok [OF ok, of a dest reply data prio] by fastforce
  moreover have "ClosePort h mh port \<noteq> None" "CloseAllPorts h mh \<noteq> None" "DequeueMessage h mh prio \<noteq> None"
    using close_port_ok [OF ok, of port] close_all_ok [OF ok] DequeueMessage_correct [OF holds, of prio] by auto
  ultimately show ?thesis using task_continue_returns [OF ok] by blast
qed

text \<open>A handler that is started with a start callback and gets an ordinary message before its
  task runs, and the same handler while the start callback runs.\<close>

lemma posted_reachable:
  "\<exists>h mh. handler_reachable ((h, mh, Waiting), {}) \<and> handler_reachable ((h, mh, Starting), {}) \<and>
     mh_pool mh \<and> mh_task mh \<and> start_callback mh \<and> mq_head (mh_queue mh) = 1 \<and> mq_head (mh_oob_queue mh) = 0"
proof -
  let ?mh = "fst (Run True False MessageHandler)" and ?h = "Map.empty(1 \<mapsto> new_message 7 0 0 kNormalPriority) :: heap"
  let ?mh1 = "?mh\<lparr>mh_queue := \<lparr>mq_head = 1, mq_tail = 1\<rparr>\<rparr>"
  have 1: "handler_reachable ((Map.empty, ?mh, Waiting), {})"
    by (rule handler_reachable.step [OF handler_reachable.initial]) (rule handler_step.run, simp add: MessageHandler_def)
  have p: "PostMessage ?h ?mh 1 = Some (?h, ?mh1, [MessageNotify kNormalPriority])"
    by (simp add: PostMessage_def Run_def MessageHandler_def MessageQueue_def Enqueue_def new_message_def IsOOB_def)
  have 2: "handler_reachable ((?h, ?mh1, Waiting), {})"
    by (rule handler_reachable.step [OF 1], rule handler_step.post [OF _ _ p]) simp_all
  have "mh_task ?mh1" "start_callback ?mh1" by (simp_all add: Run_def)
  then have "handler_reachable ((?h, ?mh1, Starting), {})"
    by (intro handler_reachable.step [OF 2] handler_step.begin_start)
  then show ?thesis using 2 by (intro exI conjI) (assumption | simp add: Run_def MessageHandler_def MessageQueue_def)+
qed

theorem message_handler_invariant_witness:
  "\<exists>h mh. mh_pool mh \<and> mq_head (mh_queue mh) = 1 \<and> mh_task mh \<and> task_continue (h, mh, Starting) \<noteq> None \<and>
     CloseAllPorts h mh \<noteq> None"
  using posted_reachable message_handler_invariant by (metis (no_types, lifting))

text \<open>C25: A task of a reachable handler returns, when its start callback, if it has one, leads
  to a reachable state of the handler and its handler of messages leaves the queues alone.
  If the start callback fails it handles no message. Otherwise it handles the out-of-band
  messages first, then the ordinary ones, each kind in the order of posting, up to the
  first error; it deletes exactly those, leaves the rest queued, and the task and the start
  callback are gone. The handler stays in the pool exactly when nothing failed and it has live
  ports, and the end callback is called exactly when it does not and there is one.\<close>

theorem task_callback_handles_messages:
  assumes "handler_reachable ((h, mh, Waiting), held)" and "mh_task mh"
    and start: "(if start_callback mh then start w h mh else (True, w, h, mh)) = (ok0, w0, h0, mh0)"
    and "start_callback mh \<Longrightarrow> handler_reachable ((h0, mh0, Starting), held0)"
  shows "\<exists>as bs ok w' done rest h' mh'. holds h0 mh0 as bs \<and> bs @ as = done @ rest \<and>
    (if ok0 then process f (bs @ as) w0 else (False, w0, bs @ as)) = (ok, w', rest) \<and> (ok \<longrightarrow> rest = []) \<and>
    TaskCallback start (quiet f) w h mh = Some (w', h', mh', (\<not> ok \<or> live_ports mh0 \<le> 0) \<and> end_callback mh0) \<and>
    holds h' mh' (drop (length done - length bs) as) (drop (length done) bs) \<and>
    h' = (\<lambda>b. if b \<in> set done then None else h0 b) \<and> \<not> mh_task mh' \<and> \<not> start_callback mh' \<and>
    (mh_pool mh' \<longleftrightarrow> ok \<and> live_ports mh0 > 0)"
proof -
  define mh1 where "mh1 = mh0\<lparr>start_callback := False\<rparr>"
  have "handler_reachable ((h0, mh0, if start_callback mh then Starting else Waiting), if start_callback mh then held0 else held)"
    and task0: "start_callback mh \<or> mh_task mh0"
    using assms by (auto split: if_splits)
  then obtain as bs where ok: "sys_ok h0 mh0 (if start_callback mh then Starting else Waiting) (if start_callback mh then held0 else held) as bs"
    using handler_reachable_inv by (blast elim: sys_invE)
  then have task: "mh_task mh0" using task0 by (auto simp: sys_ok_def split: if_splits)
  have holds: "holds h0 mh0 as bs" "holds h0 mh1 as bs" and pool: "mh_pool mh1"
    using start_holds [OF ok task] by (simp_all add: mh1_def)
  have p: "pending True True as bs = bs @ as" by (simp add: pending_def)
  obtain r w' rest h' mh' dn where q: "(if ok0 then process f (bs @ as) w0 else (False, w0, bs @ as)) = (r, w', rest)" "bs @ as = dn @ rest"
      "(if ok0 then HandleMessages (quiet f) True True w0 h0 mh1 else Some (False, w0, h0, mh1)) = Some (r, w', h', mh')"
      "holds h' mh' (drop (length dn - length bs) as) (drop (length dn) bs)"
      "h' = (\<lambda>b. if b \<in> set dn then None else h0 b)" "mh_pool mh' = mh_pool mh1"
      "live_ports mh' = live_ports mh1" "end_callback mh' = end_callback mh1" "\<not> start_callback mh'"
  proof (cases ok0)
    case True
    then show thesis using that HandleMessages_quiet [OF holds(2), of f True True w0] unfolding p by (auto simp: mh1_def)
  next
    case False
    then show thesis using that [of False w0 "bs @ as" "[]" h0 mh1] holds(2) by (simp add: mh1_def)
  qed
  have rest: "r \<longrightarrow> rest = []" using process_suffix [of f "bs @ as" w0] q(1) by (auto split: if_splits)
  have "mh1 = mh0" if "\<not> start_callback mh" using that start by (simp add: mh1_def)
  then have t: "TaskCallback start (quiet f) w h mh =
      Some (w', h', fst (finish_task r mh'), snd (finish_task r mh') \<and> end_callback (fst (finish_task r mh')))"
    using start q(3) by (cases "start_callback mh") (auto simp: TaskCallback_def Let_def case_prod_beta mh1_def split: if_splits)
  have f: "end_callback (fst (finish_task r mh')) = end_callback mh0" "snd (finish_task r mh') \<longleftrightarrow> \<not> r \<or> live_ports mh0 \<le> 0"
      "\<not> mh_task (fst (finish_task r mh'))" "\<not> start_callback (fst (finish_task r mh'))"
      "mh_pool (fst (finish_task r mh')) \<longleftrightarrow> r \<and> live_ports mh0 > 0"
      "holds h' (fst (finish_task r mh')) cs ds \<longleftrightarrow> holds h' mh' cs ds" for cs ds
    using q(6-9) pool by (auto simp: finish_task_def HasLivePorts_def Let_def mh1_def)
  show ?thesis
    by (intro exI [of _ as] exI [of _ bs] exI [of _ r] exI [of _ w'] exI [of _ dn] exI [of _ rest] exI [of _ h']
        exI [of _ "fst (finish_task r mh')"] conjI holds(1) q(1,2,5) rest t [unfolded f(1,2)] q(4) [folded f(6)] f(3,4,5))
qed

theorem task_callback_handles_messages_witness:
  "\<exists>h mh w' h' mh' end_cb. mq_head (mh_queue mh) = 1 \<and> start_callback mh \<and>
     TaskCallback (\<lambda>w h mh. (True, w @ [0], h, mh)) (quiet (\<lambda>m w. (True, w @ [m]))) [] h mh = Some (w', h', mh', end_cb) \<and>
     \<not> mh_task mh' \<and> \<not> start_callback mh'"
proof -
  obtain h mh where r: "handler_reachable ((h, mh, Waiting), {})" "handler_reachable ((h, mh, Starting), {})" "mh_task mh"
      "start_callback mh" "mq_head (mh_queue mh) = 1"
    using posted_reachable by blast
  let ?start = "\<lambda>w h mh. (True, w @ [0], h, mh)" and ?f = "\<lambda>m w. (True, w @ [m])"
  have "(if start_callback mh then ?start [] h mh else (True, [], h, mh)) = (True, [0], h, mh)" using r(4) by simp
  note task_callback_handles_messages [where start = ?start and f = ?f, OF r(1,3) this r(2)]
  then obtain w' h' mh' end_cb where "TaskCallback ?start (quiet ?f) [] h mh = Some (w', h', mh', end_cb)"
      "\<not> mh_task mh'" "\<not> start_callback mh'"
    by (elim exE conjE)
  then show ?thesis using r(4,5) by blast
qed

end
