(* ===== verification/Port_Map.thy ===== *)
theory Port_Map
  imports Message_Handler Probing "HOL-Library.Multiset" "HOL-Library.Signed_Division"
begin

text \<open>
  The port map of the VM (\<open>runtime/vm/port.h\<close> and \<open>runtime/vm/port.cc\<close>): a hash table with linear
  probing from port numbers to message handlers, with deleted entries. Handlers are
  addresses of a store of handlers, 0 the null pointer and 1 the marker \<open>deleted_entry_\<close>.
  Reading or writing outside the table, following a pointer to no handler and a search that
  does not end are \<open>None\<close>. The counters and port numbers are integers without bound.
\<close>

subsection \<open>The table\<close>

record port_entry =
  pe_port :: dart_port
  pe_handler :: addr
  pe_live :: bool

record port_map =
  pm_map :: "port_entry list"
  pm_capacity :: int
  pm_used :: int
  pm_deleted :: int
  next_port :: dart_port

definition deleted_entry :: addr where
  "deleted_entry = 1"

definition free_entry :: port_entry where
  "free_entry = \<lparr>pe_port = 0, pe_handler = 0, pe_live = False\<rparr>"

definition InitOnce :: port_map where
  "InitOnce = \<lparr>pm_map = replicate 8 free_entry, pm_capacity = 8, pm_used = 0, pm_deleted = 0, next_port = 7111\<rparr>"

definition entry_at :: "port_entry list \<Rightarrow> int \<Rightarrow> port_entry option" where
  "entry_at es index = (if 0 \<le> index \<and> index < int (length es) then Some (es ! nat index) else None)"

partial_function (option) find_loop :: "port_entry list \<Rightarrow> int \<Rightarrow> dart_port \<Rightarrow> int \<Rightarrow> int option" where
  [code]: "find_loop es capacity port index =
     Option.bind (entry_at es index) (\<lambda>entry.
       if pe_handler entry \<noteq> 0
       then if pe_port entry = port then Some index
            else find_loop es capacity port ((index + 1) smod capacity)
       else Some (- 1))"

definition FindPort :: "port_map \<Rightarrow> dart_port \<Rightarrow> int option" where
  "FindPort pm port = find_loop (pm_map pm) (pm_capacity pm) port (port smod pm_capacity pm)"

partial_function (option) unused_loop :: "port_entry list \<Rightarrow> int \<Rightarrow> int \<Rightarrow> int option" where
  [code]: "unused_loop es capacity index =
     Option.bind (entry_at es index) (\<lambda>entry.
       if pe_port entry \<noteq> 0 then unused_loop es capacity ((index + 1) smod capacity) else Some index)"

fun rehash_loop :: "port_entry list \<Rightarrow> int \<Rightarrow> port_entry list \<Rightarrow> port_entry list option" where
  "rehash_loop [] new_capacity new_ports = Some new_ports"
| "rehash_loop (entry # es) new_capacity new_ports =
     (if pe_port entry \<noteq> 0
      then Option.bind (unused_loop new_ports new_capacity (pe_port entry smod new_capacity)) (\<lambda>new_index.
             rehash_loop es new_capacity (new_ports[nat new_index := entry]))
      else rehash_loop es new_capacity new_ports)"

definition Rehash :: "port_map \<Rightarrow> int \<Rightarrow> port_map option" where
  "Rehash pm new_capacity =
     map_option (\<lambda>new_ports. pm\<lparr>pm_map := new_ports, pm_capacity := new_capacity, pm_deleted := 0\<rparr>)
       (rehash_loop (pm_map pm) new_capacity (replicate (nat new_capacity) free_entry))"

partial_function (option) allocate_loop :: "port_map \<Rightarrow> port_map option" where
  [code]: "allocate_loop pm =
     (let pm = pm\<lparr>next_port := next_port pm + 1\<rparr>
      in Option.bind (FindPort pm (next_port pm)) (\<lambda>index. if 0 \<le> index then allocate_loop pm else Some pm))"

definition AllocatePort :: "port_map \<Rightarrow> (port_map \<times> dart_port) option" where
  "AllocatePort pm = (let result = next_port pm in map_option (\<lambda>pm. (pm, result)) (allocate_loop pm))"

definition MaintainInvariants :: "port_map \<Rightarrow> port_map option" where
  "MaintainInvariants pm =
     (let empty = pm_capacity pm - pm_used pm - pm_deleted pm
      in if pm_used pm > (pm_capacity pm div 4) * 3 then Rehash pm (pm_capacity pm * 2)
         else if empty < pm_deleted pm then Rehash pm (pm_capacity pm)
         else Some pm)"

definition CreatePort :: "port_map \<Rightarrow> addr \<Rightarrow> (port_map \<times> dart_port) option" where
  "CreatePort pm handler =
     Option.bind (AllocatePort pm) (\<lambda>(pm, port).
       let entry = \<lparr>pe_port = port, pe_handler = handler, pe_live = False\<rparr>
       in Option.bind (unused_loop (pm_map pm) (pm_capacity pm) (port smod pm_capacity pm)) (\<lambda>index.
          Option.bind (entry_at (pm_map pm) index) (\<lambda>cur.
            let pm = (if pe_handler cur = deleted_entry then pm\<lparr>pm_deleted := pm_deleted pm - 1\<rparr> else pm);
                pm = pm\<lparr>pm_map := (pm_map pm)[nat index := entry], pm_used := pm_used pm + 1\<rparr>
            in map_option (\<lambda>pm. (pm, port)) (MaintainInvariants pm))))"

subsection \<open>Ports and handlers\<close>

text \<open>The handlers are a store from addresses; \<open>owned\<close> tells for which handlers the virtual
  method \<open>OwnedByPortMap\<close> returns true.\<close>

record vm_state =
  vm_heap :: heap
  vm_handlers :: "addr \<rightharpoonup> msg_handler"
  vm_ports :: port_map

definition SetLive :: "vm_state \<Rightarrow> dart_port \<Rightarrow> vm_state option" where
  "SetLive vm port =
     Option.bind (FindPort (vm_ports vm) port) (\<lambda>index.
     Option.bind (entry_at (pm_map (vm_ports vm)) index) (\<lambda>entry.
     Option.bind (vm_handlers vm (pe_handler entry)) (\<lambda>mh.
       Some (vm\<lparr>vm_ports := (vm_ports vm)\<lparr>pm_map := (pm_map (vm_ports vm))[nat index := entry\<lparr>pe_live := True\<rparr>]\<rparr>,
                vm_handlers := (vm_handlers vm)(pe_handler entry \<mapsto> increment_live_ports mh)\<rparr>))))"

definition mark_deleted :: "port_entry \<Rightarrow> port_entry" where
  "mark_deleted entry = entry\<lparr>pe_port := 0, pe_handler := deleted_entry\<rparr>"

text \<open>\<open>ClosePort\<close> holds the mutex of the port map only while it takes the port out of the table.
  It then flushes the queues of the handler, under the monitor of the handler, and at last
  looks at the live ports of the handler. These parts are \<open>remove_port\<close>, which returns the
  handler of the port or the null pointer, \<open>flush_port\<close> and \<open>release_handler\<close>; other threads
  run between them.\<close>

definition remove_port :: "vm_state \<Rightarrow> dart_port \<Rightarrow> (vm_state \<times> addr) option" where
  "remove_port vm port =
     Option.bind (FindPort (vm_ports vm) port) (\<lambda>index.
       if index < 0 then Some (vm, 0)
       else
         Option.bind (entry_at (pm_map (vm_ports vm)) index) (\<lambda>entry.
         let handler = pe_handler entry;
             pm = vm_ports vm
         in Option.bind (vm_handlers vm handler) (\<lambda>mh.
            let mh = (if pe_live entry then decrement_live_ports mh else mh)
            in map_option (\<lambda>pm. (vm\<lparr>vm_handlers := (vm_handlers vm)(handler \<mapsto> mh), vm_ports := pm\<rparr>, handler))
                 (MaintainInvariants
                    (pm\<lparr>pm_map := (pm_map pm)[nat index := mark_deleted entry],
                        pm_used := pm_used pm - 1, pm_deleted := pm_deleted pm + 1\<rparr>)))))"

definition flush_port :: "vm_state \<Rightarrow> addr \<Rightarrow> dart_port \<Rightarrow> vm_state option" where
  "flush_port vm handler port =
     Option.bind (vm_handlers vm handler) (\<lambda>mh.
       map_option (\<lambda>(h, mh). vm\<lparr>vm_heap := h, vm_handlers := (vm_handlers vm)(handler \<mapsto> mh)\<rparr>)
         (Message_Handler.ClosePort (vm_heap vm) mh port))"

definition release_handler :: "(addr \<Rightarrow> bool) \<Rightarrow> vm_state \<Rightarrow> addr \<Rightarrow> vm_state option" where
  "release_handler owned vm handler =
     map_option (\<lambda>mh. if \<not> HasLivePorts mh \<and> owned handler then vm\<lparr>vm_handlers := (vm_handlers vm)(handler := None)\<rparr> else vm)
       (vm_handlers vm handler)"

definition ClosePort :: "(addr \<Rightarrow> bool) \<Rightarrow> vm_state \<Rightarrow> dart_port \<Rightarrow> (vm_state \<times> bool) option" where
  "ClosePort owned vm port =
     Option.bind (remove_port vm port) (\<lambda>(vm, handler).
       if handler = 0 then Some (vm, False)
       else
         Option.bind (flush_port vm handler port) (\<lambda>vm.
         Option.bind (release_handler owned vm handler) (\<lambda>vm. Some (vm, True))))"

fun close_ports_loop :: "addr \<Rightarrow> port_entry list \<Rightarrow> msg_handler \<Rightarrow> int \<Rightarrow> port_entry list \<times> msg_handler \<times> int" where
  "close_ports_loop handler [] mh closed = ([], mh, closed)"
| "close_ports_loop handler (entry # es) mh closed =
     (if pe_handler entry = handler
      then
        (case close_ports_loop handler es (if pe_live entry then decrement_live_ports mh else mh) (closed + 1) of
           (es, mh, closed) \<Rightarrow> (mark_deleted entry # es, mh, closed))
      else (case close_ports_loop handler es mh closed of (es, mh, closed) \<Rightarrow> (entry # es, mh, closed)))"

text \<open>\<open>ClosePorts\<close> likewise: \<open>remove_ports\<close> under the mutex, then \<open>flush_ports\<close> under the monitor.\<close>

definition remove_ports :: "vm_state \<Rightarrow> addr \<Rightarrow> vm_state option" where
  "remove_ports vm handler =
     Option.bind (vm_handlers vm handler) (\<lambda>mh.
       case close_ports_loop handler (pm_map (vm_ports vm)) mh 0 of (es, mh, closed) \<Rightarrow>
         let pm = vm_ports vm
         in map_option (\<lambda>pm. vm\<lparr>vm_handlers := (vm_handlers vm)(handler \<mapsto> mh), vm_ports := pm\<rparr>)
              (MaintainInvariants
                 (pm\<lparr>pm_map := es, pm_used := pm_used pm - closed, pm_deleted := pm_deleted pm + closed\<rparr>)))"

definition flush_ports :: "vm_state \<Rightarrow> addr \<Rightarrow> vm_state option" where
  "flush_ports vm handler =
     Option.bind (vm_handlers vm handler) (\<lambda>mh.
       map_option (\<lambda>(h, mh). vm\<lparr>vm_heap := h, vm_handlers := (vm_handlers vm)(handler \<mapsto> mh)\<rparr>)
         (CloseAllPorts (vm_heap vm) mh))"

definition ClosePorts :: "vm_state \<Rightarrow> addr \<Rightarrow> vm_state option" where
  "ClosePorts vm handler = Option.bind (remove_ports vm handler) (\<lambda>vm. flush_ports vm handler)"

definition PostMessage :: "vm_state \<Rightarrow> addr \<Rightarrow> (vm_state \<times> bool) option" where
  "PostMessage vm message =
     Option.bind (vm_heap vm message) (\<lambda>msg.
     Option.bind (FindPort (vm_ports vm) (dest_port msg)) (\<lambda>index.
       if index < 0 then Some (vm\<lparr>vm_heap := (vm_heap vm)(message := None)\<rparr>, False)
       else
         Option.bind (entry_at (pm_map (vm_ports vm)) index) (\<lambda>entry.
         Option.bind (vm_handlers vm (pe_handler entry)) (\<lambda>mh.
         Option.bind (Message_Handler.PostMessage (vm_heap vm) mh message) (\<lambda>(h, mh, events).
           Some (vm\<lparr>vm_heap := h, vm_handlers := (vm_handlers vm)(pe_handler entry \<mapsto> mh)\<rparr>, True))))))"

text \<open>A native message handler (\<open>runtime/vm/native_message_handler.cc\<close>) starts with one live port.\<close>

definition NativeMessageHandler :: msg_handler where
  "NativeMessageHandler = increment_live_ports MessageHandler"

subsection \<open>The invariant of the table\<close>

text \<open>Every entry is free, deleted, or maps a positive port to a handler; ports are unique; no
  free entry lies between the initial position of a port and its entry.\<close>

definition entry_ok :: "port_entry \<Rightarrow> bool" where
  "entry_ok e \<longleftrightarrow> (pe_port e = 0 \<and> pe_handler e \<le> 1) \<or> (0 < pe_port e \<and> 1 < pe_handler e)"

definition home :: "port_entry list \<Rightarrow> dart_port \<Rightarrow> nat" where
  "home es port = nat (port mod int (length es))"

definition table_ok :: "port_entry list \<Rightarrow> bool" where
  "table_ok es \<longleftrightarrow> (\<forall>e \<in> set es. entry_ok e) \<and>
     (\<forall>i j. i < length es \<and> j < length es \<and> pe_port (es ! i) = pe_port (es ! j) \<and> pe_port (es ! i) \<noteq> 0 \<longrightarrow> i = j) \<and>
     (\<forall>i k. i < length es \<and> pe_port (es ! i) \<noteq> 0 \<and> k < length es \<and>
        dist (length es) (home es (pe_port (es ! i))) k < dist (length es) (home es (pe_port (es ! i))) i \<longrightarrow>
        pe_handler (es ! k) \<noteq> 0)"

lemma table_okD:
  assumes "table_ok es"
  shows "e \<in> set es \<Longrightarrow> entry_ok e"
    and "i < length es \<Longrightarrow> j < length es \<Longrightarrow> pe_port (es ! i) = pe_port (es ! j) \<Longrightarrow> pe_port (es ! i) \<noteq> 0 \<Longrightarrow> i = j"
    and "i < length es \<Longrightarrow> pe_port (es ! i) \<noteq> 0 \<Longrightarrow> k < length es \<Longrightarrow>
      dist (length es) (home es (pe_port (es ! i))) k < dist (length es) (home es (pe_port (es ! i))) i \<Longrightarrow>
      pe_handler (es ! k) \<noteq> 0"
  using assms unfolding table_ok_def by blast+

lemma home_less: "es \<noteq> [] \<Longrightarrow> home es port < length es"
  by (simp add: home_def nat_less_iff)

lemma home_smod: "0 < port \<Longrightarrow> port smod int (length es) = int (home es port)"
  by (cases "es = []") (simp_all add: home_def signed_modulo_int_def signed_divide_int_def minus_div_mult_eq_mod)

lemma index_smod: "(int i + 1) smod int n = int ((i + 1) mod n)"
proof -
  have "(int i + 1) smod int n = (int i + 1) mod int n"
    by (simp add: signed_modulo_int_def signed_divide_int_def minus_div_mult_eq_mod)
  then show ?thesis by (simp add: zmod_int add.commute)
qed

lemma entry_at_nth [simp]: "i < length es \<Longrightarrow> entry_at es (int i) = Some (es ! i)"
  by (simp add: entry_at_def)

lemma find_loop_first:
  assumes "s < length es" "q < length es" "pe_handler (es ! q) = 0 \<or> pe_port (es ! q) = port"
    and "\<And>k. k < length es \<Longrightarrow> dist (length es) s k < dist (length es) s q \<Longrightarrow> pe_handler (es ! k) \<noteq> 0 \<and> pe_port (es ! k) \<noteq> port"
  shows "find_loop es (int (length es)) port (int s) = Some (if pe_handler (es ! q) = 0 then - 1 else int q)"
proof (rule probe_induct [OF assms(1,2,4)])
  show "find_loop es (int (length es)) port (int q) = Some (if pe_handler (es ! q) = 0 then - 1 else int q)"
    using assms(2,3) by (subst find_loop.simps) auto
  show "find_loop es (int (length es)) port (int i) = Some (if pe_handler (es ! q) = 0 then - 1 else int q)"
    if "i < length es" "pe_handler (es ! i) \<noteq> 0 \<and> pe_port (es ! i) \<noteq> port"
      "find_loop es (int (length es)) port (int ((i + 1) mod length es)) = Some (if pe_handler (es ! q) = 0 then - 1 else int q)" for i
    using that by (subst find_loop.simps) (simp add: index_smod)
qed

lemma unused_loop_first:
  assumes "s < length es" "q < length es" "pe_port (es ! q) = 0"
    and "\<And>k. k < length es \<Longrightarrow> dist (length es) s k < dist (length es) s q \<Longrightarrow> pe_port (es ! k) \<noteq> 0"
  shows "unused_loop es (int (length es)) (int s) = Some (int q)"
proof (rule probe_induct [OF assms(1,2,4)])
  show "unused_loop es (int (length es)) (int q) = Some (int q)"
    using assms(2,3) by (subst unused_loop.simps) simp
  show "unused_loop es (int (length es)) (int i) = Some (int q)"
    if "i < length es" "pe_port (es ! i) \<noteq> 0" "unused_loop es (int (length es)) (int ((i + 1) mod length es)) = Some (int q)" for i
    using that by (subst unused_loop.simps) (simp add: index_smod)
qed

text \<open>With a free entry in the table every search ends; it finds exactly the ports in use.\<close>

lemma find_loop_correct:
  assumes ok: "table_ok es" and free: "f < length es" "pe_handler (es ! f) = 0" and port: "0 < port"
  shows "\<exists>r. find_loop es (int (length es)) port (int (home es port)) = Some r \<and>
    (if port \<in> pe_port ` set es then 0 \<le> r \<and> nat r < length es \<and> pe_port (es ! nat r) = port else r = - 1)"
proof -
  let ?n = "length es" and ?s = "home es port"
  have s: "?s < ?n" using free(1) by (intro home_less) auto
  obtain q where q: "q < ?n" "pe_handler (es ! q) = 0 \<or> pe_port (es ! q) = port"
      "\<forall>k < ?n. dist ?n ?s k < dist ?n ?s q \<longrightarrow> \<not> (pe_handler (es ! k) = 0 \<or> pe_port (es ! k) = port)"
    by (rule first_position_all [of f ?n "\<lambda>k. pe_handler (es ! k) = 0 \<or> pe_port (es ! k) = port" ?s, OF free(1) disjI1 [OF free(2)]])
  have r: "find_loop es (int ?n) port (int ?s) = Some (if pe_handler (es ! q) = 0 then - 1 else int q)"
    by (rule find_loop_first [OF s q(1,2)]) (use q(3) in simp)
  have h: "pe_handler (es ! i) \<noteq> 0" if "i < ?n" "pe_port (es ! i) = port" for i
    using table_okD(1) [OF ok nth_mem [OF that(1)]] that(2) port by (simp add: entry_ok_def)
  show ?thesis
  proof (cases "port \<in> pe_port ` set es")
    case True
    then obtain i where i: "i < ?n" "pe_port (es ! i) = port" by (auto simp: in_set_conv_nth)
    have "pe_port (es ! q) = port"
    proof (rule ccontr)
      assume no: "pe_port (es ! q) \<noteq> port"
      then have "\<not> dist ?n ?s q < dist ?n ?s i" using q(2) table_okD(3) [OF ok i(1) _ q(1)] i(2) port by auto
      moreover have "\<not> dist ?n ?s i < dist ?n ?s q" using q(3) i by blast
      ultimately have "i = q" using dist_inj [OF s i(1) q(1)] by simp
      then show False using no i(2) by simp
    qed
    then show ?thesis using r h [OF q(1)] True q(1) by auto
  next
    case False
    then have "pe_port (es ! q) \<noteq> port" using q(1) nth_mem by blast
    then show ?thesis using r q(2) False by auto
  qed
qed

lemma table_insert:
  assumes ok: "table_ok es" and u: "u < length es" "pe_port (es ! u) = 0"
    and e: "0 < pe_port e" "1 < pe_handler e" "pe_port e \<notin> pe_port ` set es"
  obtains i where "unused_loop es (int (length es)) (pe_port e smod int (length es)) = Some (int i)"
    and "i < length es" "pe_port (es ! i) = 0" "table_ok (es[i := e])"
proof -
  let ?n = "length es" and ?s = "home es (pe_port e)"
  have s: "?s < ?n" using u(1) by (intro home_less) auto
  obtain q where q: "q < ?n" "pe_port (es ! q) = 0" "\<And>k. k < ?n \<Longrightarrow> dist ?n ?s k < dist ?n ?s q \<Longrightarrow> pe_port (es ! k) \<noteq> 0"
    by (rule first_position [of u ?n "\<lambda>k. pe_port (es ! k) = 0" ?s, OF u]) blast
  have loop: "unused_loop es (int ?n) (pe_port e smod int ?n) = Some (int q)"
    unfolding home_smod [OF e(1)] by (rule unused_loop_first [OF s q])
  let ?es = "es[q := e]"
  have nth: "?es ! k = (if k = q then e else es ! k)" if "k < ?n" for k using that by simp
  have home: "home ?es p = home es p" for p by (simp add: home_def)
  have new: "pe_port (es ! k) \<noteq> pe_port e" if "k < ?n" for k using e(3) that nth_mem by (metis imageI)
  have used: "pe_handler (es ! k) \<noteq> 0" if "k < ?n" "pe_port (es ! k) \<noteq> 0" for k
    using table_okD(1) [OF ok nth_mem [OF that(1)]] that(2) by (auto simp: entry_ok_def)
  have entry_ok: "entry_ok e" using e by (simp add: entry_ok_def)
  have "table_ok ?es"
    unfolding table_ok_def length_list_update home
  proof (intro conjI allI impI ballI; (elim conjE)?)
    show "entry_ok x" if "x \<in> set ?es" for x
      using that table_okD(1) [OF ok, of x] entry_ok set_update_subset_insert [of es q e] by blast
    show "i = j" if "i < ?n" "j < ?n" "pe_port (?es ! i) = pe_port (?es ! j)" "pe_port (?es ! i) \<noteq> 0" for i j
      using that new table_okD(2) [OF ok, of i j] nth by (auto split: if_splits)
    show "pe_handler (?es ! k) \<noteq> 0"
      if "i < ?n" "pe_port (?es ! i) \<noteq> 0" "k < ?n" "dist ?n (home es (pe_port (?es ! i))) k < dist ?n (home es (pe_port (?es ! i))) i" for i k
    proof (cases "k = q \<or> i = q")
      case True
      then show ?thesis using that(3,4) nth [of k] nth [of q] e(2) q(1) q(3) [of k] used [of k] by (cases "k = q") simp_all
    next
      case False
      then show ?thesis using that nth table_okD(3) [OF ok, of i k] by simp
    qed
  qed
  then show thesis using that loop q by blast
qed

text \<open>Marking entries as deleted and changing other fields keep the table well-formed.\<close>

lemma table_weaken:
  assumes ok: "table_ok es" and len: "length es' = length es"
    and same: "\<And>k. k < length es \<Longrightarrow> (pe_port (es' ! k) = pe_port (es ! k) \<and> pe_handler (es' ! k) = pe_handler (es ! k)) \<or>
      (pe_port (es' ! k) = 0 \<and> pe_handler (es' ! k) = 1)"
  shows "table_ok es'"
proof -
  have home: "home es' p = home es p" for p by (simp add: home_def len)
  show ?thesis
    unfolding table_ok_def home len
  proof (intro conjI allI impI ballI; (elim conjE)?)
    show "entry_ok x" if x: "x \<in> set es'" for x
    proof -
      obtain k where k: "k < length es" "x = es' ! k" using x len by (metis in_set_conv_nth)
      then show ?thesis using same [OF k(1)] table_okD(1) [OF ok nth_mem [OF k(1)]] by (auto simp: entry_ok_def)
    qed
    show "j = k" if "j < length es" "k < length es" "pe_port (es' ! j) = pe_port (es' ! k)" "pe_port (es' ! j) \<noteq> 0" for j k
      using that same [of j] same [of k] table_okD(2) [OF ok, of j k] by auto
    show "pe_handler (es' ! k) \<noteq> 0"
      if "j < length es" "pe_port (es' ! j) \<noteq> 0" "k < length es"
        "dist (length es) (home es (pe_port (es' ! j))) k < dist (length es) (home es (pe_port (es' ! j))) j" for j k
    proof -
      have "pe_port (es' ! j) = pe_port (es ! j)" using same [of j] that by auto
      then show ?thesis using that same [of k] table_okD(3) [OF ok, of j k] by auto
    qed
  qed
qed

subsection \<open>Counting entries\<close>

definition entries_of :: "port_entry list \<Rightarrow> port_entry multiset" where
  "entries_of es = filter_mset (\<lambda>e. pe_port e \<noteq> 0) (mset es)"

definition tombs :: "port_entry list \<Rightarrow> nat" where
  "tombs es = size (filter_mset (\<lambda>e. pe_handler e = 1) (mset es))"

lemma entries_of_mem: "e \<in># entries_of es \<longleftrightarrow> e \<in> set es \<and> pe_port e \<noteq> 0"
  by (simp add: entries_of_def)

lemma entries_of_ports: "0 < p \<Longrightarrow> p \<in> pe_port ` set es \<longleftrightarrow> (\<exists>e \<in># entries_of es. pe_port e = p)"
  by (auto simp: entries_of_mem)

lemma count_partition:
  assumes "\<forall>e \<in> set es. entry_ok e"
  shows "size (entries_of es) + tombs es + size (filter_mset (\<lambda>e. pe_handler e = 0) (mset es)) = length es"
  using assms
proof (induction es)
  case (Cons e es)
  then have "entry_ok e" by simp
  then show ?case using Cons by (auto simp: entries_of_def tombs_def entry_ok_def)
qed (simp add: entries_of_def tombs_def)

lemma ex_free:
  assumes "table_ok es" "size (entries_of es) + tombs es < length es"
  obtains f where "f < length es" "pe_handler (es ! f) = 0" "pe_port (es ! f) = 0"
proof -
  have "\<exists>e \<in> set es. pe_handler e = 0"
  proof (rule ccontr)
    assume "\<not> (\<exists>e \<in> set es. pe_handler e = 0)"
    then have none: "filter_mset (\<lambda>e. pe_handler e = 0) (mset es) = {#}" by (induction es) auto
    have "\<forall>e \<in> set es. entry_ok e" using table_okD(1) [OF assms(1)] by blast
    from count_partition [OF this] show False unfolding none using assms(2) by simp
  qed
  then obtain e where e: "e \<in> set es" "pe_handler e = 0" by blast
  then have "pe_port e = 0" using table_okD(1) [OF assms(1)] by (force simp: entry_ok_def)
  then show thesis using that e by (metis in_set_conv_nth)
qed

lemma entries_of_update:
  assumes "i < length es"
  shows "entries_of (es[i := e]) =
    (if pe_port e = 0 then {#} else {#e#}) + (entries_of es - (if pe_port (es ! i) = 0 then {#} else {#es ! i#}))"
  using assms by (auto simp: entries_of_def mset_update)

lemma tombs_update:
  assumes "i < length es"
  shows "tombs (es[i := e]) = of_bool (pe_handler e = 1) + (tombs es - of_bool (pe_handler (es ! i) = 1))"
proof (cases "pe_handler (es ! i) = 1")
  case True
  then have "es ! i \<in># filter_mset (\<lambda>e. pe_handler e = 1) (mset es)" using assms by simp
  then show ?thesis using assms True by (auto simp: tombs_def mset_update size_Diff_singleton)
next
  case False
  then show ?thesis using assms by (auto simp: tombs_def mset_update)
qed

lemma distinct_ports:
  assumes "table_ok es"
  shows "distinct (map pe_port (filter (\<lambda>e. pe_port e \<noteq> 0) es))"
proof -
  have "distinct (map pe_port (filter (\<lambda>e. pe_port e \<noteq> 0) xs))"
    if "\<And>i j. i < length xs \<Longrightarrow> j < length xs \<Longrightarrow> pe_port (xs ! i) = pe_port (xs ! j) \<Longrightarrow> pe_port (xs ! i) \<noteq> 0 \<Longrightarrow> i = j"
    for xs
    using that
  proof (induction xs)
    case (Cons x xs)
    have "pe_port x \<notin> pe_port ` set xs" if "pe_port x \<noteq> 0"
    proof
      assume "pe_port x \<in> pe_port ` set xs"
      then obtain j where "j < length xs" "pe_port (xs ! j) = pe_port x" by (auto simp: in_set_conv_nth)
      then show False using Cons.prems [of 0 "Suc j"] that by simp
    qed
    moreover have "distinct (map pe_port (filter (\<lambda>e. pe_port e \<noteq> 0) xs))"
    proof (rule Cons.IH)
      show "i = j" if "i < length xs" "j < length xs" "pe_port (xs ! i) = pe_port (xs ! j)" "pe_port (xs ! i) \<noteq> 0" for i j
        using Cons.prems [of "Suc i" "Suc j"] that by simp
    qed
    ultimately show ?case by auto
  qed simp
  then show ?thesis using table_okD(2) [OF assms] by blast
qed

text \<open>Rehashing moves every port into the new table and leaves the deleted entries behind.\<close>

lemma rehash_loop_correct:
  assumes "table_ok new" "tombs new = 0" "\<forall>e \<in> set es. entry_ok e"
    and "distinct (map pe_port (filter (\<lambda>e. pe_port e \<noteq> 0) es))"
    and "\<And>e. e \<in> set es \<Longrightarrow> pe_port e \<noteq> 0 \<Longrightarrow> pe_port e \<notin> pe_port ` set new"
    and "size (entries_of new) + size (entries_of es) < length new"
  shows "\<exists>new'. rehash_loop es (int (length new)) new = Some new' \<and> length new' = length new \<and> table_ok new' \<and>
    tombs new' = 0 \<and> entries_of new' = entries_of new + entries_of es"
  using assms
proof (induction es arbitrary: new)
  case (Cons e es)
  show ?case
  proof (cases "pe_port e = 0")
    case True
    then have "entries_of (e # es) = entries_of es" by (simp add: entries_of_def)
    then show ?thesis using Cons.IH [of new] Cons.prems True by simp
  next
    case False
    have ee: "entries_of (e # es) = add_mset e (entries_of es)" using False by (simp add: entries_of_def)
    obtain f where f: "f < length new" "pe_port (new ! f) = 0"
      using ex_free [OF Cons.prems(1)] Cons.prems(2,6) by (metis add.right_neutral add_lessD1)
    have e: "0 < pe_port e" "1 < pe_handler e" "pe_port e \<notin> pe_port ` set new"
      using Cons.prems(3) Cons.prems(5) [of e] False by (auto simp: entry_ok_def)
    obtain i where i: "unused_loop new (int (length new)) (pe_port e smod int (length new)) = Some (int i)"
        "i < length new" "pe_port (new ! i) = 0" "table_ok (new[i := e])"
      by (rule table_insert [OF Cons.prems(1) f e])
    have "tombs (new[i := e]) = 0" using tombs_update [OF i(2), of e] Cons.prems(2) e(2) by simp
    moreover have ents: "entries_of (new[i := e]) = add_mset e (entries_of new)"
      using entries_of_update [OF i(2), of e] i(3) False by simp
    moreover have "pe_port x \<notin> pe_port ` set (new[i := e])" if "x \<in> set es" "pe_port x \<noteq> 0" for x
    proof -
      have "pe_port e \<notin> pe_port ` {x \<in> set es. pe_port x \<noteq> 0}" using Cons.prems(4) False by simp
      then have "pe_port x \<noteq> pe_port e" using that by (metis (mono_tags, lifting) image_eqI mem_Collect_eq)
      moreover have "pe_port x \<notin> pe_port ` set new" using Cons.prems(5) [of x] that by simp
      ultimately show ?thesis using set_update_subset_insert [of new i e] by auto
    qed
    moreover have "distinct (map pe_port (filter (\<lambda>e. pe_port e \<noteq> 0) es))" using Cons.prems(4) by (simp split: if_splits)
    ultimately obtain new' where "rehash_loop es (int (length new)) (new[i := e]) = Some new'" "length new' = length new"
        "table_ok new'" "tombs new' = 0" "entries_of new' = add_mset e (entries_of new) + entries_of es"
      using Cons.IH [of "new[i := e]"] i(4) Cons.prems(3,6) ee by auto
    then show ?thesis using i(1) False ee by simp
  qed
qed (simp add: entries_of_def)

subsection \<open>The invariant of the port map\<close>

definition pm_wf :: "port_map \<Rightarrow> bool" where
  "pm_wf pm \<longleftrightarrow> table_ok (pm_map pm) \<and> pm_capacity pm = int (length (pm_map pm)) \<and>
     8 \<le> length (pm_map pm) \<and> 4 dvd length (pm_map pm) \<and>
     pm_used pm = int (size (entries_of (pm_map pm))) \<and> pm_deleted pm = int (tombs (pm_map pm)) \<and>
     0 < next_port pm \<and> (\<forall>e \<in># entries_of (pm_map pm). pe_port e < next_port pm)"

definition balanced :: "port_map \<Rightarrow> bool" where
  "balanced pm \<longleftrightarrow> pm_used pm \<le> (pm_capacity pm div 4) * 3 \<and> pm_deleted pm \<le> pm_capacity pm - pm_used pm - pm_deleted pm"

lemma pm_wfD:
  assumes "pm_wf pm"
  shows "table_ok (pm_map pm)" "pm_capacity pm = int (length (pm_map pm))" "8 \<le> length (pm_map pm)"
    "4 dvd length (pm_map pm)" "pm_used pm = int (size (entries_of (pm_map pm)))" "pm_deleted pm = int (tombs (pm_map pm))"
    "0 < next_port pm" "e \<in># entries_of (pm_map pm) \<Longrightarrow> pe_port e < next_port pm"
  using assms by (simp_all add: pm_wf_def)

lemma quarters: "4 dvd n \<Longrightarrow> int n div 4 * 3 * 4 = 3 * int n"
  by (auto elim!: dvdE)

lemma balanced_room:
  assumes "pm_wf pm" "balanced pm"
  shows "size (entries_of (pm_map pm)) + tombs (pm_map pm) < length (pm_map pm)"
  using pm_wfD(2-6) [OF assms(1)] assms(2) quarters [OF pm_wfD(4) [OF assms(1)]] unfolding balanced_def by linarith

lemma replicate_free: "table_ok (replicate n free_entry)" "entries_of (replicate n free_entry) = {#}" "tombs (replicate n free_entry) = 0"
proof -
  show "table_ok (replicate n free_entry)" by (auto simp: table_ok_def entry_ok_def free_entry_def)
  show "entries_of (replicate n free_entry) = {#}" by (induction n) (simp_all add: entries_of_def free_entry_def)
  show "tombs (replicate n free_entry) = 0" by (induction n) (simp_all add: tombs_def free_entry_def)
qed

lemma Rehash_correct:
  assumes wf: "pm_wf pm" and n: "8 \<le> n" "4 dvd n" "size (entries_of (pm_map pm)) < n"
  shows "\<exists>pm'. Rehash pm (int n) = Some pm' \<and> pm_wf pm' \<and> pm_capacity pm' = int n \<and> pm_deleted pm' = 0 \<and>
    entries_of (pm_map pm') = entries_of (pm_map pm) \<and> pm_used pm' = pm_used pm \<and> next_port pm' = next_port pm"
proof -
  note w = pm_wfD [OF wf]
  have "pe_port e \<notin> pe_port ` set (replicate n free_entry)" if "pe_port e \<noteq> 0" for e
    using that by (auto simp: free_entry_def)
  then obtain new where "rehash_loop (pm_map pm) (int n) (replicate n free_entry) = Some new" "length new = n" "table_ok new"
      "tombs new = 0" "entries_of new = entries_of (pm_map pm)"
    using rehash_loop_correct [of "replicate n free_entry" "pm_map pm"] replicate_free [of n] table_okD(1) [OF w(1)]
      distinct_ports [OF w(1)] n(3) by auto
  then show ?thesis using w n by (simp add: Rehash_def pm_wf_def)
qed

lemma MaintainInvariants_correct:
  assumes wf: "pm_wf pm"
  shows "\<exists>pm'. MaintainInvariants pm = Some pm' \<and> pm_wf pm' \<and> balanced pm' \<and>
    entries_of (pm_map pm') = entries_of (pm_map pm) \<and> next_port pm' = next_port pm"
proof -
  note w = pm_wfD [OF wf]
  let ?n = "length (pm_map pm)"
  have le: "size (entries_of (pm_map pm)) \<le> ?n"
    using count_partition [of "pm_map pm"] table_okD(1) [OF w(1)] by force
  consider (grow) "pm_used pm > (pm_capacity pm div 4) * 3"
    | (flush) "\<not> pm_used pm > (pm_capacity pm div 4) * 3" "pm_capacity pm - pm_used pm - pm_deleted pm < pm_deleted pm"
    | (keep) "\<not> pm_used pm > (pm_capacity pm div 4) * 3" "\<not> pm_capacity pm - pm_used pm - pm_deleted pm < pm_deleted pm"
    by blast
  then show ?thesis
  proof cases
    case grow
    have q: "4 dvd 2 * ?n" "int (2 * ?n) = pm_capacity pm * 2" "8 \<le> 2 * ?n" "size (entries_of (pm_map pm)) < 2 * ?n"
      using w(2,3,4) le by auto
    obtain pm' where r: "Rehash pm (int (2 * ?n)) = Some pm'" "pm_wf pm'" "pm_capacity pm' = int (2 * ?n)" "pm_deleted pm' = 0"
        "entries_of (pm_map pm') = entries_of (pm_map pm)" "pm_used pm' = pm_used pm" "next_port pm' = next_port pm"
      using Rehash_correct [OF wf q(3,1,4)] by blast
    have "balanced pm'" using r(3,4,6) quarters [OF q(1)] w(5) le by (simp add: balanced_def)
    then show ?thesis using grow r(2,5,7) r(1) [unfolded q(2)] by (simp add: MaintainInvariants_def)
  next
    case flush
    have lt: "size (entries_of (pm_map pm)) < ?n" using flush(1) quarters [OF w(4)] w(2,3,5) by linarith
    obtain pm' where r: "Rehash pm (int ?n) = Some pm'" "pm_wf pm'" "pm_capacity pm' = int ?n" "pm_deleted pm' = 0"
        "entries_of (pm_map pm') = entries_of (pm_map pm)" "pm_used pm' = pm_used pm" "next_port pm' = next_port pm"
      using Rehash_correct [OF wf w(3,4) lt] by blast
    have "balanced pm'" using r(3,4,6) flush(1) lt w(2,5) by (simp add: balanced_def)
    then show ?thesis using flush r w(2) by (simp add: MaintainInvariants_def)
  next
    case keep
    then show ?thesis using wf by (simp add: MaintainInvariants_def balanced_def)
  qed
qed

lemma FindPort_correct:
  assumes wf: "pm_wf pm" "balanced pm" and port: "0 < port"
  shows "\<exists>r. FindPort pm port = Some r \<and>
    (if \<exists>e \<in># entries_of (pm_map pm). pe_port e = port
     then 0 \<le> r \<and> nat r < length (pm_map pm) \<and> pe_port (pm_map pm ! nat r) = port else r = - 1)"
proof -
  note w = pm_wfD [OF wf(1)]
  obtain f where "f < length (pm_map pm)" "pe_handler (pm_map pm ! f) = 0"
    using ex_free [OF w(1) balanced_room [OF wf]] by blast
  from find_loop_correct [OF w(1) this port] show ?thesis
    unfolding FindPort_def w(2) home_smod [OF port] entries_of_ports [OF port] .
qed

lemma AllocatePort_correct:
  assumes wf: "pm_wf pm" "balanced pm"
  shows "AllocatePort pm = Some (pm\<lparr>next_port := next_port pm + 1\<rparr>, next_port pm)"
proof -
  let ?pm = "pm\<lparr>next_port := next_port pm + 1\<rparr>"
  have "pm_wf ?pm" using wf(1) unfolding pm_wf_def by fastforce
  moreover have "balanced ?pm" using wf(2) by (simp add: balanced_def)
  moreover have "\<not> (\<exists>e \<in># entries_of (pm_map pm). pe_port e = next_port pm + 1)" using pm_wfD(8) [OF wf(1)] by fastforce
  ultimately have "FindPort ?pm (next_port pm + 1) = Some (- 1)"
    using FindPort_correct [of ?pm "next_port pm + 1"] pm_wfD(7) [OF wf(1)] by auto
  then have "allocate_loop pm = Some ?pm" by (subst allocate_loop.simps) (simp add: Let_def)
  then show ?thesis by (simp add: AllocatePort_def)
qed

lemma CreatePort_correct:
  assumes wf: "pm_wf pm" "balanced pm" and handler: "1 < handler"
  shows "\<exists>pm'. CreatePort pm handler = Some (pm', next_port pm) \<and> pm_wf pm' \<and> balanced pm' \<and>
    entries_of (pm_map pm') = add_mset \<lparr>pe_port = next_port pm, pe_handler = handler, pe_live = False\<rparr> (entries_of (pm_map pm)) \<and>
    next_port pm' = next_port pm + 1"
proof -
  note w = pm_wfD [OF wf(1)]
  let ?es = "pm_map pm" and ?e = "\<lparr>pe_port = next_port pm, pe_handler = handler, pe_live = False\<rparr>"
  obtain f where f: "f < length ?es" "pe_port (?es ! f) = 0" using ex_free [OF w(1) balanced_room [OF wf]] by blast
  have e: "0 < pe_port ?e" "1 < pe_handler ?e" "pe_port ?e \<notin> pe_port ` set ?es"
    using w(7,8) handler entries_of_ports [OF w(7), of ?es] by fastforce+
  obtain i where i: "unused_loop ?es (int (length ?es)) (next_port pm smod int (length ?es)) = Some (int i)"
      "i < length ?es" "pe_port (?es ! i) = 0" "table_ok (?es[i := ?e])"
    using table_insert [OF w(1) f e] by auto
  have ents: "entries_of (?es[i := ?e]) = add_mset ?e (entries_of ?es)"
    using entries_of_update [OF i(2), of ?e] i(3) e(1) by simp
  have tombs: "int (tombs (?es[i := ?e])) = int (tombs ?es) - of_bool (pe_handler (?es ! i) = 1)"
  proof -
    have "0 < tombs ?es" if "pe_handler (?es ! i) = 1"
    proof -
      have "?es ! i \<in># filter_mset (\<lambda>e. pe_handler e = 1) (mset ?es)" using that i(2) by simp
      then show ?thesis unfolding tombs_def nonempty_has_size [symmetric] by (metis empty_iff set_mset_empty)
    qed
    then show ?thesis using tombs_update [OF i(2), of ?e] handler by auto
  qed
  let ?pm = "pm\<lparr>next_port := next_port pm + 1, pm_deleted := pm_deleted pm - of_bool (pe_handler (?es ! i) = 1),
    pm_map := ?es[i := ?e], pm_used := pm_used pm + 1\<rparr>"
  have "pe_port x < next_port pm + 1" if "x \<in># add_mset ?e (entries_of ?es)" for x using that w(8) [of x] by auto
  then have "pm_wf ?pm" using w(1-7) i(4) ents tombs by (simp add: pm_wf_def)
  then obtain pm' where pm': "MaintainInvariants ?pm = Some pm'" "pm_wf pm'" "balanced pm'"
      "entries_of (pm_map pm') = entries_of (?es[i := ?e])" "next_port pm' = next_port pm + 1"
    using MaintainInvariants_correct [of ?pm] by auto
  have "CreatePort pm handler = Some (pm', next_port pm)"
    using i(1,2) w(2) pm'(1)
    by (cases "pe_handler (?es ! i) = 1") (simp_all add: CreatePort_def AllocatePort_correct [OF wf] Let_def deleted_entry_def)
  then show ?thesis using pm' ents by simp
qed

lemma SetLive_table:
  assumes wf: "pm_wf pm" "balanced pm" and i: "i < length (pm_map pm)" "pe_port (pm_map pm ! i) \<noteq> 0"
  defines "e \<equiv> pm_map pm ! i"
  shows "pm_wf (pm\<lparr>pm_map := (pm_map pm)[i := e\<lparr>pe_live := True\<rparr>]\<rparr>)"
    and "balanced (pm\<lparr>pm_map := (pm_map pm)[i := e\<lparr>pe_live := True\<rparr>]\<rparr>)"
    and "entries_of ((pm_map pm)[i := e\<lparr>pe_live := True\<rparr>]) = add_mset (e\<lparr>pe_live := True\<rparr>) (entries_of (pm_map pm) - {#e#})"
proof -
  note w = pm_wfD [OF wf(1)]
  let ?es = "(pm_map pm)[i := e\<lparr>pe_live := True\<rparr>]"
  have tab: "table_ok ?es" by (rule table_weaken [OF w(1)]) (use i(1) in \<open>auto simp: e_def nth_list_update\<close>)
  show ents: "entries_of ?es = add_mset (e\<lparr>pe_live := True\<rparr>) (entries_of (pm_map pm) - {#e#})"
    using entries_of_update [OF i(1), of "e\<lparr>pe_live := True\<rparr>"] i(2) by (simp add: e_def)
  have e: "e \<in># entries_of (pm_map pm)" using i by (simp add: entries_of_mem e_def)
  then have "size (entries_of ?es) = size (entries_of (pm_map pm))" unfolding ents by (simp add: size_Suc_Diff1)
  moreover have "tombs ?es = tombs (pm_map pm)"
  proof -
    have "1 < pe_handler e" using table_okD(1) [OF w(1), of e] i by (auto simp: e_def entry_ok_def)
    then show ?thesis using tombs_update [OF i(1), of "e\<lparr>pe_live := True\<rparr>"] by (simp add: e_def)
  qed
  moreover have "pe_port x < next_port pm" if "x \<in># entries_of ?es" for x
    using that w(8) [of x] w(8) [OF e] unfolding ents by (auto dest: in_diffD)
  ultimately show "pm_wf (pm\<lparr>pm_map := ?es\<rparr>)" using w(2-7) tab by (simp add: pm_wf_def)
  show "balanced (pm\<lparr>pm_map := ?es\<rparr>)" using wf(2) by (simp add: balanced_def)
qed

lemma close_table:
  assumes wf: "pm_wf pm" and i: "i < length (pm_map pm)" "pe_port (pm_map pm ! i) \<noteq> 0"
  defines "e \<equiv> pm_map pm ! i"
  shows "\<exists>pm'. MaintainInvariants (pm\<lparr>pm_map := (pm_map pm)[i := mark_deleted e], pm_used := pm_used pm - 1,
      pm_deleted := pm_deleted pm + 1\<rparr>) = Some pm' \<and> pm_wf pm' \<and> balanced pm' \<and>
    entries_of (pm_map pm') = entries_of (pm_map pm) - {#e#} \<and> next_port pm' = next_port pm"
proof -
  note w = pm_wfD [OF wf]
  let ?es = "(pm_map pm)[i := mark_deleted e]"
  have tab: "table_ok ?es"
    by (rule table_weaken [OF w(1)]) (use i(1) in \<open>auto simp: mark_deleted_def deleted_entry_def nth_list_update\<close>)
  have ents: "entries_of ?es = entries_of (pm_map pm) - {#e#}"
    using entries_of_update [OF i(1), of "mark_deleted e"] i(2) by (simp add: e_def mark_deleted_def)
  have e: "e \<in># entries_of (pm_map pm)" using i by (simp add: entries_of_mem e_def)
  have "1 < pe_handler e" using table_okD(1) [OF w(1), of e] i by (auto simp: e_def entry_ok_def)
  then have "tombs ?es = Suc (tombs (pm_map pm))"
    using tombs_update [OF i(1), of "mark_deleted e"] by (simp add: e_def mark_deleted_def deleted_entry_def)
  moreover have "int (size (entries_of ?es)) = pm_used pm - 1"
    unfolding ents w(5) using size_Suc_Diff1 [OF e] by linarith
  moreover have "pe_port x < next_port pm" if "x \<in># entries_of ?es" for x
    using that w(8) [of x] unfolding ents by (auto dest: in_diffD)
  ultimately have "pm_wf (pm\<lparr>pm_map := ?es, pm_used := pm_used pm - 1, pm_deleted := pm_deleted pm + 1\<rparr>)"
    using w(2-7) tab by (simp add: pm_wf_def)
  from MaintainInvariants_correct [OF this] show ?thesis using ents by simp
qed

lemma close_ports_loop_map:
  "close_ports_loop handler es mh closed =
   (map (\<lambda>e. if pe_handler e = handler then mark_deleted e else e) es,
    mh\<lparr>live_ports := live_ports mh - int (length (filter (\<lambda>e. pe_handler e = handler \<and> pe_live e) es))\<rparr>,
    closed + int (length (filter (\<lambda>e. pe_handler e = handler) es)))"
  by (induction es arbitrary: mh closed) (simp_all add: decrement_live_ports_def)

lemma mark_all_counts:
  assumes "\<forall>e \<in> set es. entry_ok e" "1 < handler"
  defines "es' \<equiv> map (\<lambda>e. if pe_handler e = handler then mark_deleted e else e) es"
  shows "entries_of es' = filter_mset (\<lambda>e. pe_handler e \<noteq> handler) (entries_of es)"
    and "tombs es' = tombs es + length (filter (\<lambda>e. pe_handler e = handler) es)"
    and "size (entries_of es) = size (entries_of es') + length (filter (\<lambda>e. pe_handler e = handler) es)"
  using assms(1,2) unfolding es'_def
  by (induction es) (auto simp: entries_of_def tombs_def mark_deleted_def deleted_entry_def entry_ok_def)

lemma close_ports_table:
  assumes wf: "pm_wf pm" and handler: "1 < handler"
  defines "es \<equiv> map (\<lambda>e. if pe_handler e = handler then mark_deleted e else e) (pm_map pm)"
    and "closed \<equiv> int (length (filter (\<lambda>e. pe_handler e = handler) (pm_map pm)))"
  shows "\<exists>pm'. MaintainInvariants (pm\<lparr>pm_map := es, pm_used := pm_used pm - closed, pm_deleted := pm_deleted pm + closed\<rparr>) = Some pm' \<and>
    pm_wf pm' \<and> balanced pm' \<and>
    entries_of (pm_map pm') = filter_mset (\<lambda>e. pe_handler e \<noteq> handler) (entries_of (pm_map pm)) \<and> next_port pm' = next_port pm"
proof -
  note w = pm_wfD [OF wf]
  have "\<forall>e \<in> set (pm_map pm). entry_ok e" using table_okD(1) [OF w(1)] by blast
  note counts = mark_all_counts [OF this handler, folded es_def]
  have tab: "table_ok es"
    by (rule table_weaken [OF w(1)]) (auto simp: es_def mark_deleted_def deleted_entry_def)
  have "pe_port x < next_port pm" if "x \<in># entries_of es" for x using that w(8) [of x] unfolding counts(1) by simp
  then have "pm_wf (pm\<lparr>pm_map := es, pm_used := pm_used pm - closed, pm_deleted := pm_deleted pm + closed\<rparr>)"
    using w(2-7) tab counts(2,3) by (simp add: pm_wf_def closed_def) (simp add: es_def)
  from MaintainInvariants_correct [OF this] show ?thesis using counts(1) by simp
qed

subsection \<open>The ports as a map\<close>

definition ports_of :: "port_entry list \<Rightarrow> dart_port \<rightharpoonup> addr \<times> bool" where
  "ports_of es = map_of (map (\<lambda>e. (pe_port e, (pe_handler e, pe_live e))) (filter (\<lambda>e. pe_port e \<noteq> 0) es))"

lemma ports_of_iff:
  assumes "table_ok es"
  shows "ports_of es p = Some (a, l) \<longleftrightarrow> \<lparr>pe_port = p, pe_handler = a, pe_live = l\<rparr> \<in># entries_of es"
proof -
  have "distinct (map fst (map (\<lambda>e. (pe_port e, (pe_handler e, pe_live e))) (filter (\<lambda>e. pe_port e \<noteq> 0) es)))"
    using distinct_ports [OF assms] by (simp add: comp_def)
  then have "ports_of es p = Some (a, l) \<longleftrightarrow> (\<exists>e \<in> set es. pe_port e \<noteq> 0 \<and> pe_port e = p \<and> pe_handler e = a \<and> pe_live e = l)"
    unfolding ports_of_def by (auto simp: map_of_eq_Some_iff)
  also have "\<dots> \<longleftrightarrow> \<lparr>pe_port = p, pe_handler = a, pe_live = l\<rparr> \<in># entries_of es"
  proof
    assume "\<exists>e \<in> set es. pe_port e \<noteq> 0 \<and> pe_port e = p \<and> pe_handler e = a \<and> pe_live e = l"
    then obtain e where e: "e \<in> set es" "pe_port e \<noteq> 0" "pe_port e = p" "pe_handler e = a" "pe_live e = l" by blast
    have eq: "\<lparr>pe_port = p, pe_handler = a, pe_live = l\<rparr> = e" by (cases e) (use e(3-5) in simp)
    show "\<lparr>pe_port = p, pe_handler = a, pe_live = l\<rparr> \<in># entries_of es" unfolding eq using e(1,2) by (simp add: entries_of_mem)
  qed (force simp: entries_of_mem)
  finally show ?thesis .
qed

lemma ports_of_eqI:
  assumes "table_ok es" "\<And>p a l. \<lparr>pe_port = p, pe_handler = a, pe_live = l\<rparr> \<in># entries_of es \<longleftrightarrow> m p = Some (a, l)"
  shows "ports_of es = m"
proof
  fix p
  have "ports_of es p = Some v \<longleftrightarrow> m p = Some v" for v using ports_of_iff [OF assms(1), of p "fst v" "snd v"] assms(2) by simp
  then show "ports_of es p = m p" by (metis option.exhaust)
qed

lemma ports_of_None:
  assumes "table_ok es"
  shows "ports_of es p = None \<longleftrightarrow> \<not> (\<exists>e \<in># entries_of es. pe_port e = p)"
proof -
  have "(\<exists>e \<in># entries_of es. pe_port e = p) \<longleftrightarrow> (\<exists>a l. ports_of es p = Some (a, l))"
    unfolding ports_of_iff [OF assms] by (metis port_entry.surjective old.unit.exhaust port_entry.select_convs(1))
  then show ?thesis by (metis option.exhaust surj_pair not_None_eq)
qed

lemma entries_unique:
  assumes tab: "table_ok es" and e: "entries_of es = add_mset e es'" and x: "x \<in># es'"
  shows "pe_port x \<noteq> pe_port e"
proof
  assume eq: "pe_port x = pe_port e"
  have "mset (map pe_port (filter (\<lambda>e. pe_port e \<noteq> 0) es)) = image_mset pe_port (entries_of es)" by (simp add: entries_of_def)
  then have "count (image_mset pe_port (entries_of es)) (pe_port e) \<le> 1"
    using distinct_ports [OF tab] by (metis distinct_count_atmost_1 le_refl zero_le_one)
  moreover have "pe_port e \<in># image_mset pe_port es'" using x eq by (metis image_eqI set_image_mset)
  then have "0 < count (image_mset pe_port es') (pe_port e)" by (simp only: count_greater_zero_iff)
  ultimately show False unfolding e by simp
qed

text \<open>The map after opening, changing and closing a port, and after closing those of a handler.\<close>

lemma ports_of_insert:
  assumes "table_ok es" "table_ok es'" "entries_of es' = add_mset \<lparr>pe_port = p, pe_handler = a, pe_live = l\<rparr> (entries_of es)"
    "\<And>e. e \<in># entries_of es \<Longrightarrow> pe_port e \<noteq> p"
  shows "ports_of es' = (ports_of es)(p \<mapsto> (a, l))"
proof (rule ports_of_eqI [OF assms(2)])
  show "\<lparr>pe_port = q, pe_handler = b, pe_live = k\<rparr> \<in># entries_of es' \<longleftrightarrow> ((ports_of es)(p \<mapsto> (a, l))) q = Some (b, k)" for q b k
    unfolding assms(3) using assms(4) [of "\<lparr>pe_port = q, pe_handler = b, pe_live = k\<rparr>"] ports_of_iff [OF assms(1), of q b k] by auto
qed

lemma ports_of_remove:
  assumes "table_ok es" "table_ok es'" "entries_of es = add_mset \<lparr>pe_port = p, pe_handler = a, pe_live = l\<rparr> (entries_of es')"
  shows "ports_of es' = (ports_of es)(p := None)"
proof (rule ports_of_eqI [OF assms(2)])
  show "\<lparr>pe_port = q, pe_handler = b, pe_live = k\<rparr> \<in># entries_of es' \<longleftrightarrow> ((ports_of es)(p := None)) q = Some (b, k)" for q b k
    using ports_of_iff [OF assms(1), of q b k] entries_unique [OF assms(1,3), of "\<lparr>pe_port = q, pe_handler = b, pe_live = k\<rparr>"]
    unfolding assms(3) by auto
qed

lemma ports_of_change:
  assumes tab: "table_ok es" "table_ok es'" and old: "\<lparr>pe_port = p, pe_handler = a, pe_live = k\<rparr> \<in># entries_of es"
    and new: "entries_of es' = add_mset \<lparr>pe_port = p, pe_handler = a, pe_live = l\<rparr>
      (entries_of es - {#\<lparr>pe_port = p, pe_handler = a, pe_live = k\<rparr>#})"
  shows "ports_of es' = (ports_of es)(p \<mapsto> (a, l))"
proof (rule ports_of_eqI [OF tab(2)])
  let ?e = "\<lparr>pe_port = p, pe_handler = a, pe_live = k\<rparr>"
  have split: "entries_of es = add_mset ?e (entries_of es - {#?e#})" using old by simp
  show "\<lparr>pe_port = q, pe_handler = b, pe_live = j\<rparr> \<in># entries_of es' \<longleftrightarrow> ((ports_of es)(p \<mapsto> (a, l))) q = Some (b, j)" for q b j
  proof (cases "q = p")
    case True
    then show ?thesis using entries_unique [OF tab(1) split, of "\<lparr>pe_port = q, pe_handler = b, pe_live = j\<rparr>"] by (auto simp: new)
  next
    case False
    have "x \<in># entries_of es - {#?e#} \<longleftrightarrow> x \<in># entries_of es" if "pe_port x \<noteq> p" for x
    proof -
      have "x \<noteq> ?e" using that by auto
      then show ?thesis by (simp add: in_diff_count)
    qed
    then show ?thesis using False ports_of_iff [OF tab(1), of q b j] by (auto simp: new)
  qed
qed

lemma ports_of_filter:
  assumes "table_ok es" "table_ok es'" "entries_of es' = filter_mset (\<lambda>e. pe_handler e \<noteq> a) (entries_of es)"
  shows "ports_of es' = (\<lambda>p. case ports_of es p of Some (b, l) \<Rightarrow> if b = a then None else Some (b, l) | None \<Rightarrow> None)"
proof (rule ports_of_eqI [OF assms(2)])
  show "\<lparr>pe_port = q, pe_handler = b, pe_live = k\<rparr> \<in># entries_of es' \<longleftrightarrow>
      (case ports_of es q of Some (b, l) \<Rightarrow> if b = a then None else Some (b, l) | None \<Rightarrow> None) = Some (b, k)" for q b k
    unfolding assms(3) using ports_of_iff [OF assms(1), of q b k] by (auto split: option.splits)
qed

end
