(* ===== verification/Message_Routing.thy ===== *)
theory Message_Routing
  imports Port_Map
begin

text \<open>
  Messages between handlers: the port map, the handlers and their queues together, as the
  threads of the VM use them. The operations are those of \<open>runtime/vm/port.cc\<close> with the
  creation and the disposal of handlers and the taking of messages by the task of a handler
  (\<open>runtime/vm/message_handler.cc\<close>). A step is what a thread does under one lock, so a port that
  is being closed is first gone from the table and its messages are flushed in a later step. The
  theory shows that ports behave like a map from port numbers to handlers and that a handler
  only ever holds messages for its ports that are open or in the course of being closed.
\<close>

subsection \<open>Steps of the VM\<close>

text \<open>Calls of \<open>ClosePort\<close> and \<open>ClosePorts\<close> that have released the mutex of the port map and are
  still to flush queues, or to look at the live ports of the handler.\<close>

datatype close_call = Flushing addr dart_port | Releasing addr | FlushingAll addr

fun call_handler :: "close_call \<Rightarrow> addr" where
  "call_handler (Flushing a port) = a"
| "call_handler (Releasing a) = a"
| "call_handler (FlushingAll a) = a"

text \<open>The state of all threads: the shared state, the calls in progress, and the messages that
  have been taken from a queue and are being handled.\<close>

record vm_sys =
  sys_vm :: vm_state
  sys_calls :: "close_call multiset"
  sys_held :: "addr set"

datatype vm_op = NewHandler addr | NewPort addr | MakeLive dart_port | Close dart_port | CloseAll addr
  | Resume close_call | Send addr message | Receive addr priority | Handled addr | Dispose addr

datatype vm_out = Done | Opened dart_port | Flag bool | Got addr

definition with_vm :: "vm_sys \<Rightarrow> vm_state \<Rightarrow> vm_sys" where
  "with_vm s vm = s\<lparr>sys_vm := vm\<rparr>"

fun resume_call :: "(addr \<Rightarrow> bool) \<Rightarrow> vm_state \<Rightarrow> close_call \<Rightarrow> (vm_state \<times> close_call multiset) option" where
  "resume_call owned vm (Flushing a port) = map_option (\<lambda>vm. (vm, {#Releasing a#})) (flush_port vm a port)"
| "resume_call owned vm (Releasing a) = map_option (\<lambda>vm. (vm, {#})) (release_handler owned vm a)"
| "resume_call owned vm (FlushingAll a) = map_option (\<lambda>vm. (vm, {#})) (flush_ports vm a)"

text \<open>The result of \<open>ClosePort\<close> is known, and given here, when the table has been searched.\<close>

fun vm_step :: "(addr \<Rightarrow> bool) \<Rightarrow> vm_sys \<Rightarrow> vm_op \<Rightarrow> (vm_sys \<times> vm_out) option" where
  "vm_step owned s (NewHandler a) =
     Some (with_vm s ((sys_vm s)\<lparr>vm_handlers := (vm_handlers (sys_vm s))(a \<mapsto> if owned a then NativeMessageHandler else MessageHandler)\<rparr>), Done)"
| "vm_step owned s (NewPort a) =
     map_option (\<lambda>(pm, port). (with_vm s ((sys_vm s)\<lparr>vm_ports := pm\<rparr>), Opened port)) (CreatePort (vm_ports (sys_vm s)) a)"
| "vm_step owned s (MakeLive port) = map_option (\<lambda>vm. (with_vm s vm, Done)) (SetLive (sys_vm s) port)"
| "vm_step owned s (Close port) =
     map_option (\<lambda>(vm, a). if a = 0 then (with_vm s vm, Flag False)
         else (s\<lparr>sys_vm := vm, sys_calls := add_mset (Flushing a port) (sys_calls s)\<rparr>, Flag True))
       (remove_port (sys_vm s) port)"
| "vm_step owned s (CloseAll a) =
     map_option (\<lambda>vm. (s\<lparr>sys_vm := vm, sys_calls := add_mset (FlushingAll a) (sys_calls s)\<rparr>, Done)) (remove_ports (sys_vm s) a)"
| "vm_step owned s (Resume c) =
     map_option (\<lambda>(vm, next). (s\<lparr>sys_vm := vm, sys_calls := sys_calls s - {#c#} + next\<rparr>, Done)) (resume_call owned (sys_vm s) c)"
| "vm_step owned s (Send m msg) =
     map_option (\<lambda>(vm, sent). (with_vm s vm, Flag sent)) (PostMessage ((sys_vm s)\<lparr>vm_heap := (vm_heap (sys_vm s))(m \<mapsto> msg)\<rparr>) m)"
| "vm_step owned s (Receive a prio) =
     Option.bind (vm_handlers (sys_vm s) a) (\<lambda>mh.
       map_option (\<lambda>(mh, m).
           (s\<lparr>sys_vm := (sys_vm s)\<lparr>vm_handlers := (vm_handlers (sys_vm s))(a \<mapsto> mh)\<rparr>,
              sys_held := (if m = 0 then sys_held s else insert m (sys_held s))\<rparr>, Got m))
         (DequeueMessage (vm_heap (sys_vm s)) mh prio))"
| "vm_step owned s (Handled m) =
     Some (s\<lparr>sys_vm := (sys_vm s)\<lparr>vm_heap := (vm_heap (sys_vm s))(m := None)\<rparr>, sys_held := sys_held s - {m}\<rparr>, Done)"
| "vm_step owned s (Dispose a) =
     Some (with_vm s ((sys_vm s)\<lparr>vm_handlers := (vm_handlers (sys_vm s))(a := None)\<rparr>), Done)"

definition initial_vm :: vm_sys where
  "initial_vm =
     \<lparr>sys_vm = \<lparr>vm_heap = Map.empty, vm_handlers = Map.empty, vm_ports = InitOnce\<rparr>, sys_calls = {#}, sys_held = {}\<rparr>"

abbreviation vm_entries :: "vm_state \<Rightarrow> port_entry multiset" where
  "vm_entries vm \<equiv> entries_of (pm_map (vm_ports vm))"

abbreviation open_ports :: "vm_state \<Rightarrow> dart_port \<rightharpoonup> addr \<times> bool" where
  "open_ports vm \<equiv> ports_of (pm_map (vm_ports vm))"

text \<open>What the callers of the operations guarantee: a new handler or message has a new address,
  ports are for handlers that exist, a port is made live once, port numbers are positive, a
  call goes on and a message is done with only once, and a handler is disposed of by its
  isolate, after its ports have been closed and no call on it is in progress.\<close>

fun op_ok :: "(addr \<Rightarrow> bool) \<Rightarrow> vm_sys \<Rightarrow> vm_op \<Rightarrow> bool" where
  "op_ok owned s (NewHandler a) \<longleftrightarrow> 1 < a \<and> vm_handlers (sys_vm s) a = None"
| "op_ok owned s (NewPort a) \<longleftrightarrow> vm_handlers (sys_vm s) a \<noteq> None"
| "op_ok owned s (MakeLive port) \<longleftrightarrow> (case open_ports (sys_vm s) port of Some (a, l) \<Rightarrow> \<not> l | None \<Rightarrow> False)"
| "op_ok owned s (Close port) \<longleftrightarrow> 0 < port"
| "op_ok owned s (CloseAll a) \<longleftrightarrow> vm_handlers (sys_vm s) a \<noteq> None"
| "op_ok owned s (Resume c) \<longleftrightarrow> c \<in># sys_calls s"
| "op_ok owned s (Send m msg) \<longleftrightarrow> m \<noteq> 0 \<and> vm_heap (sys_vm s) m = None \<and> msg_next msg = 0 \<and> 0 < dest_port msg"
| "op_ok owned s (Receive a prio) \<longleftrightarrow> vm_handlers (sys_vm s) a \<noteq> None"
| "op_ok owned s (Handled m) \<longleftrightarrow> m \<in> sys_held s"
| "op_ok owned s (Dispose a) \<longleftrightarrow> \<not> owned a \<and> list_all (\<lambda>e. pe_handler e \<noteq> a) (pm_map (vm_ports (sys_vm s))) \<and>
     (\<forall>c \<in># sys_calls s. call_handler c \<noteq> a)"

inductive vm_reachable :: "(addr \<Rightarrow> bool) \<Rightarrow> vm_sys \<Rightarrow> bool" for owned where
  initial: "vm_reachable owned initial_vm"
| step: "vm_reachable owned s \<Longrightarrow> op_ok owned s c \<Longrightarrow> vm_step owned s c = Some (s', out) \<Longrightarrow> vm_reachable owned s'"

subsection \<open>The invariant\<close>

text \<open>\<open>msgs\<close> gives the ordinary and the out-of-band messages that wait for each handler, and
  \<open>closing\<close> says that a call in progress is still to flush the messages for a port.\<close>

type_synonym queues = "addr \<Rightarrow> addr list \<times> addr list"

definition queued :: "queues \<Rightarrow> addr \<Rightarrow> addr set" where
  "queued msgs a = set (fst (msgs a)) \<union> set (snd (msgs a))"

definition live_count :: "port_entry multiset \<Rightarrow> addr \<Rightarrow> nat" where
  "live_count es a = size (filter_mset (\<lambda>e. pe_handler e = a \<and> pe_live e) es)"

definition closing :: "close_call multiset \<Rightarrow> addr \<Rightarrow> dart_port \<Rightarrow> bool" where
  "closing calls a port \<longleftrightarrow> Flushing a port \<in># calls \<or> FlushingAll a \<in># calls"

definition dest_ok :: "port_entry multiset \<Rightarrow> close_call multiset \<Rightarrow> addr \<Rightarrow> dart_port \<Rightarrow> bool" where
  "dest_ok es calls a port \<longleftrightarrow> (\<exists>e \<in># es. pe_port e = port \<and> pe_handler e = a) \<or> closing calls a port"

definition handler_ok :: "(addr \<Rightarrow> bool) \<Rightarrow> heap \<Rightarrow> port_entry multiset \<Rightarrow> close_call multiset \<Rightarrow> queues \<Rightarrow> addr \<Rightarrow> msg_handler \<Rightarrow> bool" where
  "handler_ok owned h es calls msgs a mh \<longleftrightarrow> 1 < a \<and> holds h mh (fst (msgs a)) (snd (msgs a)) \<and>
     live_ports mh = of_bool (owned a) + int (live_count es a) \<and>
     (\<forall>m \<in> queued msgs a. dest_ok es calls a (dest_at h m))"

definition vm_ok :: "(addr \<Rightarrow> bool) \<Rightarrow> vm_state \<Rightarrow> close_call multiset \<Rightarrow> addr set \<Rightarrow> queues \<Rightarrow> bool" where
  "vm_ok owned vm calls held msgs \<longleftrightarrow> pm_wf (vm_ports vm) \<and> balanced (vm_ports vm) \<and>
     (\<forall>e \<in># vm_entries vm. vm_handlers vm (pe_handler e) \<noteq> None) \<and>
     (\<forall>a mh. vm_handlers vm a = Some mh \<longrightarrow> handler_ok owned (vm_heap vm) (vm_entries vm) calls msgs a mh) \<and>
     (\<forall>a b. vm_handlers vm a \<noteq> None \<and> vm_handlers vm b \<noteq> None \<and> a \<noteq> b \<longrightarrow> queued msgs a \<inter> queued msgs b = {}) \<and>
     (\<forall>c \<in># calls. vm_handlers vm (call_handler c) \<noteq> None) \<and>
     (\<forall>m \<in> held. vm_heap vm m \<noteq> None \<and> (\<forall>a. vm_handlers vm a \<noteq> None \<longrightarrow> m \<notin> queued msgs a))"

lemma vm_okD:
  assumes "vm_ok owned vm calls held msgs"
  shows "pm_wf (vm_ports vm)" "balanced (vm_ports vm)" "table_ok (pm_map (vm_ports vm))"
    and "e \<in># vm_entries vm \<Longrightarrow> vm_handlers vm (pe_handler e) \<noteq> None"
    and "vm_handlers vm a = Some mh \<Longrightarrow> handler_ok owned (vm_heap vm) (vm_entries vm) calls msgs a mh"
    and "vm_handlers vm a \<noteq> None \<Longrightarrow> vm_handlers vm b \<noteq> None \<Longrightarrow> a \<noteq> b \<Longrightarrow> queued msgs a \<inter> queued msgs b = {}"
    and "c \<in># calls \<Longrightarrow> vm_handlers vm (call_handler c) \<noteq> None"
    and "m \<in> held \<Longrightarrow> vm_heap vm m \<noteq> None"
    and "m \<in> held \<Longrightarrow> vm_handlers vm a \<noteq> None \<Longrightarrow> m \<notin> queued msgs a"
  using assms pm_wfD(1) unfolding vm_ok_def by blast+

lemma handler_okD:
  assumes "handler_ok owned h es calls msgs a mh"
  shows "1 < a" "holds h mh (fst (msgs a)) (snd (msgs a))" "live_ports mh = of_bool (owned a) + int (live_count es a)"
    and "m \<in> queued msgs a \<Longrightarrow> dest_ok es calls a (dest_at h m)"
    and "m \<in> queued msgs a \<Longrightarrow> m \<noteq> 0 \<and> h m \<noteq> None"
  using assms holds_mem [of h mh "fst (msgs a)" "snd (msgs a)" m] unfolding handler_ok_def queued_def by blast+

lemma dest_ok_mono:
  assumes "dest_ok es calls a port" "\<And>e. e \<in># es \<Longrightarrow> pe_handler e = a \<Longrightarrow> e \<in># es'"
    and "closing calls a port \<Longrightarrow> closing calls' a port"
  shows "dest_ok es' calls' a port"
  using assms unfolding dest_ok_def by blast

lemma handler_ok_frame:
  assumes ok: "handler_ok owned h es calls msgs a mh" and h: "\<And>m. m \<in> queued msgs a \<Longrightarrow> h' m = h m"
    and keep: "\<And>e. e \<in># es \<Longrightarrow> pe_handler e = a \<Longrightarrow> e \<in># es'" and live: "live_count es' a = live_count es a"
    and calls: "\<And>port. closing calls a port \<Longrightarrow> closing calls' a port" and msgs: "msgs' a = msgs a"
  shows "handler_ok owned h' es' calls' msgs' a mh"
proof -
  note d = handler_okD [OF ok]
  have "holds h' mh (fst (msgs a)) (snd (msgs a))" by (rule holds_frame [OF d(2)]) (use h in \<open>simp add: queued_def\<close>)
  moreover have "dest_ok es' calls' a (dest_at h' m)" if m: "m \<in> queued msgs a" for m
  proof -
    have "dest_at h' m = dest_at h m" using h [OF m] by (simp add: dest_at_def)
    then show ?thesis using dest_ok_mono [OF d(4) [OF m] keep calls] by simp
  qed
  ultimately show ?thesis using d(1,3) live msgs by (simp add: handler_ok_def queued_def)
qed

text \<open>A step that changes one handler, the table, the heap and the calls in progress.\<close>

lemma vm_ok_update:
  assumes ok: "vm_ok owned vm calls held msgs" and pm: "pm_wf pm'" "balanced pm'" and a: "vm_handlers vm a \<noteq> None"
    and dom: "\<And>e. e \<in># entries_of (pm_map pm') \<Longrightarrow> vm_handlers vm (pe_handler e) \<noteq> None"
    and new: "handler_ok owned h' (entries_of (pm_map pm')) calls' (msgs(a := q)) a mh'"
    and fresh: "\<And>b. b \<noteq> a \<Longrightarrow> vm_handlers vm b \<noteq> None \<Longrightarrow> queued (msgs(a := q)) a \<inter> queued msgs b = {}"
    and frame: "\<And>b m. b \<noteq> a \<Longrightarrow> vm_handlers vm b \<noteq> None \<Longrightarrow> m \<in> queued msgs b \<Longrightarrow> h' m = vm_heap vm m"
    and others: "filter_mset (\<lambda>e. pe_handler e \<noteq> a) (entries_of (pm_map pm')) = filter_mset (\<lambda>e. pe_handler e \<noteq> a) (vm_entries vm)"
    and keeps: "\<And>b port. b \<noteq> a \<Longrightarrow> closing calls b port \<Longrightarrow> closing calls' b port"
    and calls': "\<And>c. c \<in># calls' \<Longrightarrow> c \<in># calls \<or> call_handler c = a"
    and held': "\<And>m. m \<in> held' \<Longrightarrow> h' m \<noteq> None \<and> m \<notin> queued (msgs(a := q)) a \<and> (m \<in> held \<or> m \<in> queued msgs a)"
  shows "vm_ok owned (vm\<lparr>vm_heap := h', vm_handlers := (vm_handlers vm)(a \<mapsto> mh'), vm_ports := pm'\<rparr>) calls' held' (msgs(a := q))"
proof -
  have old: "queued (msgs(a := q)) x = queued msgs x" if "x \<noteq> a" for x using that by (simp add: queued_def)
  have "handler_ok owned h' (entries_of (pm_map pm')) calls' (msgs(a := q)) b mh"
    if b: "b \<noteq> a" "vm_handlers vm b = Some mh" for b mh
  proof (rule handler_ok_frame [OF vm_okD(5) [OF ok b(2)]])
    show "h' m = vm_heap vm m" if "m \<in> queued msgs b" for m using frame b that by blast
    show "e \<in># entries_of (pm_map pm')" if "e \<in># vm_entries vm" "pe_handler e = b" for e
    proof -
      have "e \<in># filter_mset (\<lambda>e. pe_handler e \<noteq> a) (vm_entries vm)" using that b(1) by simp
      then show ?thesis unfolding others [symmetric] by simp
    qed
    have live: "filter_mset (\<lambda>e. pe_handler e = b \<and> pe_live e) es =
        filter_mset (\<lambda>e. pe_handler e = b \<and> pe_live e) (filter_mset (\<lambda>e. pe_handler e \<noteq> a) es)" for es
      using b(1) by (induction es) auto
    show "live_count (entries_of (pm_map pm')) b = live_count (vm_entries vm) b"
      unfolding live_count_def live [of "entries_of (pm_map pm')"] live [of "vm_entries vm"] others ..
  qed (use b keeps in simp_all)
  then have "handler_ok owned h' (entries_of (pm_map pm')) calls' (msgs(a := q)) b mh"
    if "((vm_handlers vm)(a \<mapsto> mh')) b = Some mh" for b mh using that new by (cases "b = a") simp_all
  moreover have "queued (msgs(a := q)) b \<inter> queued (msgs(a := q)) c = {}"
    if "vm_handlers vm b \<noteq> None" "vm_handlers vm c \<noteq> None" "b \<noteq> c" for b c
    using that old fresh [of b] fresh [of c] vm_okD(6) [OF ok that] by (cases "b = a"; cases "c = a") auto
  moreover have "vm_handlers vm (call_handler c) \<noteq> None" if "c \<in># calls'" for c
    using calls' [OF that] vm_okD(7) [OF ok, of c] a by auto
  moreover have "m \<notin> queued (msgs(a := q)) b" if "m \<in> held'" "vm_handlers vm b \<noteq> None" for m b
    using held' [OF that(1)] that(2) old [of b] vm_okD(6) [OF ok that(2) a] vm_okD(9) [OF ok, of m b] by (cases "b = a") auto
  moreover have "((vm_handlers vm)(a \<mapsto> mh')) b \<noteq> None \<longleftrightarrow> vm_handlers vm b \<noteq> None" for b using a by simp
  ultimately show ?thesis using pm dom held' by (simp add: vm_ok_def)
qed

subsection \<open>The operations\<close>

lemma find_closed:
  assumes ok: "vm_ok owned vm calls held msgs" and port: "0 < port" and none: "open_ports vm port = None"
  shows "FindPort (vm_ports vm) port = Some (- 1)"
  using FindPort_correct [OF vm_okD(1,2) [OF ok] port] none unfolding ports_of_None [OF vm_okD(3) [OF ok]] by auto

lemma find_open:
  assumes ok: "vm_ok owned vm calls held msgs" and some: "open_ports vm port = Some (a, l)"
  obtains i mh where "FindPort (vm_ports vm) port = Some (int i)" "i < length (pm_map (vm_ports vm))"
    and "pm_map (vm_ports vm) ! i = \<lparr>pe_port = port, pe_handler = a, pe_live = l\<rparr>" "port \<noteq> 0"
    and "\<lparr>pe_port = port, pe_handler = a, pe_live = l\<rparr> \<in># vm_entries vm" "vm_handlers vm a = Some mh"
    and "handler_ok owned (vm_heap vm) (vm_entries vm) calls msgs a mh"
proof -
  let ?e = "\<lparr>pe_port = port, pe_handler = a, pe_live = l\<rparr>" and ?es = "pm_map (vm_ports vm)"
  note tab = vm_okD(3) [OF ok]
  have e: "?e \<in># vm_entries vm" using some unfolding ports_of_iff [OF tab] .
  then have "0 < port" using table_okD(1) [OF tab, of ?e] by (auto simp: entries_of_mem entry_ok_def)
  moreover have "\<exists>e \<in># vm_entries vm. pe_port e = port" using e by force
  ultimately obtain r where r: "FindPort (vm_ports vm) port = Some r" "0 \<le> r" "nat r < length ?es" "pe_port (?es ! nat r) = port"
    using FindPort_correct [OF vm_okD(1,2) [OF ok], of port] by auto
  obtain k where k: "k < length ?es" "?es ! k = ?e" using e by (auto simp: entries_of_mem in_set_conv_nth)
  have "nat r = k" using table_okD(2) [OF tab r(3) k(1)] r(4) k(2) \<open>0 < port\<close> by simp
  moreover obtain mh where "vm_handlers vm a = Some mh" using vm_okD(4) [OF ok e] by auto
  ultimately show thesis using that [of k mh] r k e vm_okD(5) [OF ok] \<open>0 < port\<close> by auto
qed

lemma live_count_simps [simp]:
  "live_count (add_mset e es) a = live_count es a + of_bool (pe_handler e = a \<and> pe_live e)" "live_count {#} a = 0"
  by (simp_all add: live_count_def)

lemma NewHandler_ok:
  assumes ok: "vm_ok owned vm calls held msgs" and a: "1 < a" "vm_handlers vm a = None"
  shows "vm_ok owned (vm\<lparr>vm_handlers := (vm_handlers vm)(a \<mapsto> if owned a then NativeMessageHandler else MessageHandler)\<rparr>)
    calls held (msgs(a := ([], [])))"
proof -
  let ?mh = "if owned a then NativeMessageHandler else MessageHandler" and ?msgs = "msgs(a := ([], []))"
  have none: "pe_handler e \<noteq> a" if "e \<in># vm_entries vm" for e using vm_okD(4) [OF ok that] a(2) by auto
  have "live_count (vm_entries vm) a = 0" unfolding live_count_def using none by auto
  then have "handler_ok owned (vm_heap vm) (vm_entries vm) calls ?msgs a ?mh"
    using a(1) MessageHandler_holds [of "vm_heap vm"]
    by (auto simp: handler_ok_def queued_def NativeMessageHandler_def increment_live_ports_def) (simp_all add: MessageHandler_def)
  moreover have "handler_ok owned (vm_heap vm) (vm_entries vm) calls ?msgs b mh" if "b \<noteq> a" "vm_handlers vm b = Some mh" for b mh
    by (rule handler_ok_frame [OF vm_okD(5) [OF ok that(2)]]) (use that(1) in simp_all)
  moreover have "queued ?msgs a = {}" "queued ?msgs b = queued msgs b" if "b \<noteq> a" for b using that by (simp_all add: queued_def)
  ultimately show ?thesis
    using vm_okD(1,2,4,6,7,8,9) [OF ok] unfolding vm_ok_def by (auto simp: queued_def)
qed

lemma NewPort_ok:
  assumes ok: "vm_ok owned vm calls held msgs" and a: "vm_handlers vm a = Some mh"
  shows "\<exists>pm'. CreatePort (vm_ports vm) a = Some (pm', next_port (vm_ports vm)) \<and> vm_ok owned (vm\<lparr>vm_ports := pm'\<rparr>) calls held msgs \<and>
    entries_of (pm_map pm') = add_mset \<lparr>pe_port = next_port (vm_ports vm), pe_handler = a, pe_live = False\<rparr> (vm_entries vm)"
proof -
  let ?e = "\<lparr>pe_port = next_port (vm_ports vm), pe_handler = a, pe_live = False\<rparr>"
  note h = vm_okD(5) [OF ok a]
  obtain pm' where c: "CreatePort (vm_ports vm) a = Some (pm', next_port (vm_ports vm))" "pm_wf pm'" "balanced pm'"
      "entries_of (pm_map pm') = add_mset ?e (vm_entries vm)"
    using CreatePort_correct [OF vm_okD(1,2) [OF ok] handler_okD(1) [OF h]] by blast
  have "vm_ok owned (vm\<lparr>vm_heap := vm_heap vm, vm_handlers := (vm_handlers vm)(a \<mapsto> mh), vm_ports := pm'\<rparr>) calls held (msgs(a := msgs a))"
  proof (rule vm_ok_update [OF ok c(2,3)])
    show "handler_ok owned (vm_heap vm) (entries_of (pm_map pm')) calls (msgs(a := msgs a)) a mh"
      by (rule handler_ok_frame [OF h]) (simp_all add: c(4))
  qed (use a vm_okD(4,6,8,9) [OF ok] c(4) in auto)
  moreover have "vm\<lparr>vm_heap := vm_heap vm, vm_handlers := (vm_handlers vm)(a \<mapsto> mh), vm_ports := pm'\<rparr> = vm\<lparr>vm_ports := pm'\<rparr>"
    using a by (simp add: map_upd_triv)
  ultimately show ?thesis using c(1,4) by simp
qed

lemma MakeLive_ok:
  assumes ok: "vm_ok owned vm calls held msgs" and port: "open_ports vm port = Some (a, False)"
  shows "\<exists>vm'. SetLive vm port = Some vm' \<and> vm_ok owned vm' calls held msgs \<and>
    vm_entries vm' = add_mset \<lparr>pe_port = port, pe_handler = a, pe_live = True\<rparr>
      (vm_entries vm - {#\<lparr>pe_port = port, pe_handler = a, pe_live = False\<rparr>#})"
proof -
  let ?pm = "vm_ports vm" and ?e = "\<lparr>pe_port = port, pe_handler = a, pe_live = False\<rparr>"
  obtain i mh where i: "FindPort ?pm port = Some (int i)" "i < length (pm_map ?pm)" "pm_map ?pm ! i = ?e" "port \<noteq> 0"
      "?e \<in># vm_entries vm" "vm_handlers vm a = Some mh" "handler_ok owned (vm_heap vm) (vm_entries vm) calls msgs a mh"
    by (rule find_open [OF ok port])
  let ?pm' = "?pm\<lparr>pm_map := (pm_map ?pm)[i := ?e\<lparr>pe_live := True\<rparr>]\<rparr>"
  have t: "pm_wf ?pm'" "balanced ?pm'" "entries_of (pm_map ?pm') = add_mset (?e\<lparr>pe_live := True\<rparr>) (vm_entries vm - {#?e#})"
    using SetLive_table [OF vm_okD(1,2) [OF ok] i(2)] i(3,4) by auto
  have split: "vm_entries vm = add_mset ?e (vm_entries vm - {#?e#})" using i(5) by simp
  have "vm_ok owned (vm\<lparr>vm_heap := vm_heap vm, vm_handlers := (vm_handlers vm)(a \<mapsto> increment_live_ports mh), vm_ports := ?pm'\<rparr>)
      calls held (msgs(a := msgs a))"
  proof (rule vm_ok_update [OF ok t(1,2)])
    note d = handler_okD [OF i(7)]
    have "live_ports (increment_live_ports mh) = of_bool (owned a) + int (live_count (entries_of (pm_map ?pm')) a)"
      unfolding t(3) using d(3) live_count_simps(1) [of ?e "vm_entries vm - {#?e#}" a, folded split] by (simp add: increment_live_ports_def)
    moreover have "dest_ok (entries_of (pm_map ?pm')) calls a (dest_at (vm_heap vm) m)" if m: "m \<in> queued msgs a" for m
    proof -
      have "\<exists>y \<in># entries_of (pm_map ?pm'). pe_port y = pe_port x \<and> pe_handler y = pe_handler x" if x: "x \<in># vm_entries vm" for x
      proof (cases "x = ?e")
        case True
        then show ?thesis unfolding t(3) by (intro bexI [of _ "?e\<lparr>pe_live := True\<rparr>"]) simp_all
      next
        case False
        then have "x \<in># vm_entries vm - {#?e#}" using x by (simp add: in_diff_count)
        then show ?thesis unfolding t(3) by (intro bexI [of _ x]) simp_all
      qed
      then show ?thesis using d(4) [OF m] unfolding dest_ok_def by metis
    qed
    ultimately show "handler_ok owned (vm_heap vm) (entries_of (pm_map ?pm')) calls (msgs(a := msgs a)) a (increment_live_ports mh)"
      using d(1,2) by (simp add: handler_ok_def increment_live_ports_def)
    show "filter_mset (\<lambda>e. pe_handler e \<noteq> a) (entries_of (pm_map ?pm')) = filter_mset (\<lambda>e. pe_handler e \<noteq> a) (vm_entries vm)"
      unfolding t(3) by (subst (2) split) simp
    show "vm_handlers vm (pe_handler x) \<noteq> None" if "x \<in># entries_of (pm_map ?pm')" for x
      using that vm_okD(4) [OF ok, of x] i(6) unfolding t(3) by (auto dest: in_diffD)
  qed (use i(6) vm_okD(6,8,9) [OF ok] in auto)
  moreover have "SetLive vm port = Some (vm\<lparr>vm_heap := vm_heap vm, vm_handlers := (vm_handlers vm)(a \<mapsto> increment_live_ports mh), vm_ports := ?pm'\<rparr>)"
    using i(1,2,3,6) by (simp add: SetLive_def)
  ultimately show ?thesis using t(3) by simp
qed

lemma same_dest: "same_message (h' m) (h m) \<Longrightarrow> dest_at h' m = dest_at h m"
  using same_message_dest_at [of h' m h] same_message_None [of "h' m" "h m"] by (cases "h m = None") (simp_all add: dest_at_def)

lemma remove_port_ok:
  assumes ok: "vm_ok owned vm calls held msgs" and port: "open_ports vm port = Some (a, l)"
  shows "\<exists>vm'. remove_port vm port = Some (vm', a) \<and> a \<noteq> 0 \<and> vm_ok owned vm' (add_mset (Flushing a port) calls) held msgs \<and>
    vm_entries vm' = vm_entries vm - {#\<lparr>pe_port = port, pe_handler = a, pe_live = l\<rparr>#}"
proof -
  let ?pm = "vm_ports vm" and ?e = "\<lparr>pe_port = port, pe_handler = a, pe_live = l\<rparr>" and ?calls = "add_mset (Flushing a port) calls"
  obtain i mh where i: "FindPort ?pm port = Some (int i)" "i < length (pm_map ?pm)" "pm_map ?pm ! i = ?e" "port \<noteq> 0"
      "?e \<in># vm_entries vm" "vm_handlers vm a = Some mh" "handler_ok owned (vm_heap vm) (vm_entries vm) calls msgs a mh"
    by (rule find_open [OF ok port])
  note d = handler_okD [OF i(7)]
  define mh' where "mh' = (if l then decrement_live_ports mh else mh)"
  obtain pm' where pm': "MaintainInvariants (?pm\<lparr>pm_map := (pm_map ?pm)[i := mark_deleted ?e], pm_used := pm_used ?pm - 1,
      pm_deleted := pm_deleted ?pm + 1\<rparr>) = Some pm'" "pm_wf pm'" "balanced pm'" "entries_of (pm_map pm') = vm_entries vm - {#?e#}"
    using close_table [OF vm_okD(1) [OF ok] i(2)] i(3,4) by auto
  have split: "vm_entries vm = add_mset ?e (entries_of (pm_map pm'))" unfolding pm'(4) using insert_DiffM [OF i(5)] by simp
  have "vm_ok owned (vm\<lparr>vm_heap := vm_heap vm, vm_handlers := (vm_handlers vm)(a \<mapsto> mh'), vm_ports := pm'\<rparr>) ?calls held (msgs(a := msgs a))"
  proof (rule vm_ok_update [OF ok pm'(2,3)])
    have "live_ports mh' = of_bool (owned a) + int (live_count (entries_of (pm_map pm')) a)"
      using d(3) live_count_simps(1) [of ?e "entries_of (pm_map pm')" a, folded split]
      by (simp add: mh'_def decrement_live_ports_def)
    moreover have "dest_ok (entries_of (pm_map pm')) ?calls a (dest_at (vm_heap vm) m)" if "m \<in> queued msgs a" for m
      using d(4) [OF that] unfolding split dest_ok_def closing_def by auto
    moreover have "holds (vm_heap vm) mh' (fst (msgs a)) (snd (msgs a))" using d(2) by (simp add: mh'_def decrement_live_ports_def)
    ultimately show "handler_ok owned (vm_heap vm) (entries_of (pm_map pm')) ?calls (msgs(a := msgs a)) a mh'"
      using d(1) by (simp add: handler_ok_def)
    show "filter_mset (\<lambda>e. pe_handler e \<noteq> a) (entries_of (pm_map pm')) = filter_mset (\<lambda>e. pe_handler e \<noteq> a) (vm_entries vm)"
      unfolding split by simp
    show "vm_handlers vm (pe_handler x) \<noteq> None" if "x \<in># entries_of (pm_map pm')" for x
      using that vm_okD(4) [OF ok, of x] unfolding split by simp
  qed (use i(6) vm_okD(6,8,9) [OF ok] in \<open>auto simp: closing_def\<close>)
  moreover have "remove_port vm port = Some (vm\<lparr>vm_heap := vm_heap vm, vm_handlers := (vm_handlers vm)(a \<mapsto> mh'), vm_ports := pm'\<rparr>, a)"
    using i(1,2,3,6) pm'(1) by (auto simp: remove_port_def Let_def mh'_def)
  ultimately show ?thesis using d(1) pm'(4) by auto
qed

text \<open>A step that changes one handler, its messages and the heap.\<close>

lemma vm_ok_queue:
  assumes ok: "vm_ok owned vm calls held msgs" and a: "vm_handlers vm a = Some mh"
    and holds: "holds h' mh' (fst q) (snd q)" and live: "live_ports mh' = live_ports mh"
    and fewer: "\<And>m. m \<in> set (fst q) \<union> set (snd q) \<Longrightarrow> m \<in> queued msgs a \<and> dest_at h' m = dest_at (vm_heap vm) m"
    and dest: "\<And>m. m \<in> set (fst q) \<union> set (snd q) \<Longrightarrow> dest_ok (vm_entries vm) calls a (dest_at (vm_heap vm) m) \<Longrightarrow>
      dest_ok (vm_entries vm) calls' a (dest_at (vm_heap vm) m)"
    and frame: "\<And>m. m \<notin> queued msgs a \<Longrightarrow> h' m = vm_heap vm m"
    and keeps: "\<And>b port. b \<noteq> a \<Longrightarrow> closing calls b port \<Longrightarrow> closing calls' b port"
    and calls': "\<And>c. c \<in># calls' \<Longrightarrow> c \<in># calls \<or> call_handler c = a"
    and held': "\<And>m. m \<in> held' \<Longrightarrow> m \<in> held \<or> m \<in> queued msgs a \<and> h' m \<noteq> None \<and> m \<notin> set (fst q) \<union> set (snd q)"
  shows "vm_ok owned (vm\<lparr>vm_heap := h', vm_handlers := (vm_handlers vm)(a \<mapsto> mh')\<rparr>) calls' held' (msgs(a := q))"
proof -
  note d = handler_okD [OF vm_okD(5) [OF ok a]]
  have queue: "queued (msgs(a := q)) a = set (fst q) \<union> set (snd q)" by (simp add: queued_def)
  have "vm_ok owned (vm\<lparr>vm_heap := h', vm_handlers := (vm_handlers vm)(a \<mapsto> mh'), vm_ports := vm_ports vm\<rparr>) calls' held' (msgs(a := q))"
  proof (rule vm_ok_update [OF ok vm_okD(1,2) [OF ok]])
    have "dest_ok (vm_entries vm) calls' a (dest_at h' m)" if "m \<in> queued (msgs(a := q)) a" for m
      using that fewer [of m] dest [of m] d(4) [of m] unfolding queue by simp
    then show "handler_ok owned h' (vm_entries vm) calls' (msgs(a := q)) a mh'"
      using d(1,3) holds live by (simp add: handler_ok_def)
    show "queued (msgs(a := q)) a \<inter> queued msgs b = {}" if "b \<noteq> a" "vm_handlers vm b \<noteq> None" for b
      using fewer vm_okD(6) [OF ok, of a b] that a unfolding queue by auto
    show "h' m = vm_heap vm m" if "b \<noteq> a" "vm_handlers vm b \<noteq> None" "m \<in> queued msgs b" for b m
      using frame vm_okD(6) [OF ok, of a b] that a by auto
    show "h' m \<noteq> None \<and> m \<notin> queued (msgs(a := q)) a \<and> (m \<in> held \<or> m \<in> queued msgs a)" if m: "m \<in> held'" for m
    proof (cases "m \<in> held")
      case True
      then have "m \<notin> queued msgs a" using vm_okD(9) [OF ok True, of a] a by simp
      then show ?thesis using True frame [of m] vm_okD(8) [OF ok True] fewer [of m] unfolding queue by auto
    next
      case False
      then show ?thesis using held' [OF m] unfolding queue by auto
    qed
  qed (use a vm_okD(4) [OF ok] keeps calls' in auto)
  then show ?thesis by simp
qed

lemma closing_removed:
  assumes "closing calls b port" "c \<noteq> Flushing b port" "c \<noteq> FlushingAll b"
  shows "closing (calls - {#c#} + next) b port"
  using assms by (auto simp: closing_def in_diff_count)

lemma flush_port_ok:
  assumes ok: "vm_ok owned vm calls held msgs" and c: "Flushing a port \<in># calls"
  shows "\<exists>vm' q. flush_port vm a port = Some vm' \<and>
    vm_ok owned vm' (calls - {#Flushing a port#} + {#Releasing a#}) held (msgs(a := q)) \<and> vm_ports vm' = vm_ports vm"
proof -
  let ?calls = "calls - {#Flushing a port#} + {#Releasing a#}"
  obtain mh where a: "vm_handlers vm a = Some mh" using vm_okD(7) [OF ok c] by auto
  note d = handler_okD [OF vm_okD(5) [OF ok a]]
  obtain as bs where q: "msgs a = (as, bs)" by (cases "msgs a")
  have "holds (vm_heap vm) mh as bs" using d(2) q by simp
  from Flush_holds [OF this, of port] obtain h' mh' where f: "Message_Handler.ClosePort (vm_heap vm) mh port = Some (h', mh')"
      "holds h' mh' (filter (\<lambda>m. dest_at (vm_heap vm) m \<noteq> port) as) (filter (\<lambda>m. dest_at (vm_heap vm) m \<noteq> port) bs)"
      "flushed port (as @ bs) (vm_heap vm) h'" "\<forall>m. m \<notin> set as \<union> set bs \<longrightarrow> h' m = vm_heap vm m" "live_ports mh' = live_ports mh"
    by blast
  let ?q = "(filter (\<lambda>m. dest_at (vm_heap vm) m \<noteq> port) as, filter (\<lambda>m. dest_at (vm_heap vm) m \<noteq> port) bs)"
  have "vm_ok owned (vm\<lparr>vm_heap := h', vm_handlers := (vm_handlers vm)(a \<mapsto> mh')\<rparr>) ?calls held (msgs(a := ?q))"
  proof (rule vm_ok_queue [OF ok a _ f(5)])
    show "holds h' mh' (fst ?q) (snd ?q)" using f(2) by simp
    show "m \<in> queued msgs a \<and> dest_at h' m = dest_at (vm_heap vm) m" if "m \<in> set (fst ?q) \<union> set (snd ?q)" for m
      using that f(3) q by (auto simp: queued_def flushed_def intro: same_dest)
    show "dest_ok (vm_entries vm) ?calls a (dest_at (vm_heap vm) m)"
      if m: "m \<in> set (fst ?q) \<union> set (snd ?q)" and "dest_ok (vm_entries vm) calls a (dest_at (vm_heap vm) m)" for m
    proof -
      have "dest_at (vm_heap vm) m \<noteq> port" using m by auto
      then have "closing ?calls a (dest_at (vm_heap vm) m)" if "closing calls a (dest_at (vm_heap vm) m)"
        using that by (intro closing_removed [OF that]) auto
      then show ?thesis using that(2) unfolding dest_ok_def by blast
    qed
    show "closing ?calls b p" if "b \<noteq> a" "closing calls b p" for b p
      using that(1) by (intro closing_removed [OF that(2)]) auto
  qed (use f(4) q in \<open>auto simp: queued_def dest: in_diffD\<close>)
  then show ?thesis using a f(1) by (auto simp: flush_port_def)
qed

lemma release_handler_ok:
  assumes ok: "vm_ok owned vm calls held msgs" and c: "Releasing a \<in># calls"
  shows "release_handler owned vm a = Some vm \<and> vm_ok owned vm (calls - {#Releasing a#}) held msgs"
proof -
  obtain mh where a: "vm_handlers vm a = Some mh" using vm_okD(7) [OF ok c] by auto
  have "\<not> (\<not> HasLivePorts mh \<and> owned a)" using handler_okD(3) [OF vm_okD(5) [OF ok a]] by (simp add: HasLivePorts_def)
  then have "release_handler owned vm a = Some vm" using a by (auto simp: release_handler_def)
  moreover have "handler_ok owned (vm_heap vm) (vm_entries vm) (calls - {#Releasing a#}) msgs b mh" if "vm_handlers vm b = Some mh" for b mh
  proof (rule handler_ok_frame [OF vm_okD(5) [OF ok that]])
    show "closing (calls - {#Releasing a#}) b p" if "closing calls b p" for p
      using closing_removed [OF that, of "Releasing a" "{#}"] by auto
  qed simp_all
  ultimately show ?thesis using vm_okD [OF ok] unfolding vm_ok_def by (auto dest: in_diffD)
qed

lemma live_count_table:
  assumes "table_ok es" "1 < a"
  shows "length (filter (\<lambda>e. pe_handler e = a \<and> pe_live e) es) = live_count (entries_of es) a"
proof -
  have "length (filter (\<lambda>e. pe_handler e = a \<and> pe_live e) xs) = live_count (entries_of xs) a" if "\<forall>e \<in> set xs. entry_ok e" for xs
    using that assms(2) by (induction xs) (auto simp: live_count_def entries_of_def entry_ok_def)
  then show ?thesis using table_okD(1) [OF assms(1)] by blast
qed

lemma remove_ports_ok:
  assumes ok: "vm_ok owned vm calls held msgs" and a: "vm_handlers vm a = Some mh"
  shows "\<exists>vm'. remove_ports vm a = Some vm' \<and> vm_ok owned vm' (add_mset (FlushingAll a) calls) held msgs \<and>
    vm_entries vm' = filter_mset (\<lambda>e. pe_handler e \<noteq> a) (vm_entries vm)"
proof -
  note d = handler_okD [OF vm_okD(5) [OF ok a]]
  let ?pm = "vm_ports vm" and ?es = "map (\<lambda>e. if pe_handler e = a then mark_deleted e else e) (pm_map (vm_ports vm))"
  let ?n = "int (length (filter (\<lambda>e. pe_handler e = a) (pm_map ?pm)))" and ?calls = "add_mset (FlushingAll a) calls"
  obtain pm' where pm': "MaintainInvariants (?pm\<lparr>pm_map := ?es, pm_used := pm_used ?pm - ?n, pm_deleted := pm_deleted ?pm + ?n\<rparr>) = Some pm'"
      "pm_wf pm'" "balanced pm'" "entries_of (pm_map pm') = filter_mset (\<lambda>e. pe_handler e \<noteq> a) (vm_entries vm)"
    using close_ports_table [OF vm_okD(1) [OF ok] d(1)] by blast
  define mh' where "mh' = mh\<lparr>live_ports := of_bool (owned a)\<rparr>"
  have loop: "close_ports_loop a (pm_map ?pm) mh 0 = (?es, mh', ?n)"
    using live_count_table [OF vm_okD(3) [OF ok] d(1)] d(3) by (simp add: close_ports_loop_map mh'_def)
  have "vm_ok owned (vm\<lparr>vm_heap := vm_heap vm, vm_handlers := (vm_handlers vm)(a \<mapsto> mh'), vm_ports := pm'\<rparr>) ?calls held (msgs(a := msgs a))"
  proof (rule vm_ok_update [OF ok pm'(2,3)])
    have "live_count (entries_of (pm_map pm')) a = 0" unfolding pm'(4) live_count_def by auto
    then show "handler_ok owned (vm_heap vm) (entries_of (pm_map pm')) ?calls (msgs(a := msgs a)) a mh'"
      using d(1,2) by (simp add: handler_ok_def mh'_def dest_ok_def closing_def)
  qed (use a pm'(4) vm_okD(4,6,8,9) [OF ok] in \<open>auto simp: filter_filter_mset closing_def\<close>)
  moreover have "remove_ports vm a = Some (vm\<lparr>vm_heap := vm_heap vm, vm_handlers := (vm_handlers vm)(a \<mapsto> mh'), vm_ports := pm'\<rparr>)"
    using a loop pm'(1) by (simp add: remove_ports_def Let_def)
  ultimately show ?thesis using pm'(4) by auto
qed

lemma flush_ports_ok:
  assumes ok: "vm_ok owned vm calls held msgs" and c: "FlushingAll a \<in># calls"
  shows "\<exists>vm'. flush_ports vm a = Some vm' \<and> vm_ok owned vm' (calls - {#FlushingAll a#}) held (msgs(a := ([], []))) \<and>
    vm_ports vm' = vm_ports vm"
proof -
  obtain mh where a: "vm_handlers vm a = Some mh" using vm_okD(7) [OF ok c] by auto
  obtain as bs where q: "msgs a = (as, bs)" by (cases "msgs a")
  let ?h = "\<lambda>m. if m \<in> set as \<union> set bs then None else vm_heap vm m"
  have "holds (vm_heap vm) mh as bs" using handler_okD(2) [OF vm_okD(5) [OF ok a]] q by simp
  from FlushAll_holds [OF this] obtain mh' where f: "CloseAllPorts (vm_heap vm) mh = Some (?h, mh')" "holds ?h mh' [] []"
      "live_ports mh' = live_ports mh"
    by auto
  have "vm_ok owned (vm\<lparr>vm_heap := ?h, vm_handlers := (vm_handlers vm)(a \<mapsto> mh')\<rparr>) (calls - {#FlushingAll a#}) held (msgs(a := ([], [])))"
  proof (rule vm_ok_queue [OF ok a _ f(3)])
    show "closing (calls - {#FlushingAll a#}) b p" if "b \<noteq> a" "closing calls b p" for b p
      using that(1) closing_removed [OF that(2), of "FlushingAll a" "{#}"] by auto
  qed (use f(2) q in \<open>auto simp: queued_def dest: in_diffD\<close>)
  then show ?thesis using a f(1) by (auto simp: flush_ports_def)
qed

lemma vm_ok_heap:
  assumes ok: "vm_ok owned vm calls held msgs" and h: "\<And>a m. vm_handlers vm a \<noteq> None \<Longrightarrow> m \<in> queued msgs a \<Longrightarrow> h m = vm_heap vm m"
    and held': "held' \<subseteq> held" "\<And>m. m \<in> held' \<Longrightarrow> h m \<noteq> None"
  shows "vm_ok owned (vm\<lparr>vm_heap := h\<rparr>) calls held' msgs"
proof -
  have "handler_ok owned h (vm_entries vm) calls msgs a mh" if "vm_handlers vm a = Some mh" for a mh
    by (rule handler_ok_frame [OF vm_okD(5) [OF ok that]]) (use h that in auto)
  moreover have "m \<notin> queued msgs a" if "m \<in> held'" "vm_handlers vm a \<noteq> None" for m a
    using that held'(1) vm_okD(9) [OF ok, of m a] by blast
  ultimately show ?thesis using vm_okD(1,2,4,6,7) [OF ok] held'(2) by (simp add: vm_ok_def)
qed

lemma Send_ok:
  assumes ok: "vm_ok owned vm calls held msgs" and m: "m \<noteq> 0" "vm_heap vm m = None" "msg_next msg = 0" "0 < dest_port msg"
  shows "\<exists>vm' msgs'. PostMessage (vm\<lparr>vm_heap := (vm_heap vm)(m \<mapsto> msg)\<rparr>) m = Some (vm', open_ports vm (dest_port msg) \<noteq> None) \<and>
    vm_ok owned vm' calls held msgs' \<and> vm_ports vm' = vm_ports vm \<and>
    (case open_ports vm (dest_port msg) of None \<Rightarrow> vm' = vm | Some (a, l) \<Rightarrow> m \<in> queued msgs' a)"
proof -
  let ?h = "(vm_heap vm)(m \<mapsto> msg)"
  let ?vm = "vm\<lparr>vm_heap := ?h\<rparr>"
  have new: "m \<notin> queued msgs a" if "vm_handlers vm a \<noteq> None" for a
    using handler_okD(5) [OF vm_okD(5) [OF ok], of a _ m] that m(2) by auto
  have ok1: "vm_ok owned ?vm calls held msgs" by (rule vm_ok_heap [OF ok]) (use new vm_okD(8) [OF ok] in auto)
  show ?thesis
  proof (cases "open_ports vm (dest_port msg)")
    case None
    have "FindPort (vm_ports ?vm) (dest_port msg) = Some (- 1)" by (rule find_closed [OF ok1 m(4)]) (simp add: None)
    then have "PostMessage ?vm m = Some (vm, False)" using m(2) by (simp add: Port_Map.PostMessage_def fun_upd_idem)
    then show ?thesis using ok None by auto
  next
    case (Some al)
    obtain a l where al: "al = (a, l)" by (cases al)
    let ?e = "\<lparr>pe_port = dest_port msg, pe_handler = a, pe_live = l\<rparr>"
    obtain i mh where i: "FindPort (vm_ports ?vm) (dest_port msg) = Some (int i)" "i < length (pm_map (vm_ports ?vm))"
        "pm_map (vm_ports ?vm) ! i = ?e" "dest_port msg \<noteq> 0" "?e \<in># vm_entries ?vm" "vm_handlers ?vm a = Some mh"
        "handler_ok owned (vm_heap ?vm) (vm_entries ?vm) calls msgs a mh"
      by (rule find_open [OF ok1]) (use Some al in auto)
    note d = handler_okD [OF i(7)]
    obtain as bs where q: "msgs a = (as, bs)" by (cases "msgs a")
    have na: "m \<notin> set as" "m \<notin> set bs" using new [of a] i(6) q by (simp_all add: queued_def)
    have "holds ?h mh as bs" using d(2) q by simp
    from PostMessage_correct [OF this _ m(3,1) na] obtain h' mh' ev where p: "Message_Handler.PostMessage ?h mh m = Some (h', mh', ev)"
        "holds h' mh' (if IsOOB msg then as else as @ [m]) (if IsOOB msg then bs @ [m] else bs)"
        "\<forall>b. same_message (h' b) (?h b)" "\<forall>b. b \<notin> set as \<union> set bs \<longrightarrow> h' b = ?h b" "live_ports mh' = live_ports mh"
      by auto
    define q' where "q' = (if IsOOB msg then as else as @ [m], if IsOOB msg then bs @ [m] else bs)"
    have queue: "queued (msgs(a := q')) a = insert m (queued msgs a)" by (auto simp: queued_def q'_def q)
    have "vm_ok owned (?vm\<lparr>vm_heap := h', vm_handlers := (vm_handlers ?vm)(a \<mapsto> mh'), vm_ports := vm_ports ?vm\<rparr>) calls held (msgs(a := q'))"
    proof (rule vm_ok_update [OF ok1 vm_okD(1,2) [OF ok1]])
      have "dest_ok (vm_entries ?vm) calls a (dest_at h' k)" if k: "k \<in> insert m (queued msgs a)" for k
      proof -
        have "dest_at h' k = dest_at ?h k" using p(3) same_dest [of h' k ?h] by blast
        moreover have "dest_at ?h m = dest_port msg" by (simp add: dest_at_def)
        moreover have "dest_ok (vm_entries ?vm) calls a (dest_port msg)" using i(5) unfolding dest_ok_def by force
        ultimately show ?thesis using k d(4) [of k] by (cases "k = m") auto
      qed
      then show "handler_ok owned h' (vm_entries ?vm) calls (msgs(a := q')) a mh'"
        using d(1,3) p(2,5) queue by (simp add: handler_ok_def q'_def)
      show "h' k = vm_heap ?vm k" if "b \<noteq> a" "vm_handlers ?vm b \<noteq> None" "k \<in> queued msgs b" for b k
      proof -
        have "k \<notin> queued msgs a" using vm_okD(6) [OF ok1, of a b] that i(6) by auto
        then show ?thesis using p(4) q by (simp add: queued_def)
      qed
      show "queued (msgs(a := q')) a \<inter> queued msgs b = {}" if "b \<noteq> a" "vm_handlers ?vm b \<noteq> None" for b
        using vm_okD(6) [OF ok1, of a b] that i(6) new [of b] unfolding queue by auto
      show "h' k \<noteq> None \<and> k \<notin> queued (msgs(a := q')) a \<and> (k \<in> held \<or> k \<in> queued msgs a)" if k: "k \<in> held" for k
        using k m(2) vm_okD(8) [OF ok k] vm_okD(9) [OF ok k, of a] i(6) same_message_None [OF p(3) [rule_format, of k]] unfolding queue
        by (auto split: if_splits)
    qed (use i(6) vm_okD(4) [OF ok1] in auto)
    moreover have "PostMessage ?vm m =
        Some (?vm\<lparr>vm_heap := h', vm_handlers := (vm_handlers ?vm)(a \<mapsto> mh'), vm_ports := vm_ports ?vm\<rparr>, True)"
      using i(1,2,3,6) p(1) by (simp add: Port_Map.PostMessage_def)
    ultimately show ?thesis using Some al queue by (intro exI [of _ "msgs(a := q')"] exI) auto
  qed
qed

lemma Receive_ok:
  assumes ok: "vm_ok owned vm calls held msgs" and a: "vm_handlers vm a = Some mh"
  shows "\<exists>mh' m q. DequeueMessage (vm_heap vm) mh prio = Some (mh', m) \<and>
    vm_ok owned (vm\<lparr>vm_handlers := (vm_handlers vm)(a \<mapsto> mh')\<rparr>) calls (if m = 0 then held else insert m held) (msgs(a := q)) \<and>
    (m \<noteq> 0 \<longrightarrow> m \<in> queued msgs a)"
proof -
  note d = handler_okD [OF vm_okD(5) [OF ok a]]
  obtain as bs where q: "msgs a = (as, bs)" by (cases "msgs a")
  have holds: "holds (vm_heap vm) mh as bs" using d(2) q by simp
  define m where "m = (case bs of b # _ \<Rightarrow> b | [] \<Rightarrow> if prio = kOOBPriority then 0 else case as of [] \<Rightarrow> 0 | x # _ \<Rightarrow> x)"
  let ?q = "(if bs = [] \<and> prio \<noteq> kOOBPriority then tl as else as, tl bs)"
  obtain mh' where r: "DequeueMessage (vm_heap vm) mh prio = Some (mh', m)"
      "holds (vm_heap vm) mh' (fst ?q) (snd ?q)" "live_ports mh' = live_ports mh"
    using DequeueMessage_correct [OF holds, of prio] by (auto simp: m_def)
  have dj: "distinct as" "distinct bs" "set as \<inter> set bs = {}" using holds by (simp_all add: holds_def mq.rep2_def queue_rep_def)
  have sub: "set (fst ?q) \<union> set (snd ?q) \<subseteq> queued msgs a - (if m = 0 then {} else {m})"
    using dj q d(5) by (cases bs; cases as) (auto simp: queued_def m_def)
  have mem: "m \<noteq> 0 \<longrightarrow> m \<in> queued msgs a"
    using q by (cases bs; cases as) (auto simp: m_def queued_def)
  have "vm_ok owned (vm\<lparr>vm_heap := vm_heap vm, vm_handlers := (vm_handlers vm)(a \<mapsto> mh')\<rparr>) calls (if m = 0 then held else insert m held) (msgs(a := ?q))"
  proof (rule vm_ok_queue [OF ok a r(2,3)])
    show "k \<in> held \<or> k \<in> queued msgs a \<and> vm_heap vm k \<noteq> None \<and> k \<notin> set (fst ?q) \<union> set (snd ?q)"
      if "k \<in> (if m = 0 then held else insert m held)" for k
      using that sub mem d(5) by (auto split: if_splits)
  qed (use sub in auto)
  then show ?thesis using r(1) mem by (intro exI [of _ mh'] exI [of _ m] exI [of _ ?q]) simp
qed

lemma Handled_ok:
  assumes ok: "vm_ok owned vm calls held msgs" and m: "m \<in> held"
  shows "vm_ok owned (vm\<lparr>vm_heap := (vm_heap vm)(m := None)\<rparr>) calls (held - {m}) msgs"
  by (rule vm_ok_heap [OF ok]) (use vm_okD(8,9) [OF ok] m in auto)

lemma Dispose_ok:
  assumes ok: "vm_ok owned vm calls held msgs" and a: "\<forall>e \<in># vm_entries vm. pe_handler e \<noteq> a" "\<forall>c \<in># calls. call_handler c \<noteq> a"
  shows "vm_ok owned (vm\<lparr>vm_handlers := (vm_handlers vm)(a := None)\<rparr>) calls held msgs"
  using vm_okD(1,2,4-9) [OF ok] a by (simp add: vm_ok_def)

subsection \<open>Ports as a map\<close>

text \<open>What a step does to the map from open ports to their handlers, and its result.\<close>

fun ports_step :: "vm_op \<Rightarrow> vm_out \<Rightarrow> (dart_port \<rightharpoonup> addr \<times> bool) \<Rightarrow> (dart_port \<rightharpoonup> addr \<times> bool)" where
  "ports_step (NewPort a) (Opened port) m = m(port \<mapsto> (a, False))"
| "ports_step (MakeLive port) out m = m(port := map_option (\<lambda>(a, l). (a, True)) (m port))"
| "ports_step (Close port) out m = m(port := None)"
| "ports_step (CloseAll a) out m = (\<lambda>port. case m port of Some (b, l) \<Rightarrow> if b = a then None else Some (b, l) | None \<Rightarrow> None)"
| "ports_step c out m = m"

fun out_ok :: "vm_op \<Rightarrow> vm_out \<Rightarrow> (dart_port \<rightharpoonup> addr \<times> bool) \<Rightarrow> bool" where
  "out_ok (NewPort a) out m \<longleftrightarrow> (case out of Opened port \<Rightarrow> 0 < port \<and> m port = None | _ \<Rightarrow> False)"
| "out_ok (Close port) out m \<longleftrightarrow> out = Flag (m port \<noteq> None)"
| "out_ok (Send a msg) out m \<longleftrightarrow> out = Flag (m (dest_port msg) \<noteq> None)"
| "out_ok (Receive a prio) out m \<longleftrightarrow> (case out of Got msg \<Rightarrow> True | _ \<Rightarrow> False)"
| "out_ok c out m \<longleftrightarrow> out = Done"

abbreviation vms_ok :: "(addr \<Rightarrow> bool) \<Rightarrow> vm_sys \<Rightarrow> queues \<Rightarrow> bool" where
  "vms_ok owned s msgs \<equiv> vm_ok owned (sys_vm s) (sys_calls s) (sys_held s) msgs"

definition step_ok :: "(addr \<Rightarrow> bool) \<Rightarrow> vm_sys \<Rightarrow> vm_op \<Rightarrow> vm_sys \<Rightarrow> vm_out \<Rightarrow> bool" where
  "step_ok owned s c s' out \<longleftrightarrow> vm_step owned s c = Some (s', out) \<and> (\<exists>msgs. vms_ok owned s' msgs) \<and>
     open_ports (sys_vm s') = ports_step c out (open_ports (sys_vm s)) \<and> out_ok c out (open_ports (sys_vm s))"

lemma NewPort_step:
  assumes ok: "vms_ok owned s msgs" and a: "op_ok owned s (NewPort a)"
  shows "\<exists>s' out. step_ok owned s (NewPort a) s' out"
proof -
  let ?vm = "sys_vm s"
  let ?p = "next_port (vm_ports ?vm)"
  obtain mh where mh: "vm_handlers ?vm a = Some mh" using a by auto
  obtain pm' where c: "CreatePort (vm_ports ?vm) a = Some (pm', ?p)" "vm_ok owned (?vm\<lparr>vm_ports := pm'\<rparr>) (sys_calls s) (sys_held s) msgs"
      "entries_of (pm_map pm') = add_mset \<lparr>pe_port = ?p, pe_handler = a, pe_live = False\<rparr> (vm_entries ?vm)"
    using NewPort_ok [OF ok mh] by blast
  have new: "pe_port e \<noteq> ?p" if "e \<in># vm_entries ?vm" for e using pm_wfD(8) [OF vm_okD(1) [OF ok] that] by simp
  then have "open_ports ?vm ?p = None" unfolding ports_of_None [OF vm_okD(3) [OF ok]] by blast
  moreover have "ports_of (pm_map pm') = (open_ports ?vm)(?p \<mapsto> (a, False))"
    by (rule ports_of_insert [OF vm_okD(3) [OF ok] _ c(3) new]) (use vm_okD(3) [OF c(2)] in simp)
  ultimately show ?thesis
    using c(1,2) pm_wfD(7) [OF vm_okD(1) [OF ok]]
    by (intro exI [of _ "with_vm s (?vm\<lparr>vm_ports := pm'\<rparr>)"] exI [of _ "Opened ?p"]) (auto simp: step_ok_def with_vm_def)
qed

lemma MakeLive_step:
  assumes ok: "vms_ok owned s msgs" and p: "op_ok owned s (MakeLive port)"
  shows "\<exists>s' out. step_ok owned s (MakeLive port) s' out"
proof -
  let ?vm = "sys_vm s"
  obtain a where a: "open_ports ?vm port = Some (a, False)" using p by (auto split: option.splits)
  obtain vm' where c: "SetLive ?vm port = Some vm'" "vm_ok owned vm' (sys_calls s) (sys_held s) msgs"
      "vm_entries vm' = add_mset \<lparr>pe_port = port, pe_handler = a, pe_live = True\<rparr>
        (vm_entries ?vm - {#\<lparr>pe_port = port, pe_handler = a, pe_live = False\<rparr>#})"
    using MakeLive_ok [OF ok a] by blast
  have "open_ports vm' = (open_ports ?vm)(port \<mapsto> (a, True))"
    by (rule ports_of_change [OF vm_okD(3) [OF ok] vm_okD(3) [OF c(2)] _ c(3)]) (use a ports_of_iff [OF vm_okD(3) [OF ok]] in simp)
  then show ?thesis using a c(1,2) by (auto simp: step_ok_def with_vm_def)
qed

lemma remove_port_closed:
  "vm_ok owned vm calls held msgs \<Longrightarrow> 0 < port \<Longrightarrow> open_ports vm port = None \<Longrightarrow> remove_port vm port = Some (vm, 0)"
  using find_closed by (auto simp: remove_port_def)

lemma Close_step:
  assumes ok: "vms_ok owned s msgs" and p: "op_ok owned s (Close port)"
  shows "\<exists>s' out. step_ok owned s (Close port) s' out"
proof (cases "open_ports (sys_vm s) port")
  case None
  then have "remove_port (sys_vm s) port = Some (sys_vm s, 0)" using remove_port_closed [OF ok] p by simp
  then show ?thesis using ok None by (auto simp: step_ok_def with_vm_def fun_upd_idem)
next
  case (Some al)
  obtain a l where al: "al = (a, l)" by (cases al)
  let ?e = "\<lparr>pe_port = port, pe_handler = a, pe_live = l\<rparr>" and ?calls = "add_mset (Flushing a port) (sys_calls s)"
  obtain vm' where c: "remove_port (sys_vm s) port = Some (vm', a)" "a \<noteq> 0" "vm_ok owned vm' ?calls (sys_held s) msgs"
      "vm_entries vm' = vm_entries (sys_vm s) - {#?e#}"
    using remove_port_ok [OF ok, of port a l] Some al by blast
  have "?e \<in># vm_entries (sys_vm s)" using Some al ports_of_iff [OF vm_okD(3) [OF ok]] by simp
  then have "vm_entries (sys_vm s) = add_mset ?e (vm_entries vm')" using c(4) by simp
  from ports_of_remove [OF vm_okD(3) [OF ok] vm_okD(3) [OF c(3)] this] show ?thesis using c Some by (auto simp: step_ok_def)
qed

lemma CloseAll_step:
  assumes ok: "vms_ok owned s msgs" and a: "op_ok owned s (CloseAll a)"
  shows "\<exists>s' out. step_ok owned s (CloseAll a) s' out"
proof -
  let ?calls = "add_mset (FlushingAll a) (sys_calls s)"
  obtain mh where mh: "vm_handlers (sys_vm s) a = Some mh" using a by auto
  obtain vm' where c: "remove_ports (sys_vm s) a = Some vm'" "vm_ok owned vm' ?calls (sys_held s) msgs"
      "vm_entries vm' = filter_mset (\<lambda>e. pe_handler e \<noteq> a) (vm_entries (sys_vm s))"
    using remove_ports_ok [OF ok mh] by blast
  from ports_of_filter [OF vm_okD(3) [OF ok] vm_okD(3) [OF c(2)] c(3)] show ?thesis
    using c(1,2) by (auto simp: step_ok_def)
qed

lemma Resume_step:
  assumes ok: "vms_ok owned s msgs" and c: "op_ok owned s (Resume c)"
  shows "\<exists>s' out. step_ok owned s (Resume c) s' out"
proof (cases c)
  case (Flushing a port)
  then show ?thesis using flush_port_ok [OF ok, of a port] c by (auto simp: step_ok_def)
next
  case (Releasing a)
  then show ?thesis using release_handler_ok [OF ok, of a] c by (auto simp: step_ok_def)
next
  case (FlushingAll a)
  then show ?thesis using flush_ports_ok [OF ok, of a] c by (auto simp: step_ok_def)
qed

lemma Receive_step:
  assumes ok: "vms_ok owned s msgs" and a: "op_ok owned s (Receive a prio)"
  shows "\<exists>s' out. step_ok owned s (Receive a prio) s' out"
proof -
  obtain mh where mh: "vm_handlers (sys_vm s) a = Some mh" using a by auto
  obtain mh' m q where d: "DequeueMessage (vm_heap (sys_vm s)) mh prio = Some (mh', m)"
      "vm_ok owned ((sys_vm s)\<lparr>vm_handlers := (vm_handlers (sys_vm s))(a \<mapsto> mh')\<rparr>) (sys_calls s)
        (if m = 0 then sys_held s else insert m (sys_held s)) (msgs(a := q))"
    using Receive_ok [OF ok mh, of prio] by blast
  let ?s = "s\<lparr>sys_vm := (sys_vm s)\<lparr>vm_handlers := (vm_handlers (sys_vm s))(a \<mapsto> mh')\<rparr>,
    sys_held := (if m = 0 then sys_held s else insert m (sys_held s))\<rparr>"
  have "vm_step owned s (Receive a prio) = Some (?s, Got m)" using mh d(1) by simp
  then show ?thesis using d(2) by (intro exI [of _ ?s] exI [of _ "Got m"]) (auto simp: step_ok_def simp del: vm_step.simps)
qed

lemma vm_step_ok:
  assumes ok: "vms_ok owned s msgs" and c: "op_ok owned s c"
  shows "\<exists>s' out. step_ok owned s c s' out"
proof (cases c)
  case (NewHandler a)
  then show ?thesis using NewHandler_ok [OF ok, of a] c by (auto simp: step_ok_def with_vm_def)
next
  case (NewPort a)
  then show ?thesis using NewPort_step [OF ok] c by simp
next
  case (MakeLive port)
  then show ?thesis using MakeLive_step [OF ok] c by simp
next
  case (Close port)
  then show ?thesis using Close_step [OF ok] c by simp
next
  case (CloseAll a)
  then show ?thesis using CloseAll_step [OF ok] c by simp
next
  case (Resume call)
  then show ?thesis using Resume_step [OF ok] c by simp
next
  case (Send m msg)
  then show ?thesis using Send_ok [OF ok, of m msg] c by (auto simp: step_ok_def with_vm_def)
next
  case (Receive a prio)
  then show ?thesis using Receive_step [OF ok] c by simp
next
  case (Handled m)
  then show ?thesis using Handled_ok [OF ok, of m] c by (auto simp: step_ok_def)
next
  case (Dispose a)
  have "\<forall>e \<in># vm_entries (sys_vm s). pe_handler e \<noteq> a" "\<forall>c \<in># sys_calls s. call_handler c \<noteq> a"
    using c Dispose by (auto simp: entries_of_mem list_all_iff)
  from Dispose_ok [OF ok this] show ?thesis using Dispose by (auto simp: step_ok_def with_vm_def)
qed

lemma initial_vm_ok: "vms_ok owned initial_vm (\<lambda>a. ([], []))"
proof -
  have "entries_of (pm_map InitOnce) = {#}" "tombs (pm_map InitOnce) = 0" "table_ok (pm_map InitOnce)"
    using replicate_free [of 8] by (simp_all add: InitOnce_def)
  then show ?thesis by (simp add: vm_ok_def initial_vm_def pm_wf_def balanced_def) (simp add: InitOnce_def)
qed

lemma vm_reachable_ok: "vm_reachable owned s \<Longrightarrow> \<exists>msgs. vms_ok owned s msgs"
proof (induction rule: vm_reachable.induct)
  case initial
  then show ?case using initial_vm_ok by blast
next
  case (step s c s' out)
  then obtain msgs where "vms_ok owned s msgs" by blast
  from vm_step_ok [OF this step.hyps(2)] show ?case using step.hyps(3) by (auto simp: step_ok_def)
qed

text \<open>Runs of given operations, for examples.\<close>

fun vm_run :: "(addr \<Rightarrow> bool) \<Rightarrow> vm_sys \<Rightarrow> vm_op list \<Rightarrow> vm_sys option" where
  "vm_run owned s [] = Some s"
| "vm_run owned s (c # cs) =
     (if op_ok owned s c then Option.bind (vm_step owned s c) (\<lambda>(s, out). vm_run owned s cs) else None)"

lemma vm_run_reachable: "vm_run owned s cs = Some s' \<Longrightarrow> vm_reachable owned s \<Longrightarrow> vm_reachable owned s'"
  by (induction cs arbitrary: s) (auto split: if_splits bind_splits intro: vm_reachable.step)

text \<open>A native handler opens a port; a message is sent to it; and another thread closes the port
  but has not flushed the queues yet.\<close>

definition native_ops :: "vm_op list" where
  "native_ops = [NewHandler 2, NewPort 2, Send 5 (new_message 7111 0 0 kNormalPriority)]"

lemma native_run:
  "\<exists>s s'. vm_reachable (\<lambda>a. a = 2) s \<and> open_ports (sys_vm s) 7111 = Some (2, False) \<and> vm_handlers (sys_vm s) 2 \<noteq> None \<and>
     vm_reachable (\<lambda>a. a = 2) s' \<and> open_ports (sys_vm s') 7111 = None \<and> sys_calls s' = {#Flushing 2 7111#} \<and>
     map_option (\<lambda>mh. mq_head (mh_queue mh)) (vm_handlers (sys_vm s') 2) = Some 5"
proof -
  let ?owned = "\<lambda>a::addr. a = 2"
  have "case vm_run ?owned initial_vm native_ops of None \<Rightarrow> False
    | Some s \<Rightarrow> open_ports (sys_vm s) 7111 = Some (2, False) \<and> vm_handlers (sys_vm s) 2 \<noteq> None"
    by code_simp
  moreover have "case vm_run ?owned initial_vm (native_ops @ [Close 7111]) of None \<Rightarrow> False
    | Some s \<Rightarrow> open_ports (sys_vm s) 7111 = None \<and> sys_calls s = {#Flushing 2 7111#} \<and>
        map_option (\<lambda>mh. mq_head (mh_queue mh)) (vm_handlers (sys_vm s) 2) = Some 5"
    by code_simp
  ultimately obtain s s' where "vm_run ?owned initial_vm native_ops = Some s" "open_ports (sys_vm s) 7111 = Some (2, False)"
      "vm_handlers (sys_vm s) 2 \<noteq> None" "vm_run ?owned initial_vm (native_ops @ [Close 7111]) = Some s'"
      "open_ports (sys_vm s') 7111 = None" "sys_calls s' = {#Flushing 2 7111#}"
      "map_option (\<lambda>mh. mq_head (mh_queue mh)) (vm_handlers (sys_vm s') 2) = Some 5"
    by (auto split: option.splits)
  then show ?thesis using vm_run_reachable [OF _ vm_reachable.initial] by blast
qed

lemma queue_rep_Nil: "queue_rep h q [] \<longleftrightarrow> q = MessageQueue"
  by (cases q) (auto simp: queue_rep_def MessageQueue_def last_addr_def)

text \<open>C26: In every reachable state of the threads, each step that meets the obligations of its
  caller (\<open>op_ok\<close>: port numbers are positive, new handlers and messages have new addresses, the
  handler of a new port exists, and a port is made live once) returns, so no search for a
  port fails to end and no pointer to a missing handler or message is followed, and the
  steps act on the open ports as on a map: a new port has a new number, closing one removes
  it, closing those of a handler removes exactly them, flushing and handling messages change
  nothing, and a message is accepted exactly when its port is open.\<close>

theorem port_map_refines_map:
  assumes "vm_reachable owned s" and "op_ok owned s c"
  shows "\<exists>s' out. vm_step owned s c = Some (s', out) \<and>
    open_ports (sys_vm s') = ports_step c out (open_ports (sys_vm s)) \<and> out_ok c out (open_ports (sys_vm s))"
  using vm_reachable_ok [OF assms(1)] vm_step_ok [OF _ assms(2)] unfolding step_ok_def by blast

theorem port_map_refines_map_witness:
  "\<exists>s s'. open_ports (sys_vm s) 7111 = Some (2, False) \<and> vm_step (\<lambda>a. a = 2) s (Close 7111) = Some (s', Flag True) \<and>
     open_ports (sys_vm s') 7111 = None"
proof -
  obtain s where s: "vm_reachable (\<lambda>a. a = 2) s" "open_ports (sys_vm s) 7111 = Some (2, False)" using native_run by blast
  have "op_ok (\<lambda>a. a = 2) s (Close 7111)" by simp
  from port_map_refines_map [OF s(1) this] obtain s' out where "vm_step (\<lambda>a. a = 2) s (Close 7111) = Some (s', out)"
      "open_ports (sys_vm s') = ports_step (Close 7111) out (open_ports (sys_vm s))" "out_ok (Close 7111) out (open_ports (sys_vm s))"
    by blast
  then show ?thesis using s(2) by (intro exI [of _ s] exI [of _ s']) (simp del: vm_step.simps)
qed

text \<open>C27: In every reachable state of the threads, the messages that wait in the queues of a
  handler are allocated, no message waits for two handlers, and each has as destination a
  port of the handler that is open, or one that a thread has taken out of the table and
  whose messages it is still to flush; a message in that last window can be handled although its
  port is closed. Once no port of a handler is open and no call that closes one is in
  progress, its queues are empty, as the destructor of the queue asserts. The number of
  live ports of a handler is that of its open ports that were made live, plus one for a
  native handler, and the messages being handled are allocated and in no queue.\<close>

theorem messages_reach_open_ports:
  assumes "vm_reachable owned s"
  shows "\<exists>msgs. (\<forall>a mh. vm_handlers (sys_vm s) a = Some mh \<longrightarrow>
      holds (vm_heap (sys_vm s)) mh (fst (msgs a)) (snd (msgs a)) \<and>
      live_ports mh = of_bool (owned a) + int (live_count (vm_entries (sys_vm s)) a) \<and>
      (\<forall>m \<in> queued msgs a. (\<exists>l. open_ports (sys_vm s) (dest_at (vm_heap (sys_vm s)) m) = Some (a, l)) \<or>
         closing (sys_calls s) a (dest_at (vm_heap (sys_vm s)) m)) \<and>
      ((\<forall>port l. open_ports (sys_vm s) port \<noteq> Some (a, l)) \<and> (\<forall>c \<in># sys_calls s. call_handler c \<noteq> a) \<longrightarrow>
         mh_queue mh = MessageQueue \<and> mh_oob_queue mh = MessageQueue)) \<and>
    (\<forall>a b. vm_handlers (sys_vm s) a \<noteq> None \<and> vm_handlers (sys_vm s) b \<noteq> None \<and> a \<noteq> b \<longrightarrow> queued msgs a \<inter> queued msgs b = {}) \<and>
    (\<forall>m \<in> sys_held s. vm_heap (sys_vm s) m \<noteq> None \<and> (\<forall>a. vm_handlers (sys_vm s) a \<noteq> None \<longrightarrow> m \<notin> queued msgs a))"
proof -
  let ?vm = "sys_vm s"
  obtain msgs where ok: "vms_ok owned s msgs" using vm_reachable_ok [OF assms] by blast
  have dest: "(\<exists>l. open_ports ?vm (dest_at (vm_heap ?vm) m) = Some (a, l)) \<or> closing (sys_calls s) a (dest_at (vm_heap ?vm) m)"
    if a: "vm_handlers ?vm a = Some mh" and m: "m \<in> queued msgs a" for a mh m
  proof (rule ccontr)
    assume no: "\<not> ?thesis"
    then obtain e where e: "e \<in># vm_entries ?vm" "pe_port e = dest_at (vm_heap ?vm) m" "pe_handler e = a"
      using handler_okD(4) [OF vm_okD(5) [OF ok a] m] unfolding dest_ok_def by blast
    have "e = \<lparr>pe_port = dest_at (vm_heap ?vm) m, pe_handler = a, pe_live = pe_live e\<rparr>" by (cases e) (use e(2,3) in simp)
    then show False using e(1) no ports_of_iff [OF vm_okD(3) [OF ok]] by metis
  qed
  have "mh_queue mh = MessageQueue \<and> mh_oob_queue mh = MessageQueue"
    if a: "vm_handlers ?vm a = Some mh" and none: "\<forall>port l. open_ports ?vm port \<noteq> Some (a, l)" "\<forall>c \<in># sys_calls s. call_handler c \<noteq> a" for a mh
  proof -
    have "queued msgs a = {}" using dest [OF a] none unfolding closing_def by fastforce
    then have "holds (vm_heap ?vm) mh [] []" using handler_okD(2) [OF vm_okD(5) [OF ok a]] by (simp add: queued_def)
    then show ?thesis by (simp add: holds_def mq.rep2_def queue_rep_Nil)
  qed
  then show ?thesis using dest handler_okD(2,3) [OF vm_okD(5) [OF ok]] vm_okD(6,8,9) [OF ok] by (intro exI [of _ msgs]) blast
qed

theorem messages_reach_open_ports_witness:
  "\<exists>(s :: vm_sys) mh (msgs :: queues). open_ports (sys_vm s) 7111 = None \<and> closing (sys_calls s) 2 7111 \<and>
     vm_handlers (sys_vm s) 2 = Some mh \<and> holds (vm_heap (sys_vm s)) mh (fst (msgs 2)) (snd (msgs 2)) \<and> 5 \<in> queued msgs 2"
proof -
  obtain s mh where s: "vm_reachable (\<lambda>a. a = 2) s" "open_ports (sys_vm s) 7111 = None" "sys_calls s = {#Flushing 2 7111#}"
      "vm_handlers (sys_vm s) 2 = Some mh" "mq_head (mh_queue mh) = 5"
    using native_run by auto
  obtain msgs :: queues where h: "holds (vm_heap (sys_vm s)) mh (fst (msgs 2)) (snd (msgs 2))"
    using messages_reach_open_ports [OF s(1)] s(4) by blast
  then have "links (vm_heap (sys_vm s)) 5 (fst (msgs 2)) 0" using s(5) by (simp add: holds_def mq.rep2_def queue_rep_def)
  then have "5 \<in> queued msgs 2" by (cases "fst (msgs 2)") (auto simp: queued_def)
  moreover have "closing (sys_calls s) 2 7111" using s(3) by (simp add: closing_def)
  ultimately show ?thesis using s(2,4) h by blast
qed

text \<open>No part of an operation takes a handler away, except \<open>release_handler\<close>.\<close>

lemma handlers_kept:
  assumes "vm_handlers vm a \<noteq> None"
  shows "SetLive vm port = Some vm' \<Longrightarrow> vm_handlers vm' a \<noteq> None" "remove_port vm port = Some (vm', b) \<Longrightarrow> vm_handlers vm' a \<noteq> None"
    "flush_port vm b port = Some vm' \<Longrightarrow> vm_handlers vm' a \<noteq> None" "remove_ports vm b = Some vm' \<Longrightarrow> vm_handlers vm' a \<noteq> None"
    "flush_ports vm b = Some vm' \<Longrightarrow> vm_handlers vm' a \<noteq> None" "PostMessage vm m = Some (vm', sent) \<Longrightarrow> vm_handlers vm' a \<noteq> None"
  using assms
  by (auto simp: SetLive_def remove_port_def flush_port_def remove_ports_def flush_ports_def Port_Map.PostMessage_def Let_def
      split: bind_splits if_splits prod.splits)

lemma native_step:
  assumes ok: "vms_ok owned s msgs" and a: "vm_handlers (sys_vm s) a \<noteq> None" "owned a"
    and c: "op_ok owned s c" "vm_step owned s c = Some (s', out)"
  shows "vm_handlers (sys_vm s') a \<noteq> None"
proof (cases c)
  case (Resume call)
  show ?thesis
  proof (cases call)
    case (Releasing b)
    then show ?thesis using release_handler_ok [OF ok, of b] Resume c a(1) by auto
  qed (use c Resume handlers_kept [OF a(1)] in auto)
qed (use a c handlers_kept [OF a(1)] handlers_kept(6) [of "(sys_vm s)\<lparr>vm_heap := h\<rparr>" a for h]
    in \<open>auto simp: with_vm_def split: if_splits prod.splits bind_splits\<close>)

lemma native_ClosePort:
  assumes ok: "vm_ok owned vm calls held msgs" and a: "vm_handlers vm a \<noteq> None" and port: "0 < port"
  shows "\<exists>vm' closed. ClosePort owned vm port = Some (vm', closed) \<and> vm_handlers vm' a \<noteq> None"
proof (cases "open_ports vm port")
  case None
  then have "ClosePort owned vm port = Some (vm, False)" using remove_port_closed [OF ok port] by (simp add: Port_Map.ClosePort_def)
  then show ?thesis using a by blast
next
  case (Some bl)
  then obtain b l where "open_ports vm port = Some (b, l)" by (cases bl) simp
  from remove_port_ok [OF ok this] obtain vm1 where 1: "remove_port vm port = Some (vm1, b)" "b \<noteq> 0"
      "vm_ok owned vm1 (add_mset (Flushing b port) calls) held msgs" by blast
  from flush_port_ok [OF 1(3), of b port] obtain vm2 q where 2: "flush_port vm1 b port = Some vm2"
      "vm_ok owned vm2 (add_mset (Releasing b) calls) held (msgs(b := q))" by auto
  from release_handler_ok [OF 2(2), of b] have "ClosePort owned vm port = Some (vm2, True)"
    using 1(1,2) 2(1) by (simp add: Port_Map.ClosePort_def)
  then show ?thesis using handlers_kept(3) [OF handlers_kept(2) [OF a 1(1)] 2(1)] by blast
qed

text \<open>C28: A handler owned by the port map is never deleted: it starts with one live port that
  no entry of the map stands for, so its count stays positive in every reachable state,
  \<open>ClosePort\<close> run to its end leaves it in place, and so does every step of a thread; only the
  isolates dispose of handlers otherwise, and not of these.\<close>

theorem native_handlers_stay:
  assumes "vm_reachable owned s" and "vm_handlers (sys_vm s) a = Some mh" and "owned a" and "0 < port"
  shows "HasLivePorts mh \<and> (\<exists>vm' closed. ClosePort owned (sys_vm s) port = Some (vm', closed) \<and> vm_handlers vm' a \<noteq> None) \<and>
    (\<forall>c s' out. op_ok owned s c \<and> vm_step owned s c = Some (s', out) \<longrightarrow> vm_handlers (sys_vm s') a \<noteq> None)"
proof -
  obtain msgs where ok: "vms_ok owned s msgs" using vm_reachable_ok [OF assms(1)] by blast
  have a: "vm_handlers (sys_vm s) a \<noteq> None" using assms(2) by simp
  have "HasLivePorts mh" using handler_okD(3) [OF vm_okD(5) [OF ok assms(2)]] assms(3) by (simp add: HasLivePorts_def)
  then show ?thesis using native_ClosePort [OF ok a assms(4)] native_step [OF ok a assms(3)] by blast
qed

theorem native_handlers_stay_witness:
  "\<exists>(s :: vm_sys) vm' closed. open_ports (sys_vm s) 7111 = Some (2, False) \<and>
     ClosePort (\<lambda>a. a = 2) (sys_vm s) 7111 = Some (vm', closed) \<and> vm_handlers vm' 2 \<noteq> None"
proof -
  obtain s mh where "vm_reachable (\<lambda>a. a = 2) s" "open_ports (sys_vm s) 7111 = Some (2, False)" "vm_handlers (sys_vm s) 2 = Some mh"
    using native_run by auto
  then show ?thesis using native_handlers_stay [of "\<lambda>a. a = 2" s 2 mh 7111] by auto
qed

text \<open>C29: Port numbers that are not positive are not safe to look up: for a negative number that
  is no multiple of the capacity the search starts outside the table, and the illegal port
  number 0 is found at a deleted first entry.\<close>

theorem find_port_illegal:
  assumes "pm_wf pm"
  shows "(port < 0 \<and> \<not> pm_capacity pm dvd port \<longrightarrow> FindPort pm port = None) \<and>
    (pe_handler (pm_map pm ! 0) = deleted_entry \<longrightarrow> FindPort pm kIllegalPort = Some 0)"
proof -
  note w = pm_wfD [OF assms]
  have "FindPort pm port = None" if "port < 0" "\<not> pm_capacity pm dvd port"
  proof -
    have "port smod pm_capacity pm = - (- port mod pm_capacity pm)"
      using that(1) w(2,3) by (simp add: signed_modulo_int_def signed_divide_int_def minus_div_mult_eq_mod)
    moreover have "0 < - port mod pm_capacity pm"
      using that(2) w(2,3) pos_mod_sign [of "pm_capacity pm" "- port"] by (metis dvd_eq_mod_eq_0 dvd_minus_iff le_less of_nat_0_less_iff
          less_le_trans zero_less_numeral)
    ultimately show ?thesis unfolding FindPort_def by (subst find_loop.simps) (simp add: entry_at_def)
  qed
  moreover have "FindPort pm kIllegalPort = Some 0" if "pe_handler (pm_map pm ! 0) = deleted_entry"
  proof -
    have len: "0 < length (pm_map pm)" using w(3) by linarith
    have e: "pe_port (pm_map pm ! 0) = 0"
      using table_okD(1) [OF w(1) nth_mem [OF len]] that by (simp add: entry_ok_def deleted_entry_def)
    have s: "(0 :: int) smod pm_capacity pm = 0" by (simp add: signed_modulo_int_def signed_divide_int_def)
    show ?thesis unfolding FindPort_def kIllegalPort_def s
      by (subst find_loop.simps) (use that e len in \<open>simp add: entry_at_def deleted_entry_def\<close>)
  qed
  ultimately show ?thesis by blast
qed

theorem find_port_illegal_witness: "FindPort InitOnce (- 1) = None"
proof -
  have "pm_wf InitOnce" using initial_vm_ok vm_okD(1) by (fastforce simp: initial_vm_def)
  then show ?thesis using find_port_illegal [of InitOnce "- 1"] by (simp add: InitOnce_def)
qed

end
