(* ===== verification/Utf8.thy ===== *)
theory Utf8
  imports Dart_Prelude
begin

text \<open>
  UTF-8 (\<open>runtime/vm/unicode.h\<close> and \<open>runtime/vm/unicode.cc\<close>): encoding and decoding of code
  points and strings. A C string is the list of its bytes before the terminating null
  character, so a position at the end of the list reads as 0. A string object is the list
  of its code points.
\<close>

subsection \<open>Tables and predicates\<close>

type_synonym cstring = "uint8 list"

definition kMaxOneByteChar :: int where "kMaxOneByteChar = 0x7F"
definition kMaxTwoByteChar :: int where "kMaxTwoByteChar = 0x7FF"
definition kMaxThreeByteChar :: int where "kMaxThreeByteChar = 0xFFFF"
definition kMaxFourByteChar :: int where "kMaxFourByteChar = 0x10FFFF"

definition kTrailBytes :: "nat list" where
  "kTrailBytes =
     replicate 128 1 @ replicate 64 0 @ replicate 32 2 @ replicate 16 3 @
     [4, 4, 4, 4, 4, 4, 4, 4, 5, 5, 5, 5, 6, 6, 0, 0]"

definition kMagicBits :: "uint32 list" where
  "kMagicBits = [0, 0x00000000, 0x00003080, 0x000E2080, 0x03C82080, 0xFA082080, 0x82082080]"

definition kOverlongMinimum :: "uint32 list" where
  "kOverlongMinimum = [0, 0x0, 0x80, 0x800, 0x10000, 0xFFFFFFFF, 0xFFFFFFFF]"

definition IsTrailByte :: "uint8 \<Rightarrow> bool" where
  "IsTrailByte code_unit \<longleftrightarrow> code_unit AND 0xc0 = 0x80"

definition IsSurrogate :: "uint32 \<Rightarrow> bool" where
  "IsSurrogate code_point \<longleftrightarrow> code_point AND 0xfffff800 = 0xd800"

definition IsOutOfRange :: "uint32 \<Rightarrow> bool" where
  "IsOutOfRange code_point \<longleftrightarrow> code_point > 0x10FFFF"

definition IsNonShortestForm :: "uint32 \<Rightarrow> nat \<Rightarrow> bool" where
  "IsNonShortestForm code_point num_bytes \<longleftrightarrow> code_point < kOverlongMinimum ! num_bytes"

subsection \<open>Counting\<close>

fun count_loop :: "cstring \<Rightarrow> nat \<Rightarrow> bool \<Rightarrow> bool \<Rightarrow> nat \<times> bool \<times> bool" where
  "count_loop [] len two four = (len, two, four)"
| "count_loop (code_unit # str) len two four =
     count_loop str (if \<not> IsTrailByte code_unit then len + 1 else len)
       (two \<or> code_unit > 0xC3 \<and> code_unit < 0xF0) (four \<or> code_unit > 0xC3 \<and> \<not> code_unit < 0xF0)"

definition CodePointCount :: "cstring \<Rightarrow> nat \<times> nat" where
  "CodePointCount str =
     (case count_loop str 0 False False of
        (len, is_two_byte_string, is_four_byte_string) \<Rightarrow>
          (len, if is_four_byte_string then 4 else if is_two_byte_string then 2 else 1))"

definition Length :: "int \<Rightarrow> nat" where
  "Length ch =
     (if ch \<le> kMaxOneByteChar then 1 else if ch \<le> kMaxTwoByteChar then 2
      else if ch \<le> kMaxThreeByteChar then 3 else 4)"

fun Length_string :: "int list \<Rightarrow> nat" where
  "Length_string [] = 0"
| "Length_string (ch # str) = Length ch + Length_string str"

subsection \<open>Encoding\<close>

definition kMask :: int where "kMask = NOT (push_bit 6 1)"

abbreviation to_char :: "int \<Rightarrow> uint8" where
  "to_char ch \<equiv> word_of_int ch"

definition Encode :: "int \<Rightarrow> cstring" where
  "Encode ch =
     (if ch \<le> kMaxOneByteChar then [to_char ch]
      else if ch \<le> kMaxTwoByteChar then [to_char (0xC0 OR drop_bit 6 ch), to_char (0x80 OR (ch AND kMask))]
      else if ch \<le> kMaxThreeByteChar
      then [to_char (0xE0 OR drop_bit 12 ch), to_char (0x80 OR (drop_bit 6 ch AND kMask)), to_char (0x80 OR (ch AND kMask))]
      else [to_char (0xF0 OR drop_bit 18 ch), to_char (0x80 OR (drop_bit 12 ch AND kMask)),
            to_char (0x80 OR (drop_bit 6 ch AND kMask)), to_char (0x80 OR (ch AND kMask))])"

text \<open>The bytes written to \<open>dst\<close>; their number is the result of the function.\<close>

fun Encode_string :: "int list \<Rightarrow> nat \<Rightarrow> nat \<Rightarrow> cstring" where
  "Encode_string [] pos len = []"
| "Encode_string (ch # src) pos len =
     (let num_bytes = Length ch
      in if pos + num_bytes > len then [] else Encode ch @ Encode_string src (pos + num_bytes) len)"

subsection \<open>Decoding\<close>

definition byte_at :: "cstring \<Rightarrow> nat \<Rightarrow> uint8" where
  "byte_at src i = (if i < length src then src ! i else 0)"

fun decode_loop :: "cstring \<Rightarrow> nat list \<Rightarrow> bool \<Rightarrow> uint32 \<Rightarrow> (bool \<times> uint32) option" where
  "decode_loop src [] is_malformed ch = Some (is_malformed, ch)"
| "decode_loop src (i # js) is_malformed ch =
     (if byte_at src i \<noteq> 0
      then decode_loop src js (is_malformed \<or> \<not> IsTrailByte (byte_at src i)) (push_bit 6 ch + ucast (byte_at src i))
      else None)"

definition Decode :: "cstring \<Rightarrow> int \<times> nat" where
  "Decode src =
     (let ch = ucast (byte_at src 0) :: uint32
      in if ch \<ge> 0x80
         then
           let num_trail_bytes = kTrailBytes ! unat ch
           in case decode_loop src [1..<num_trail_bytes] False ch of
                None \<Rightarrow> (- 1, 0)
              | Some (is_malformed, ch) \<Rightarrow>
                  let i = max 1 num_trail_bytes;
                      ch = ch - kMagicBits ! num_trail_bytes
                  in if \<not> (\<not> is_malformed \<and> i = num_trail_bytes \<and> \<not> IsOutOfRange ch \<and>
                          \<not> IsNonShortestForm ch i \<and> \<not> IsSurrogate ch)
                     then (- 1, 0)
                     else (sint ch, i)
         else (sint ch, 1))"

text \<open>\<open>T\<close> is the cast of a code point to an element of the destination array. The result is
  the return value and the elements written.\<close>

function DecodeImpl :: "(int \<Rightarrow> 'a) \<Rightarrow> cstring \<Rightarrow> nat \<Rightarrow> bool \<times> 'a list" where
  "DecodeImpl T src len =
     (if src \<noteq> [] \<and> 0 < len
      then
        case Decode src of (ch, num_bytes) \<Rightarrow>
          if ch = - 1 then (False, [])
          else case DecodeImpl T (drop num_bytes src) (len - 1) of (ok, dst) \<Rightarrow> (ok, T ch # dst)
      else (src = [], []))"
  by pat_completeness auto
termination
  by (relation "measure (\<lambda>(T, src, len). len)") auto

definition Decode_uint8 :: "cstring \<Rightarrow> nat \<Rightarrow> bool \<times> uint8 list" where
  "Decode_uint8 = DecodeImpl word_of_int"

definition Decode_uint16 :: "cstring \<Rightarrow> nat \<Rightarrow> bool \<times> 16 word list" where
  "Decode_uint16 = DecodeImpl word_of_int"

definition Decode_uint32 :: "cstring \<Rightarrow> nat \<Rightarrow> bool \<times> uint32 list" where
  "Decode_uint32 = DecodeImpl word_of_int"

declare DecodeImpl.simps [simp del]

subsection \<open>Bytes as numbers\<close>

lemma and_high_bits: "w AND NOT (mask n) = push_bit n (drop_bit n w)" for w :: "'a::len word"
  by (auto intro!: bit_word_eqI simp: bit_simps)

lemma IsTrailByte_iff: "IsTrailByte b \<longleftrightarrow> 128 \<le> unat b \<and> unat b < 192"
proof -
  have eq: "(0xc0 :: uint8) = NOT (mask 6)" by (simp add: mask_eq_exp_minus_1)
  have "IsTrailByte b \<longleftrightarrow> unat (push_bit 6 (drop_bit 6 b)) = unat (0x80 :: uint8)"
    unfolding IsTrailByte_def eq and_high_bits by (simp only: word_unat_eq_iff)
  also have "unat (push_bit 6 (drop_bit 6 b)) = unat b div 64 * 64"
    using unat_less [of b] by (simp add: unat_push_bit unat_drop_bit)
  finally show ?thesis by auto
qed

lemma trail_byte: "unat (0x80 OR (b AND NOT 64) :: uint8) = 128 + unat b mod 64"
proof -
  have "list_all (\<lambda>k. unat (0x80 OR word_of_nat k :: uint8) = 128 + k) [0..<64]" by code_simp
  then have "unat (0x80 OR word_of_nat (unat b mod 64) :: uint8) = 128 + unat b mod 64" by (simp add: list_all_iff)
  moreover have "0x80 OR (b AND NOT 64) = 0x80 OR (b AND mask 6)"
  proof (rule bit_word_eqI)
    fix n assume "n < LENGTH(8)"
    then have "n = 0 \<or> n = 1 \<or> n = 2 \<or> n = 3 \<or> n = 4 \<or> n = 5 \<or> n = 6 \<or> n = 7" by auto
    then show "bit (0x80 OR (b AND NOT 64)) n \<longleftrightarrow> bit (0x80 OR (b AND mask 6)) n"
      by (elim disjE) (simp_all add: bit_simps)
  qed
  moreover have "b AND mask 6 = word_of_nat (unat b mod 64)"
    by (simp add: word_unat_eq_iff unat_and_mask unsigned_of_nat take_bit_eq_mod)
  ultimately show ?thesis by simp
qed

lemma to_char_trail: "unat (to_char (0x80 OR (ch AND kMask))) = 128 + nat (ch mod 64)"
proof -
  have "to_char (0x80 OR (ch AND kMask)) = 0x80 OR (to_char ch AND NOT 64)"
    by (rule bit_word_eqI) (auto simp: kMask_def bit_simps)
  then have "unat (to_char (0x80 OR (ch AND kMask))) = 128 + unat (to_char ch) mod 64" using trail_byte by simp
  moreover have "unat (to_char ch) mod 64 = nat (ch mod 64)"
  proof -
    have "nat (ch mod 256) mod 64 = nat (ch mod 256 mod 64)" by (simp add: nat_mod_distrib)
    then show ?thesis by (simp add: unsigned_of_int take_bit_eq_mod mod_mod_cancel)
  qed
  ultimately show ?thesis by simp
qed

lemma lead_byte_2: "k < 32 \<Longrightarrow> unat (to_char (0xC0 OR int k)) = 192 + k"
proof -
  have "list_all (\<lambda>k. unat (to_char (0xC0 OR int k)) = 192 + k) [0..<32]" by code_simp
  then show "k < 32 \<Longrightarrow> ?thesis" by (simp add: list_all_iff)
qed

lemma lead_byte_3: "k < 16 \<Longrightarrow> unat (to_char (0xE0 OR int k)) = 224 + k"
proof -
  have "list_all (\<lambda>k. unat (to_char (0xE0 OR int k)) = 224 + k) [0..<16]" by code_simp
  then show "k < 16 \<Longrightarrow> ?thesis" by (simp add: list_all_iff)
qed

lemma lead_byte_4: "k < 8 \<Longrightarrow> unat (to_char (0xF0 OR int k)) = 240 + k"
proof -
  have "list_all (\<lambda>k. unat (to_char (0xF0 OR int k)) = 240 + k) [0..<8]" by code_simp
  then show "k < 8 \<Longrightarrow> ?thesis" by (simp add: list_all_iff)
qed

text \<open>The bytes of the encoding of a code point as numbers.\<close>

fun encoding :: "nat \<Rightarrow> nat list" where
  "encoding n =
     (if n < 0x80 then [n]
      else if n < 0x800 then [192 + n div 64, 128 + n mod 64]
      else if n < 0x10000 then [224 + n div 4096, 128 + n div 64 mod 64, 128 + n mod 64]
      else [240 + n div 262144, 128 + n div 4096 mod 64, 128 + n div 64 mod 64, 128 + n mod 64])"

declare encoding.simps [simp del]

lemma drop_bit_int_nat: "drop_bit k (int n) = int (n div 2 ^ k)"
  by (simp add: drop_bit_eq_div zdiv_int)

lemma Encode_bytes: "n \<le> 0x10FFFF \<Longrightarrow> map unat (Encode (int n)) = encoding n"
proof -
  assume n: "n \<le> 0x10FFFF"
  have trail: "unat (to_char (0x80 OR (int k AND kMask))) = 128 + k mod 64" for k
    unfolding to_char_trail by (simp add: nat_mod_distrib)
  consider "n < 0x80" | "0x80 \<le> n" "n < 0x800" | "0x800 \<le> n" "n < 0x10000" | "0x10000 \<le> n" by linarith
  then show ?thesis
  proof cases
    case 1
    then show ?thesis by (simp add: Encode_def encoding.simps kMaxOneByteChar_def unsigned_of_nat take_bit_eq_mod)
  next
    case 2
    then have "n div 64 < 32" by simp
    from lead_byte_2 [OF this] show ?thesis using 2 trail
      by (simp add: Encode_def encoding.simps kMaxOneByteChar_def kMaxTwoByteChar_def drop_bit_int_nat)
  next
    case 3
    then have "n div 4096 < 16" by simp
    from lead_byte_3 [OF this] show ?thesis using 3 trail
      by (simp add: Encode_def encoding.simps kMaxOneByteChar_def kMaxTwoByteChar_def kMaxThreeByteChar_def drop_bit_int_nat)
  next
    case 4
    then have "n div 262144 < 8" using n by simp
    from lead_byte_4 [OF this] show ?thesis using 4 trail
      by (simp add: Encode_def encoding.simps kMaxOneByteChar_def kMaxTwoByteChar_def kMaxThreeByteChar_def drop_bit_int_nat)
  qed
qed

subsection \<open>Decoding as arithmetic\<close>

lemma kTrailBytes_nth:
  assumes "b < 256"
  shows "kTrailBytes ! b =
     (if b < 128 then 1 else if b < 192 then 0 else if b < 224 then 2 else if b < 240 then 3
      else if b < 248 then 4 else if b < 252 then 5 else if b < 254 then 6 else 0)"
proof (cases "b < 240")
  case True
  then show ?thesis by (auto simp: kTrailBytes_def nth_append)
next
  case False
  then obtain k where k: "b = 240 + k" using le_Suc_ex [of 240 b] by auto
  then have k16: "k < 16" using assms by simp
  have "list_all (\<lambda>k. [4, 4, 4, 4, 4, 4, 4, 4, 5, 5, 5, 5, 6, 6, 0, 0 :: nat] ! k =
      (if k < 8 then 4 else if k < 12 then 5 else if k < 14 then 6 else 0)) [0..<16]" by code_simp
  then have "[4, 4, 4, 4, 4, 4, 4, 4, 5, 5, 5, 5, 6, 6, 0, 0 :: nat] ! k =
      (if k < 8 then 4 else if k < 12 then 5 else if k < 14 then 6 else 0)" using k16 by (simp add: list_all_iff)
  then show ?thesis unfolding k by (simp add: kTrailBytes_def nth_append)
qed

definition number :: "cstring \<Rightarrow> nat list \<Rightarrow> nat \<Rightarrow> nat" where
  "number src js v = fold (\<lambda>i v. v * 64 + unat (byte_at src i)) js v"

lemma decode_loop_number:
  assumes "\<And>i. i \<in> set js \<Longrightarrow> byte_at src i \<noteq> 0" "(unat ch + 5) * 64 ^ length js \<le> 2 ^ 32"
  shows "\<exists>w. decode_loop src js m ch = Some (m \<or> (\<exists>i \<in> set js. \<not> IsTrailByte (byte_at src i)), w) \<and> unat w = number src js (unat ch)"
  using assms
proof (induction js arbitrary: m ch)
  case (Cons i js)
  let ?b = "byte_at src i"
  have b: "unat ?b < 256" using unat_less [of ?b] by simp
  have le: "(unat ch + 5) * 64 \<le> 2 ^ 32"
  proof -
    have "(unat ch + 5) * 64 * 1 \<le> (unat ch + 5) * 64 * 64 ^ length js" by (intro mult_le_mono2) simp
    also have "\<dots> = (unat ch + 5) * 64 ^ length (i # js)" by simp
    also note Cons.prems(2)
    finally show ?thesis by (simp only: mult_1_right)
  qed
  have v: "unat (push_bit 6 ch + ucast ?b) = unat ch * 64 + unat ?b"
  proof -
    have 1: "unat (push_bit 6 ch) = unat ch * 64" using le by (simp add: unat_push_bit)
    have 2: "unat (ucast ?b :: uint32) = unat ?b" using b by (simp add: unat_ucast_no_wrap)
    show ?thesis using le b by (subst unat_add_no_wrap) (simp_all add: 1 2)
  qed
  have "(unat (push_bit 6 ch + ucast ?b) + 5) * 64 ^ length js \<le> (unat ch + 5) * 64 * 64 ^ length js"
    unfolding v using b by (intro mult_le_mono1) simp
  also have "\<dots> = (unat ch + 5) * 64 ^ length (i # js)" by simp
  also note Cons.prems(2)
  finally have "(unat (push_bit 6 ch + ucast ?b) + 5) * 64 ^ length js \<le> 2 ^ 32" .
  from Cons.IH [OF _ this, of "m \<or> \<not> IsTrailByte ?b"] Cons.prems(1) obtain w where
    "decode_loop src js (m \<or> \<not> IsTrailByte ?b) (push_bit 6 ch + ucast ?b) =
       Some ((m \<or> \<not> IsTrailByte ?b) \<or> (\<exists>i \<in> set js. \<not> IsTrailByte (byte_at src i)), w)"
    "unat w = number src js (unat (push_bit 6 ch + ucast ?b))"
    by auto
  then show ?case using Cons.prems(1) unfolding v by (auto simp: number_def)
qed (simp add: number_def)

lemma decode_loop_zero: "i \<in> set js \<Longrightarrow> byte_at src i = 0 \<Longrightarrow> decode_loop src js m ch = None"
  by (induction js arbitrary: m ch) auto

lemma IsSurrogate_iff: "IsSurrogate w \<longleftrightarrow> 0xD800 \<le> unat w \<and> unat w < 0xE000"
proof -
  have eq: "(0xfffff800 :: uint32) = NOT (mask 11)" by (simp add: mask_eq_exp_minus_1)
  have "IsSurrogate w \<longleftrightarrow> unat (push_bit 11 (drop_bit 11 w)) = unat (0xd800 :: uint32)"
    unfolding IsSurrogate_def eq and_high_bits by (simp only: word_unat_eq_iff)
  also have "unat (push_bit 11 (drop_bit 11 w)) = unat w div 2048 * 2048"
    using unat_less [of w] by (simp add: unat_push_bit unat_drop_bit)
  finally show ?thesis by auto
qed

definition scalar :: "nat \<Rightarrow> bool" where
  "scalar n \<longleftrightarrow> n \<le> 0x10FFFF \<and> \<not> (0xD800 \<le> n \<and> n < 0xE000)"

text \<open>The offset that the lead and trail bytes of a sequence of \<open>n\<close> bytes add to its number.\<close>

fun magic :: "nat \<Rightarrow> nat" where
  "magic n = (if n = 2 then 0x3080 else if n = 3 then 0xE2080 else 0x3C82080)"

fun least :: "nat \<Rightarrow> nat" where
  "least n = (if n = 2 then 0x80 else if n = 3 then 0x800 else 0x10000)"

lemma sint_small:
  fixes w :: uint32
  assumes "unat w < 2 ^ 31"
  shows "sint w = int (unat w)"
proof -
  have "int (unat w) < int (2 ^ 31)" using assms by (simp only: of_nat_less_iff)
  then have "uint w < 2 ^ (LENGTH(32) - 1)" by simp
  then show ?thesis using sint_uint_cases [of w] by simp
qed

lemma Decode_ascii: "unat (byte_at src 0) < 128 \<Longrightarrow> Decode src = (int (unat (byte_at src 0)), 1)"
proof -
  assume b: "unat (byte_at src 0) < 128"
  let ?ch = "ucast (byte_at src 0) :: uint32"
  have u: "unat ?ch = unat (byte_at src 0)" using b by (simp add: unat_ucast_no_wrap)
  then have "\<not> ?ch \<ge> 0x80" using b by (simp add: word_le_nat_alt)
  moreover have "sint ?ch = int (unat (byte_at src 0))" using u b sint_small [of ?ch] by simp
  ultimately show ?thesis by (simp add: Decode_def)
qed

lemma decode_loop_some: "(\<And>i. i \<in> set js \<Longrightarrow> byte_at src i \<noteq> 0) \<Longrightarrow> \<exists>r. decode_loop src js m ch = Some r"
  by (induction js arbitrary: m ch) auto

lemma rejected: "IsOutOfRange w \<or> IsNonShortestForm w 5 \<and> IsNonShortestForm w 6"
  by (auto simp: IsOutOfRange_def IsNonShortestForm_def kOverlongMinimum_def word_less_nat_alt)

lemma upts: "[1..<2] = [1 :: nat]" "[1..<3] = [1, 2 :: nat]" "[1..<4] = [1, 2, 3 :: nat]"
  by code_simp+

lemma magic_word: "2 \<le> n \<Longrightarrow> n \<le> 4 \<Longrightarrow> unat (kMagicBits ! n) = magic n \<and> unat (kOverlongMinimum ! n) = least n"
proof -
  assume "2 \<le> n" "n \<le> 4"
  then consider "n = 2" | "n = 3" | "n = 4" by linarith
  then show ?thesis by cases (simp_all add: kMagicBits_def kOverlongMinimum_def)
qed

text \<open>Well-formed trail bytes leave the number large enough for the subtraction.\<close>

lemma number_ge_magic:
  assumes "2 \<le> n" "n \<le> 4" "n = kTrailBytes ! b" "b < 256" "\<forall>i \<in> {1..<n}. IsTrailByte (byte_at src i)"
  shows "magic n \<le> number src [1..<n] b" "number src [1..<n] b < 2 ^ 31"
proof -
  have t: "128 \<le> unat (byte_at src i) \<and> unat (byte_at src i) < 192" if "i \<in> {1..<n}" for i
    using assms(5) that by (simp add: IsTrailByte_iff)
  consider "n = 2" "192 \<le> b" | "n = 3" "224 \<le> b" | "n = 4" "240 \<le> b"
    using assms(1-4) kTrailBytes_nth [OF assms(4)] by (fastforce split: if_splits)
  then have "magic n \<le> number src [1..<n] b \<and> number src [1..<n] b < 2 ^ 31"
  proof cases
    case 1
    then show ?thesis using t [of 1] assms(4) by (simp add: number_def upts [simplified])
  next
    case 2
    then show ?thesis using t [of 1] t [of 2] assms(4) by (simp add: number_def upts [simplified])
  next
    case 3
    then show ?thesis using t [of 1] t [of 2] t [of 3] assms(4) by (simp add: number_def upts [simplified])
  qed
  then show "magic n \<le> number src [1..<n] b" "number src [1..<n] b < 2 ^ 31" by simp_all
qed

lemma Decode_loop_result:
  fixes src :: cstring
  defines "ch \<equiv> ucast (byte_at src 0) :: uint32"
  assumes "ch \<ge> 0x80" "n = kTrailBytes ! unat ch" "decode_loop src [1..<n] False ch = Some (m, w)"
  shows "Decode src =
    (if \<not> m \<and> 1 \<le> n \<and> \<not> IsOutOfRange (w - kMagicBits ! n) \<and> \<not> IsNonShortestForm (w - kMagicBits ! n) n \<and>
        \<not> IsSurrogate (w - kMagicBits ! n)
     then (sint (w - kMagicBits ! n), n) else (- 1, 0))"
proof (cases n)
  case 0
  then show ?thesis using assms(2-4) by (simp add: Decode_def Let_def flip: ch_def)
next
  case (Suc k)
  then have "max 1 n = n" by simp
  then show ?thesis using assms(2-4) Suc by (simp add: Decode_def Let_def flip: ch_def)
qed

lemma Decode_multi:
  fixes src :: cstring
  defines "b \<equiv> unat (byte_at src 0)"
  assumes b: "128 \<le> b" and n: "n = kTrailBytes ! b"
  shows "Decode src =
    (if 2 \<le> n \<and> n \<le> 4 \<and> (\<forall>i \<in> {1..<n}. IsTrailByte (byte_at src i)) \<and> scalar (number src [1..<n] b - magic n) \<and>
        least n \<le> number src [1..<n] b - magic n
     then (int (number src [1..<n] b - magic n), n) else (- 1, 0))"
proof -
  let ?ch = "ucast (byte_at src 0) :: uint32"
  have b256: "b < 256" using unat_less [of "byte_at src 0"] by (simp add: b_def)
  have u: "unat ?ch = b" unfolding b_def using b256 by (simp add: unat_ucast_no_wrap b_def)
  have ge: "?ch \<ge> 0x80" using b u by (simp add: word_le_nat_alt)
  show ?thesis
  proof (cases "\<forall>i \<in> {1..<n}. byte_at src i \<noteq> 0")
    case False
    then obtain i where i: "i \<in> set [1..<n]" "byte_at src i = 0" by auto
    then have "\<not> IsTrailByte (byte_at src i)" by (simp add: IsTrailByte_iff)
    then have "\<not> (\<forall>i \<in> {1..<n}. IsTrailByte (byte_at src i))" using i(1) by auto
    then show ?thesis using decode_loop_zero [OF i, of False ?ch] ge u n by (simp add: Decode_def Let_def)
  next
    case nonzero: True
    show ?thesis
    proof (cases "2 \<le> n \<and> n \<le> 4")
      case False
      then have n': "n = 0 \<or> n = 5 \<or> n = 6" using kTrailBytes_nth [OF b256] n b by (simp split: if_splits)
      obtain m w where "decode_loop src [1..<n] False ?ch = Some (m, w)"
        using decode_loop_some [of "[1..<n]" src False ?ch] nonzero by auto
      from Decode_loop_result [OF ge _ this] have
        "Decode src = (if \<not> m \<and> 1 \<le> n \<and> \<not> IsOutOfRange (w - kMagicBits ! n) \<and> \<not> IsNonShortestForm (w - kMagicBits ! n) n \<and>
          \<not> IsSurrogate (w - kMagicBits ! n) then (sint (w - kMagicBits ! n), n) else (- 1, 0))"
        using u n by simp
      also have "\<dots> = (- 1, 0)"
        by (rule if_not_P) (use n' rejected [of "w - kMagicBits ! n"] in auto)
      finally show ?thesis using False by auto
    next
      case True
      have "length [1..<n] \<le> 3" using True by (simp add: le_diff_conv)
      then have "(unat ?ch + 5) * 64 ^ length [1..<n] \<le> (255 + 5) * 64 ^ 3"
        unfolding u using b256 by (intro mult_le_mono power_increasing) simp_all
      then obtain w where w: "decode_loop src [1..<n] False ?ch = Some (\<exists>i \<in> set [1..<n]. \<not> IsTrailByte (byte_at src i), w)"
          "unat w = number src [1..<n] b"
        using decode_loop_number [of "[1..<n]" src ?ch False] nonzero u by auto
      let ?ok = "\<forall>i \<in> {1..<n}. IsTrailByte (byte_at src i)" and ?w = "w - kMagicBits ! n"
      have val: "unat ?w = number src [1..<n] b - magic n" "sint ?w = int (number src [1..<n] b - magic n)" if ok: ?ok
      proof -
        note m = number_ge_magic [OF _ _ n b256 ok] magic_word [of n]
        show v: "unat ?w = number src [1..<n] b - magic n"
          using m True w(2) by (simp add: unat_sub word_le_nat_alt del: magic.simps)
        show "sint ?w = int (number src [1..<n] b - magic n)" using m True v by (subst sint_small) (simp_all del: magic.simps)
      qed
      have "Decode src = (if ?ok \<and> \<not> IsOutOfRange ?w \<and> \<not> IsNonShortestForm ?w n \<and> \<not> IsSurrogate ?w then (sint ?w, n) else (- 1, 0))"
        using Decode_loop_result [OF ge _ w(1)] u n True by simp
      moreover have "\<not> IsOutOfRange ?w \<and> \<not> IsNonShortestForm ?w n \<and> \<not> IsSurrogate ?w \<longleftrightarrow>
          scalar (number src [1..<n] b - magic n) \<and> least n \<le> number src [1..<n] b - magic n" if ?ok
        using val(1) [OF that] magic_word [of n] True
        by (auto simp: IsOutOfRange_def IsNonShortestForm_def IsSurrogate_iff scalar_def word_less_nat_alt simp del: magic.simps least.simps)
      ultimately show ?thesis using True val(2) by (cases ?ok) (simp_all del: magic.simps least.simps)
    qed
  qed
qed

subsection \<open>Round trips of a code point\<close>

lemma base64: "y < 64 \<Longrightarrow> (x * 64 + y) div 64 = x" "y < 64 \<Longrightarrow> (x * 64 + y) mod 64 = y" for x y :: nat
  by simp_all

lemma div_64: "n div 4096 = n div 64 div 64" "n div 262144 = n div 64 div 64 div 64" for n :: nat
  by (simp_all add: div_mult2_eq [symmetric])

lemma byte_at_append: "i < length bs \<Longrightarrow> byte_at (bs @ rest) i = bs ! i"
  by (simp add: byte_at_def nth_append)

lemma encoding_length: "n \<le> 0x10FFFF \<Longrightarrow> length (Encode (int n)) = length (encoding n)"
  using arg_cong [OF Encode_bytes, of n length] by simp

lemma Encode_nth: "n \<le> 0x10FFFF \<Longrightarrow> i < length (encoding n) \<Longrightarrow> unat (byte_at (Encode (int n) @ rest) i) = encoding n ! i"
  using Encode_bytes [of n] encoding_length [of n] byte_at_append [of i "Encode (int n)" rest] by (metis nth_map)

lemma Decode_wf:
  assumes "kTrailBytes ! unat (byte_at src 0) = k" "128 \<le> unat (byte_at src 0)" "2 \<le> k" "k \<le> 4"
    and "\<And>i. i \<in> {1..<k} \<Longrightarrow> IsTrailByte (byte_at src i)"
    and "number src [1..<k] (unat (byte_at src 0)) - magic k = n" "scalar n" "least k \<le> n"
  shows "Decode src = (int n, k)"
proof -
  have "\<forall>i \<in> {1..<k}. IsTrailByte (byte_at src i)" using assms(5) by blast
  then show ?thesis unfolding Decode_multi [OF assms(2) assms(1) [symmetric]] assms(6)
    using assms(3,4,7,8) by (simp del: magic.simps least.simps)
qed

lemma Decode_Encode:
  assumes n: "scalar n"
  shows "Decode (Encode (int n) @ rest) = (int n, length (Encode (int n)))"
proof -
  let ?src = "Encode (int n) @ rest"
  have le: "n \<le> 0x10FFFF" using n by (simp add: scalar_def)
  note nth = Encode_nth [OF le, of _ rest] and len = encoding_length [OF le]
  consider "n < 0x80" | "0x80 \<le> n" "n < 0x800" | "0x800 \<le> n" "n < 0x10000" | "0x10000 \<le> n" by linarith
  then show ?thesis
  proof cases
    case 1
    then show ?thesis using Decode_ascii [of ?src] nth [of 0] len by (simp add: encoding.simps)
  next
    case 2
    have b: "unat (byte_at ?src 0) = 192 + n div 64" "unat (byte_at ?src 1) = 128 + n mod 64"
      using nth [of 0] nth [of 1] 2 by (simp_all add: encoding.simps)
    have "192 + n div 64 < 224" using 2 by simp
    then have t: "kTrailBytes ! (192 + n div 64) = 2" using kTrailBytes_nth [of "192 + n div 64"] by simp
    have v: "number ?src [1..<2] (192 + n div 64) - magic 2 = n" using b by (simp add: number_def upts [simplified])
    have "Decode ?src = (int n, 2)"
    proof (rule Decode_wf [OF t [folded b(1)] _ _ _ _ v [folded b(1)] n])
      fix i :: nat assume "i \<in> {1..<2}"
      then have "i = 1" by simp
      then show "IsTrailByte (byte_at ?src i)" using b by (simp add: IsTrailByte_iff)
    qed (use b(1) 2 in simp_all)
    then show ?thesis using len 2 by (simp add: encoding.simps)
  next
    case 3
    have b: "unat (byte_at ?src 0) = 224 + n div 64 div 64" "unat (byte_at ?src 1) = 128 + n div 64 mod 64"
        "unat (byte_at ?src 2) = 128 + n mod 64"
      using nth [of 0] nth [of 1] nth [of 2] 3 by (simp_all add: encoding.simps div_64)
    have "224 + n div 64 div 64 < 240" using 3 by simp
    then have t: "kTrailBytes ! (224 + n div 64 div 64) = 3" using kTrailBytes_nth [of "224 + n div 64 div 64"] by simp
    have v: "number ?src [1..<3] (224 + n div 64 div 64) - magic 3 = n" using b by (simp add: number_def upts [simplified])
    have "Decode ?src = (int n, 3)"
    proof (rule Decode_wf [OF t [folded b(1)] _ _ _ _ v [folded b(1)] n])
      fix i :: nat assume "i \<in> {1..<3}"
      then have "i = 1 \<or> i = 2" by auto
      then show "IsTrailByte (byte_at ?src i)" using b by (auto simp: IsTrailByte_iff)
    qed (use b(1) 3 in simp_all)
    then show ?thesis using len 3 by (simp add: encoding.simps)
  next
    case 4
    have b: "unat (byte_at ?src 0) = 240 + n div 64 div 64 div 64" "unat (byte_at ?src 1) = 128 + n div 64 div 64 mod 64"
        "unat (byte_at ?src 2) = 128 + n div 64 mod 64" "unat (byte_at ?src 3) = 128 + n mod 64"
      using nth [of 0] nth [of 1] nth [of 2] nth [of 3] 4 by (simp_all add: encoding.simps div_64)
    have "240 + n div 64 div 64 div 64 < 248" using le by simp
    then have t: "kTrailBytes ! (240 + n div 64 div 64 div 64) = 4" using kTrailBytes_nth [of "240 + n div 64 div 64 div 64"] by simp
    have v: "number ?src [1..<4] (240 + n div 64 div 64 div 64) - magic 4 = n" using b by (simp add: number_def upts [simplified])
    have "Decode ?src = (int n, 4)"
    proof (rule Decode_wf [OF t [folded b(1)] _ _ _ _ v [folded b(1)] n])
      fix i :: nat assume "i \<in> {1..<4}"
      then have "i = 1 \<or> i = 2 \<or> i = 3" by auto
      then show "IsTrailByte (byte_at ?src i)" using b by (auto simp: IsTrailByte_iff)
    qed (use b(1) 4 in simp_all)
    then show ?thesis using len 4 by (simp add: encoding.simps)
  qed
qed

text \<open>Numbers of sequences of lead and trail bytes.\<close>

lemma encoding_2: "y < 64 \<Longrightarrow> 2 \<le> x \<Longrightarrow> x < 32 \<Longrightarrow> encoding (x * 64 + y) = [192 + x, 128 + y]"
  by (simp add: encoding.simps)

lemma encoding_3:
  assumes "z < 64" "y < 64" "x < 16" "0x800 \<le> (x * 64 + y) * 64 + z"
  shows "encoding ((x * 64 + y) * 64 + z) = [224 + x, 128 + y, 128 + z]"
proof -
  have "(x * 64 + y) * 64 + z < 0x10000" using assms by simp
  then show ?thesis using assms unfolding encoding.simps div_64 base64 [OF assms(1)] by simp
qed

lemma encoding_4:
  assumes "w < 64" "z < 64" "y < 64" "0x10000 \<le> ((x * 64 + y) * 64 + z) * 64 + w"
  shows "encoding (((x * 64 + y) * 64 + z) * 64 + w) = [240 + x, 128 + y, 128 + z, 128 + w]"
  using assms unfolding encoding.simps div_64 base64 [OF assms(1)] base64 [OF assms(2)] by simp

lemma trail_digit: "IsTrailByte b \<Longrightarrow> \<exists>y < 64. unat b = 128 + y"
  unfolding IsTrailByte_iff by (intro exI [of _ "unat b - 128"] conjI) linarith+

lemma take_bytes:
  assumes "\<And>i. i < k \<Longrightarrow> byte_at src i \<noteq> 0"
  shows "k \<le> length src \<and> map unat (take k src) = map (\<lambda>i. unat (byte_at src i)) [0..<k]"
proof -
  have "k \<le> length src"
  proof (rule ccontr)
    assume "\<not> k \<le> length src"
    then show False using assms [of "length src"] by (simp add: byte_at_def)
  qed
  then show ?thesis by (auto intro!: nth_equalityI simp: byte_at_def)
qed

lemma Decode_accepts_number:
  assumes "Decode src = (c, k)" "c \<noteq> - 1" "byte_at src 0 \<noteq> 0"
  shows "\<exists>n. c = int n \<and> scalar n \<and> 0 < n \<and> map (\<lambda>i. unat (byte_at src i)) [0..<k] = encoding n \<and> (\<forall>i < k. byte_at src i \<noteq> 0)"
proof (cases "unat (byte_at src 0) < 128")
  case True
  then show ?thesis using assms Decode_ascii [OF True]
    by (intro exI [of _ "unat (byte_at src 0)"]) (auto simp: scalar_def encoding.simps word_unat_eq_iff)
next
  case False
  let ?b = "unat (byte_at src 0)"
  have b256: "?b < 256" using unat_less [of "byte_at src 0"] by simp
  define n where "n = number src [1..<k] ?b - magic k"
  have k: "k = kTrailBytes ! ?b" "2 \<le> k" "k \<le> 4" "\<forall>i \<in> {1..<k}. IsTrailByte (byte_at src i)" "scalar n" "least k \<le> n" "c = int n"
    using Decode_multi [of src "kTrailBytes ! ?b"] assms(1,2) False by (simp_all add: n_def split: if_splits)
  have "\<exists>y < 64. unat (byte_at src i) = 128 + y" if "i \<in> {1..<k}" for i using k(4) that trail_digit by blast
  then obtain y where y: "\<And>i. i \<in> {1..<k} \<Longrightarrow> y i < 64 \<and> unat (byte_at src i) = 128 + y i" by metis
  have nz: "byte_at src i \<noteq> 0" if "i < k" for i
    using y [of i] assms(3) that by (cases "i = 0") (auto simp: word_unat_eq_iff)
  consider "k = 2" "192 \<le> ?b" "?b < 224" | "k = 3" "224 \<le> ?b" "?b < 240" | "k = 4" "240 \<le> ?b" "?b < 248"
    using k(1-3) kTrailBytes_nth [OF b256] by (fastforce split: if_splits)
  then have "map (\<lambda>i. unat (byte_at src i)) [0..<k] = encoding n"
  proof cases
    case 1
    then obtain x where x: "?b = 192 + x" by (metis le_Suc_ex)
    have n: "n = x * 64 + y 1" using 1 y [of 1] x by (simp add: n_def number_def upts [simplified])
    have "2 \<le> x" using k(6) n 1 y [of 1] by simp
    then show ?thesis unfolding n using 1 x y [of 1] by (subst encoding_2) (auto simp: upt_rec)
  next
    case 2
    then obtain x where x: "?b = 224 + x" by (metis le_Suc_ex)
    have n: "n = (x * 64 + y 1) * 64 + y 2" using 2 y [of 1] y [of 2] x by (simp add: n_def number_def upts [simplified])
    show ?thesis using 2 x y [of 1] y [of 2] k(6) unfolding n by (subst encoding_3) (auto simp: upt_rec numeral_2_eq_2)
  next
    case 3
    then obtain x where x: "?b = 240 + x" by (metis le_Suc_ex)
    have n: "n = ((x * 64 + y 1) * 64 + y 2) * 64 + y 3"
      using 3 y [of 1] y [of 2] y [of 3] x by (simp add: n_def number_def upts [simplified])
    show ?thesis using 3 x y [of 1] y [of 2] y [of 3] k(6) unfolding n
      by (subst encoding_4) (auto simp: upt_rec numeral_2_eq_2 numeral_3_eq_3)
  qed
  moreover have "0 < n" using k(2,3,6) by (auto split: if_splits)
  ultimately show ?thesis using k(5,7) nz by auto
qed

lemma Decode_accepts:
  assumes "Decode src = (c, k)" "c \<noteq> - 1" "byte_at src 0 \<noteq> 0"
  shows "\<exists>n. c = int n \<and> scalar n \<and> 0 < n \<and> take k src = Encode c \<and> k \<le> length src \<and> 0 < k"
proof -
  obtain n where n: "c = int n" "scalar n" "0 < n" "map (\<lambda>i. unat (byte_at src i)) [0..<k] = encoding n" "\<forall>i < k. byte_at src i \<noteq> 0"
    using Decode_accepts_number [OF assms] by blast
  have le: "n \<le> 0x10FFFF" using n(2) by (simp add: scalar_def)
  have "map unat (take k src) = map unat (Encode c)"
    using take_bytes [of k src] n Encode_bytes [OF le] by simp
  moreover have "inj (unat :: uint8 \<Rightarrow> nat)" by (rule injI) (simp add: word_unat_eq_iff)
  ultimately have "take k src = Encode c" using inj_map_eq_map by blast
  moreover have "0 < k" using n(4) by (cases k) (simp_all add: encoding.simps split: if_splits)
  ultimately show ?thesis using n(1-3,5) take_bytes [of k src] by blast
qed

subsection \<open>Strings\<close>

text \<open>A character of a string that can be encoded: a code point that is neither null nor a
  surrogate.\<close>

definition is_char :: "int \<Rightarrow> bool" where
  "is_char c \<longleftrightarrow> 0 < c \<and> scalar (nat c)"

lemma is_charE:
  assumes "is_char c"
  obtains n where "c = int n" "scalar n" "0 < n" "n \<le> 0x10FFFF"
  using assms that [of "nat c"] by (auto simp: is_char_def scalar_def)

lemma Length_encoding: "n \<le> 0x10FFFF \<Longrightarrow> Length (int n) = length (encoding n)"
  by (simp add: Length_def encoding.simps kMaxOneByteChar_def kMaxTwoByteChar_def kMaxThreeByteChar_def)

lemma Length_Encode: "is_char c \<Longrightarrow> Length c = length (Encode c) \<and> 0 < Length c"
proof (elim is_charE)
  fix n assume "c = int n" "n \<le> 0x10FFFF"
  then have "Length c = length (Encode c)" using Length_encoding [of n] encoding_length [of n] by simp
  moreover have "0 < Length c" by (simp add: Length_def)
  ultimately show ?thesis by simp
qed

lemma Length_concat: "list_all is_char cs \<Longrightarrow> Length_string cs = length (concat (map Encode cs))"
  by (induction cs) (simp_all add: Length_Encode)

text \<open>The string encoder writes the encodings of the longest prefix that fits.\<close>

lemma Encode_string_prefix:
  assumes "list_all is_char cs"
  shows "\<exists>k. Encode_string cs pos len = concat (map Encode (take k cs)) \<and> k \<le> length cs \<and>
    (k < length cs \<longrightarrow> len < pos + Length_string (take (Suc k) cs)) \<and> (pos \<le> len \<longrightarrow> pos + Length_string (take k cs) \<le> len)"
  using assms
proof (induction cs arbitrary: pos)
  case (Cons c cs)
  show ?case
  proof (cases "pos + Length c > len")
    case True
    then show ?thesis by (intro exI [of _ 0]) simp
  next
    case False
    obtain k where k: "Encode_string cs (pos + Length c) len = concat (map Encode (take k cs))" "k \<le> length cs"
        "k < length cs \<longrightarrow> len < pos + Length c + Length_string (take (Suc k) cs)" "pos + Length c + Length_string (take k cs) \<le> len"
      using Cons.IH [of "pos + Length c"] Cons.prems False by auto
    then show ?thesis using False by (intro exI [of _ "Suc k"]) (auto simp: Let_def add.assoc)
  qed
qed simp

lemma Encode_string_all: "pos + Length_string cs \<le> len \<Longrightarrow> Encode_string cs pos len = concat (map Encode cs)"
  by (induction cs arbitrary: pos) (simp_all add: Let_def)

lemma Encode_first: "is_char c \<Longrightarrow> \<exists>b bs. Encode c = b # bs \<and> b \<noteq> 0"
proof (elim is_charE)
  fix n assume n: "c = int n" "0 < n" "n \<le> 0x10FFFF"
  have "map unat (Encode c) \<noteq> [] \<and> hd (map unat (Encode c)) \<noteq> 0" unfolding n(1) Encode_bytes [OF n(3)] using n(2) by (simp add: encoding.simps)
  then show ?thesis by (cases "Encode c") auto
qed

lemma DecodeImpl_concat:
  assumes "list_all is_char cs" "length cs \<le> len"
  shows "DecodeImpl T (concat (map Encode cs)) len = (True, map T cs)"
  using assms
proof (induction cs arbitrary: len)
  case Nil
  then show ?case by (simp add: DecodeImpl.simps)
next
  case (Cons c cs)
  have c: "is_char c" using Cons.prems by simp
  obtain n where n: "c = int n" "scalar n" using c by (elim is_charE)
  have "concat (map Encode (c # cs)) \<noteq> []" using Encode_first [OF c] by auto
  moreover have "Decode (concat (map Encode (c # cs))) = (c, length (Encode c))" using Decode_Encode [OF n(2)] n(1) by simp
  ultimately show ?case using Cons.IH [of "len - 1"] Cons.prems n(1) by (subst DecodeImpl.simps) auto
qed

text \<open>Only the encodings of strings are accepted.\<close>

lemma DecodeImpl_accepts:
  assumes "DecodeImpl T src len = (True, d)" "0 \<notin> set src"
  shows "\<exists>cs. list_all is_char cs \<and> src = concat (map Encode cs) \<and> d = map T cs"
  using assms
proof (induction T src len arbitrary: d rule: DecodeImpl.induct)
  case (1 T src len)
  show ?case
  proof (cases "src \<noteq> [] \<and> 0 < len")
    case False
    then show ?thesis using "1.prems"(1) by (subst (asm) DecodeImpl.simps) (auto intro: exI [of _ "[]"])
  next
    case True
    obtain c k where ck: "Decode src = (c, k)" by (cases "Decode src")
    obtain d' where d': "c \<noteq> - 1" "DecodeImpl T (drop k src) (len - 1) = (True, d')" "d = T c # d'"
      using "1.prems"(1) True ck by (subst (asm) DecodeImpl.simps) (auto split: if_splits prod.splits)
    have "byte_at src 0 \<noteq> 0" using True "1.prems"(2) by (cases src) (auto simp: byte_at_def)
    then obtain n where n: "c = int n" "scalar n" "0 < n" "take k src = Encode c" using Decode_accepts [OF ck d'(1)] by blast
    have "0 \<notin> set (drop k src)" using "1.prems"(2) in_set_dropD by fast
    from "1.IH" [OF True ck [symmetric] d'(1) d'(2) this] obtain cs where
      cs: "list_all is_char cs" "drop k src = concat (map Encode cs)" "d' = map T cs" by blast
    have "src = concat (map Encode (c # cs))" using append_take_drop_id [of k src] n(4) cs(2) by simp
    moreover have "is_char c" using n(1-3) by (simp add: is_char_def)
    ultimately show ?thesis using cs(1,3) d'(3) by (intro exI [of _ "c # cs"]) simp
  qed
qed

text \<open>Counting code points and finding the width they need.\<close>

lemma count_byte:
  "count_loop (b # bs) l t f =
   count_loop bs (if 128 \<le> unat b \<and> unat b < 192 then l else l + 1) (t \<or> 195 < unat b \<and> unat b < 240) (f \<or> 240 \<le> unat b)"
  by (auto simp: IsTrailByte_iff word_less_nat_alt not_less intro!: arg_cong2 [of _ _ _ _ "count_loop bs _"] arg_cong3 [of _ _ _ _ _ _ "count_loop bs"])

lemma count_trail: "unat b = 128 + y mod 64 \<Longrightarrow> count_loop (b # bs) l t f = count_loop bs l t f"
proof -
  assume b: "unat b = 128 + y mod 64"
  have y: "y mod 64 < 64" by simp
  have "128 \<le> unat b" "unat b < 192" using b y by linarith+
  then show ?thesis by (simp add: count_byte del: count_loop.simps)
qed

lemma count_Encode:
  assumes "is_char c"
  shows "count_loop (Encode c @ rest) l t f = count_loop rest (l + 1) (t \<or> 0xFF < c \<and> c \<le> 0xFFFF) (f \<or> 0xFFFF < c)"
proof -
  obtain n where n: "c = int n" "scalar n" "n \<le> 0x10FFFF" using assms by (elim is_charE)
  note bytes = Encode_bytes [OF n(3), folded n(1)]
  consider "n < 0x80" | "0x80 \<le> n" "n < 0x800" | "0x800 \<le> n" "n < 0x10000" | "0x10000 \<le> n" by linarith
  then show ?thesis
  proof cases
    case 1
    then obtain b where "Encode c = [b]" "unat b = n" using bytes by (auto simp: encoding.simps map_eq_Cons_conv)
    then show ?thesis using 1 n(1) by (simp add: count_trail count_byte [of b] del: count_loop.simps)
  next
    case 2
    then obtain b b1 where "Encode c = [b, b1]" "unat b = 192 + n div 64" "unat b1 = 128 + n mod 64"
      using bytes by (auto simp: encoding.simps map_eq_Cons_conv)
    moreover have "195 < 192 + n div 64 \<longleftrightarrow> 0xFF < c" "192 + n div 64 < 240" using 2 n(1) by auto
    ultimately show ?thesis using 2 n(1) by (simp add: count_trail count_byte [of b] del: count_loop.simps)
  next
    case 3
    then obtain b b1 b2 where "Encode c = [b, b1, b2]" "unat b = 224 + n div 4096" "unat b1 = 128 + n div 64 mod 64" "unat b2 = 128 + n mod 64"
      using bytes by (auto simp: encoding.simps map_eq_Cons_conv)
    moreover have "224 + n div 4096 < 240" using 3 by simp
    ultimately show ?thesis using 3 n(1) by (simp add: count_trail count_byte [of b] del: count_loop.simps)
  next
    case 4
    then obtain b b1 b2 b3 where "Encode c = [b, b1, b2, b3]" "unat b = 240 + n div 262144" "unat b1 = 128 + n div 4096 mod 64"
        "unat b2 = 128 + n div 64 mod 64" "unat b3 = 128 + n mod 64"
      using bytes by (auto simp: encoding.simps map_eq_Cons_conv)
    then show ?thesis using 4 n(1) by (simp add: count_trail count_byte [of b] del: count_loop.simps)
  qed
qed

lemma count_concat:
  "list_all is_char cs \<Longrightarrow> count_loop (concat (map Encode cs)) l t f =
     (l + length cs, t \<or> (\<exists>c \<in> set cs. 0xFF < c \<and> c \<le> 0xFFFF), f \<or> (\<exists>c \<in> set cs. 0xFFFF < c))"
  by (induction cs arbitrary: l t f) (auto simp: count_Encode)

lemma uint_of_char: "is_char c \<Longrightarrow> c < 2 ^ LENGTH('a) \<Longrightarrow> uint (word_of_int c :: 'a::len word) = c"
  by (simp add: is_char_def unsigned_of_int take_bit_int_eq_self)

lemma map_uint_of_char:
  "list_all is_char cs \<Longrightarrow> list_all (\<lambda>c. c < 2 ^ LENGTH('a)) cs \<Longrightarrow> map uint (map (word_of_int :: int \<Rightarrow> 'a::len word) cs) = cs"
  by (induction cs) (simp_all add: uint_of_char)

text \<open>C30: Encoding a string of characters (code points that are neither null nor surrogates) into a
  buffer of the length computed beforehand fills it exactly; counting the code points of
  the result gives the length of the string and a width that holds every character; and
  decoding with that width, or with 32 bits, gives the string back.\<close>

theorem utf8_round_trip:
  assumes "list_all is_char cs"
  defines "src \<equiv> Encode_string cs 0 (Length_string cs)"
  shows "length src = Length_string cs \<and> fst (CodePointCount src) = length cs \<and>
    (snd (CodePointCount src) = 1 \<longrightarrow> (\<exists>d. Decode_uint8 src (length cs) = (True, d) \<and> map uint d = cs)) \<and>
    (snd (CodePointCount src) = 2 \<longrightarrow> (\<exists>d. Decode_uint16 src (length cs) = (True, d) \<and> map uint d = cs)) \<and>
    (\<exists>d. Decode_uint32 src (length cs) = (True, d) \<and> map uint d = cs)"
proof -
  have src: "src = concat (map Encode cs)" unfolding src_def by (rule Encode_string_all) simp
  have count: "CodePointCount src =
      (length cs, if \<exists>c \<in> set cs. 0xFFFF < c then 4 else if \<exists>c \<in> set cs. 0xFF < c \<and> c \<le> 0xFFFF then 2 else 1)"
    unfolding src CodePointCount_def count_concat [OF assms(1)] by simp
  have decode: "DecodeImpl T src (length cs) = (True, map T cs)" for T :: "int \<Rightarrow> 'b"
    unfolding src by (rule DecodeImpl_concat [OF assms(1)]) simp
  have "list_all (\<lambda>c. c < 2 ^ LENGTH(8)) cs" if "snd (CodePointCount src) = 1"
    using that unfolding count list_all_iff by (force split: if_splits)
  moreover have "list_all (\<lambda>c. c < 2 ^ LENGTH(16)) cs" if "snd (CodePointCount src) = 2"
    using that unfolding count list_all_iff by (force split: if_splits)
  moreover have "list_all (\<lambda>c. c < 2 ^ LENGTH(32)) cs"
    using assms(1) unfolding list_all_iff by (auto simp: is_char_def scalar_def)
  moreover have "length src = Length_string cs" "fst (CodePointCount src) = length cs"
    unfolding count using Length_concat [OF assms(1)] src by simp_all
  ultimately show ?thesis
    unfolding Decode_uint8_def Decode_uint16_def Decode_uint32_def decode
    using map_uint_of_char [where 'a = 8, OF assms(1)] map_uint_of_char [where 'a = 16, OF assms(1)]
      map_uint_of_char [where 'a = 32, OF assms(1)] by blast
qed

theorem utf8_round_trip_witness:
  "\<exists>d. Decode_uint32 (Encode_string [0x41, 0xE9, 0x20AC, 0x1F600] 0 10) 4 = (True, d) \<and> map uint d = [0x41, 0xE9, 0x20AC, 0x1F600]"
proof -
  let ?cs = "[0x41, 0xE9, 0x20AC, 0x1F600] :: int list"
  have ok: "list_all is_char ?cs" by (simp add: is_char_def scalar_def)
  have len: "Length_string ?cs = 10" "length ?cs = 4"
    by (simp_all add: Length_def kMaxOneByteChar_def kMaxTwoByteChar_def kMaxThreeByteChar_def)
  show ?thesis using utf8_round_trip [OF ok, unfolded len] by blast
qed

text \<open>C31: The decoder is strict: a C string that it accepts is exactly the encoding of the
  characters it returns, so overlong forms, surrogates, code points above the range,
  misplaced and missing trail bytes are all rejected, and the encoding is unique.\<close>

theorem utf8_decode_strict:
  assumes "0 \<notin> set src" and "Decode_uint32 src len = (True, d)"
  shows "list_all is_char (map uint d) \<and> src = Encode_string (map uint d) 0 (length src)"
proof -
  obtain cs where cs: "list_all is_char cs" "src = concat (map Encode cs)" "d = map word_of_int cs"
    using DecodeImpl_accepts assms unfolding Decode_uint32_def by blast
  have "list_all (\<lambda>c. c < 2 ^ LENGTH(32)) cs" using cs(1) unfolding list_all_iff by (auto simp: is_char_def scalar_def)
  then have "map uint d = cs" using map_uint_of_char [where 'a = 32, OF cs(1)] cs(3) by simp
  moreover have "Encode_string cs 0 (length src) = src" using Encode_string_all [of 0 cs "length src"] Length_concat [OF cs(1)] cs(2) by simp
  ultimately show ?thesis using cs(1) by simp
qed

theorem utf8_decode_strict_witness: "[0xC3, 0xA9] = Encode_string [0xE9] 0 2"
proof -
  have "Decode_uint32 [0xC3, 0xA9] 1 = (True, [0xE9])" by code_simp
  moreover have "(0 :: uint8) \<notin> set [0xC3, 0xA9]" "map uint [0xE9 :: uint32] = [0xE9]" "length [0xC3, 0xA9 :: uint8] = 2" by simp_all
  ultimately show ?thesis using utf8_decode_strict [of "[0xC3, 0xA9]" 1 "[0xE9]"] by metis
qed

end
