(* ===== verification/Bit_Store_Interface.thy ===== *)
theory Bit_Store_Interface
  imports Dart_Prelude
begin

text \<open>
  The interface of a store of single bits with integer offsets, as the bitmap builder and the
  stack maps provide it, and what filling a range of offsets does to such a store.
\<close>

locale bit_store =
  fixes get :: "'s \<Rightarrow> int \<Rightarrow> bool"
    and put :: "'s \<Rightarrow> int \<Rightarrow> bool \<Rightarrow> 's"
    and size :: "'s \<Rightarrow> int"
    and inv :: "'s \<Rightarrow> bool"
  assumes inv_put: "inv s \<Longrightarrow> inv (put s i v)"
    and size_put: "size (put s i v) = size s"
    and get_put: "inv s \<Longrightarrow> 0 \<le> i \<Longrightarrow> i < size s \<Longrightarrow> 0 \<le> j \<Longrightarrow> j < size s \<Longrightarrow>
      get (put s i v) j = (if j = i then v else get s j)"
begin

fun put_all :: "(int \<Rightarrow> bool) \<Rightarrow> int list \<Rightarrow> 's \<Rightarrow> 's" where
  "put_all f [] s = s"
| "put_all f (i # js) s = put_all f js (put s i (f i))"

lemma inv_put_all: "inv s \<Longrightarrow> inv (put_all f js s)"
  by (induction js arbitrary: s) (simp_all add: inv_put)

lemma size_put_all: "size (put_all f js s) = size s"
  by (induction js arbitrary: s) (simp_all add: size_put)

lemma get_put_all:
  assumes "inv s" "\<forall>i\<in>set js. 0 \<le> i \<and> i < size s" "0 \<le> j" "j < size s"
  shows "get (put_all f js s) j = (if j \<in> set js then f j else get s j)"
  using assms by (induction js arbitrary: s) (auto simp: inv_put size_put get_put)

end

end
