(* ===== verification/Bitmap.thy ===== *)
theory Bitmap
  imports Bit_Store_Interface
begin

text \<open>
  Bitmaps of stack slots: the growing \<open>BitmapBuilder\<close> (\<open>runtime/vm/bitmap.h\<close>, \<open>bitmap.cc\<close>), the
  immutable \<open>Stackmap\<close> objects made from it and the search for the stack map of a program
  counter (\<open>runtime/vm/object.h\<close>, \<open>object.cc\<close>). The byte buffer of a bitmap is the list of its
  bytes. Bit offsets are \<open>intptr_t\<close> and read as integers; a byte offset is truncated to \<open>int\<close>
  as in the source.
\<close>

definition kBitsPerByte :: int where "kBitsPerByte = 8"
definition kBitsPerByteLog2 :: nat where "kBitsPerByteLog2 = 3"

subsection \<open>The builder\<close>

record bitmap_builder =
  size_in_bytes :: int
  bit_list :: "uint8 list"

definition kInitialSizeInBytes :: int where "kInitialSizeInBytes = 16"
definition kIncrementSizeInBytes :: int where "kIncrementSizeInBytes = 16"

definition BitmapBuilder :: bitmap_builder where
  "BitmapBuilder = \<lparr>size_in_bytes = kInitialSizeInBytes, bit_list = replicate (nat kInitialSizeInBytes) 0\<rparr>"

definition SizeInBits :: "bitmap_builder \<Rightarrow> int" where
  "SizeInBits bm = size_in_bytes bm * kBitsPerByte"

definition InRange :: "bitmap_builder \<Rightarrow> int \<Rightarrow> bool" where
  "InRange bm offset \<longleftrightarrow> offset \<ge> 0 \<and> offset < SizeInBits bm"

definition byte_offset :: "int \<Rightarrow> nat" where
  "byte_offset bit_offset = nat (sint (word_of_int (drop_bit kBitsPerByteLog2 bit_offset) :: 32 word))"

definition bit_mask :: "int \<Rightarrow> uint8" where
  "bit_mask bit_offset = push_bit (nat (bit_offset AND (kBitsPerByte - 1))) 1"

definition GetBit :: "bitmap_builder \<Rightarrow> int \<Rightarrow> bool" where
  "GetBit bm bit_offset \<longleftrightarrow> bit_list bm ! byte_offset bit_offset AND bit_mask bit_offset \<noteq> 0"

definition SetBit :: "bitmap_builder \<Rightarrow> int \<Rightarrow> bool \<Rightarrow> bitmap_builder" where
  "SetBit bm bit_offset value =
     (let b = bit_list bm ! byte_offset bit_offset
      in bm\<lparr>bit_list := (bit_list bm)[byte_offset bit_offset :=
           (if value then b OR bit_mask bit_offset else b AND NOT (bit_mask bit_offset))]\<rparr>)"

definition Get :: "bitmap_builder \<Rightarrow> int \<Rightarrow> bool" where
  "Get bm bit_offset \<longleftrightarrow> (if \<not> InRange bm bit_offset then False else GetBit bm bit_offset)"

partial_function (option) grow_loop :: "int \<Rightarrow> bitmap_builder \<Rightarrow> bitmap_builder option" where
  [code]: "grow_loop bit_offset bm =
     (if \<not> InRange bm bit_offset
      then
        let new_size = size_in_bytes bm + kIncrementSizeInBytes
        in grow_loop bit_offset
             \<lparr>size_in_bytes = new_size,
              bit_list = take (nat (size_in_bytes bm)) (bit_list bm) @ replicate (nat kIncrementSizeInBytes) 0\<rparr>
      else Some bm)"

definition Set :: "bitmap_builder \<Rightarrow> int \<Rightarrow> bool \<Rightarrow> bitmap_builder option" where
  "Set bm bit_offset value = map_option (\<lambda>bm. SetBit bm bit_offset value) (grow_loop bit_offset bm)"

fun maximum_loop :: "bitmap_builder \<Rightarrow> nat \<Rightarrow> int option" where
  "maximum_loop bm 0 = None"
| "maximum_loop bm (Suc i) = (if Get bm (int i) then Some (int i) else maximum_loop bm i)"

definition kNoMaximum :: int where "kNoMaximum = - 1"
definition kNoMinimum :: int where "kNoMinimum = - 1"

definition Maximum :: "bitmap_builder \<Rightarrow> int" where
  "Maximum bm = (case maximum_loop bm (nat (SizeInBits bm)) of Some i \<Rightarrow> i | None \<Rightarrow> kNoMaximum)"

fun minimum_loop :: "bitmap_builder \<Rightarrow> int list \<Rightarrow> int option" where
  "minimum_loop bm [] = None"
| "minimum_loop bm (i # js) = (if Get bm i then Some i else minimum_loop bm js)"

definition Minimum :: "bitmap_builder \<Rightarrow> int" where
  "Minimum bm = (case minimum_loop bm [0..SizeInBits bm - 1] of Some i \<Rightarrow> i | None \<Rightarrow> kNoMinimum)"

fun set_loop :: "(int \<Rightarrow> bool) \<Rightarrow> int list \<Rightarrow> bitmap_builder \<Rightarrow> bitmap_builder option" where
  "set_loop value [] bm = Some bm"
| "set_loop value (i # js) bm = Option.bind (Set bm i (value i)) (set_loop value js)"

definition SetRange :: "bitmap_builder \<Rightarrow> int \<Rightarrow> int \<Rightarrow> bool \<Rightarrow> bitmap_builder option" where
  "SetRange bm min_bit max_bit value = set_loop (\<lambda>i. value) [min_bit..max_bit] bm"

subsection \<open>Stack maps\<close>

record stackmap =
  sm_pc :: uint64
  bitmap_size_in_bytes :: int
  min_set_bit_offset :: int
  max_set_bit_offset :: int
  sm_data :: "uint8 list"

definition Stackmap_SizeInBits :: "stackmap \<Rightarrow> int" where
  "Stackmap_SizeInBits sm = bitmap_size_in_bytes sm * kBitsPerByte"

definition Stackmap_InRange :: "stackmap \<Rightarrow> int \<Rightarrow> bool" where
  "Stackmap_InRange sm offset \<longleftrightarrow> offset < Stackmap_SizeInBits sm"

definition Stackmap_GetBit :: "stackmap \<Rightarrow> int \<Rightarrow> bool" where
  "Stackmap_GetBit sm bit_offset \<longleftrightarrow> sm_data sm ! byte_offset bit_offset AND bit_mask bit_offset \<noteq> 0"

definition Stackmap_SetBit :: "stackmap \<Rightarrow> int \<Rightarrow> bool \<Rightarrow> stackmap" where
  "Stackmap_SetBit sm bit_offset value =
     (let b = sm_data sm ! byte_offset bit_offset
      in sm\<lparr>sm_data := (sm_data sm)[byte_offset bit_offset :=
           (if value then b OR bit_mask bit_offset else b AND NOT (bit_mask bit_offset))]\<rparr>)"

definition IsObject :: "stackmap \<Rightarrow> int \<Rightarrow> bool" where
  "IsObject sm offset \<longleftrightarrow> Stackmap_InRange sm offset \<and> Stackmap_GetBit sm offset"

text \<open>The contents of the freshly allocated object, which \<open>New\<close> overwrites bit by bit, are the
  argument \<open>memory\<close>.\<close>

fun copy_loop :: "bitmap_builder \<Rightarrow> int list \<Rightarrow> stackmap \<Rightarrow> stackmap" where
  "copy_loop bmap [] result = result"
| "copy_loop bmap (i # js) result = copy_loop bmap js (Stackmap_SetBit result i (Get bmap i))"

definition Stackmap_New :: "uint8 list \<Rightarrow> uint64 \<Rightarrow> bitmap_builder \<Rightarrow> stackmap" where
  "Stackmap_New memory pc_offset bmap =
     (let result = \<lparr>sm_pc = pc_offset, bitmap_size_in_bytes = size_in_bytes bmap,
                    min_set_bit_offset = 0, max_set_bit_offset = 0, sm_data = memory\<rparr>;
          result = copy_loop bmap [0..SizeInBits bmap - 1] result
      in result\<lparr>min_set_bit_offset := Minimum bmap, max_set_bit_offset := Maximum bmap\<rparr>)"

definition SetBits :: "bitmap_builder \<Rightarrow> stackmap \<Rightarrow> bitmap_builder option" where
  "SetBits bm bitmap =
     (let min_bit = min_set_bit_offset bitmap;
          max_bit = max_set_bit_offset bitmap
      in if min_bit = kNoMinimum \<or> max_bit = kNoMaximum then Some bm
         else
           Option.bind (set_loop (\<lambda>i. False) [0..min_bit - 1] bm) (\<lambda>bm.
           Option.bind (set_loop (IsObject bitmap) [min_bit..max_bit] bm) (\<lambda>bm.
           set_loop (\<lambda>i. False) [max_bit + 1..SizeInBits bm - 1] bm)))"

text \<open>The list of stack maps of a code object; \<open>None\<close> is the null array. A result \<open>None\<close> is the
  null stack map.\<close>

fun get_stackmap_loop :: "uint64 \<Rightarrow> stackmap list \<Rightarrow> stackmap option \<Rightarrow> stackmap option \<Rightarrow> stackmap option" where
  "get_stackmap_loop pc [] sm previous_map = sm"
| "get_stackmap_loop pc (sm # maps) current previous_map =
     (if sm_pc sm = pc then Some sm
      else if sm_pc sm > pc then previous_map
      else get_stackmap_loop pc maps (Some sm) (Some sm))"

definition GetStackmap :: "stackmap list option \<Rightarrow> uint64 \<Rightarrow> stackmap option" where
  "GetStackmap stackmaps pc =
     (case stackmaps of None \<Rightarrow> None | Some maps \<Rightarrow> get_stackmap_loop pc maps None None)"

subsection \<open>Single bits\<close>

lemma byte_offset_eq: "0 \<le> i \<Longrightarrow> i < 2 ^ 34 \<Longrightarrow> byte_offset i = nat i div 8"
proof -
  assume i: "0 \<le> i" "i < 2 ^ 34"
  have d: "drop_bit 3 i = i div 8" by (simp add: drop_bit_eq_div)
  have "0 \<le> i div 8" "i div 8 < 2 ^ 31" using i by simp_all
  then have "sint (word_of_int (i div 8) :: 32 word) = i div 8" by (intro sint_of_int_no_wrap) simp_all
  then show ?thesis unfolding byte_offset_def kBitsPerByteLog2_def d using i by (simp add: nat_div_distrib)
qed

lemma bit_mask_eq: "0 \<le> i \<Longrightarrow> bit_mask i = 2 ^ (nat i mod 8)"
proof -
  assume "0 \<le> i"
  have "i AND 7 = i mod 8" using take_bit_eq_mask [of 3 i] by (simp add: take_bit_eq_mod mask_eq_exp_minus_1)
  then show ?thesis using \<open>0 \<le> i\<close> by (simp add: bit_mask_def kBitsPerByte_def nat_mod_distrib)
qed

lemma and_bit_mask: "0 \<le> i \<Longrightarrow> b AND bit_mask i \<noteq> 0 \<longleftrightarrow> bit b (nat i mod 8)"
  by (simp add: bit_mask_eq and_exp_eq_0_iff_not_bit)

text \<open>A well-formed bitmap has as many bytes as its size says, few enough for a byte offset to
  fit in an \<open>int\<close>.\<close>

definition bytes_wf :: "int \<Rightarrow> uint8 list \<Rightarrow> bool" where
  "bytes_wf sz bytes \<longleftrightarrow> 0 \<le> sz \<and> sz \<le> 2 ^ 31 \<and> length bytes = nat sz"

definition bm_wf :: "bitmap_builder \<Rightarrow> bool" where
  "bm_wf bm \<longleftrightarrow> bytes_wf (size_in_bytes bm) (bit_list bm) \<and> 16 dvd size_in_bytes bm"

definition sm_wf :: "stackmap \<Rightarrow> bool" where
  "sm_wf sm \<longleftrightarrow> bytes_wf (bitmap_size_in_bytes sm) (sm_data sm)"

lemma bit_update_mask:
  assumes "0 \<le> i" "n < 8"
  shows "bit (if v then b OR bit_mask i else b AND NOT (bit_mask i)) n = (if n = nat i mod 8 then v else bit b n)"
  using assms by (auto simp: bit_mask_eq bit_or_iff bit_and_iff bit_not_iff bit_exp_iff)

lemma bytes_update:
  assumes "bytes_wf sz bytes" "0 \<le> i" "i < sz * 8" "0 \<le> j" "j < sz * 8"
  defines "b \<equiv> bytes ! byte_offset i"
  shows "bytes[byte_offset i := if v then b OR bit_mask i else b AND NOT (bit_mask i)] ! byte_offset j AND bit_mask j \<noteq> 0
    \<longleftrightarrow> (if j = i then v else bytes ! byte_offset j AND bit_mask j \<noteq> 0)"
proof -
  have lim: "i < 2 ^ 34" "j < 2 ^ 34" and len: "length bytes = nat sz"
    using assms(1,3,5) by (simp_all add: bytes_wf_def)
  have off: "byte_offset i = nat i div 8" "byte_offset j = nat j div 8" using byte_offset_eq assms(2,4) lim by blast+
  have lt: "nat i div 8 < length bytes" using assms(2,3) len by linarith
  have same: "j = i \<longleftrightarrow> nat i div 8 = nat j div 8 \<and> nat i mod 8 = nat j mod 8"
    using assms(2,4) by (metis div_mult_mod_eq eq_nat_nat_iff)
  show ?thesis
    unfolding and_bit_mask [OF assms(4)] off
    using lt same bit_update_mask [OF assms(2), of "nat j mod 8" v b] by (cases "nat i div 8 = nat j div 8") (auto simp: b_def off)
qed

interpretation bmb: bit_store GetBit SetBit SizeInBits bm_wf
proof
  show "bm_wf (SetBit s i v)" if "bm_wf s" for s i v using that by (simp add: bm_wf_def bytes_wf_def SetBit_def Let_def)
  show "SizeInBits (SetBit s i v) = SizeInBits s" for s i v by (simp add: SizeInBits_def SetBit_def Let_def)
  show "GetBit (SetBit s i v) j = (if j = i then v else GetBit s j)"
    if "bm_wf s" "0 \<le> i" "i < SizeInBits s" "0 \<le> j" "j < SizeInBits s" for s i j v
    using bytes_update [of "size_in_bytes s" "bit_list s" i j v] that
    by (simp add: GetBit_def SetBit_def Let_def bm_wf_def SizeInBits_def kBitsPerByte_def)
qed

interpretation smb: bit_store Stackmap_GetBit Stackmap_SetBit Stackmap_SizeInBits sm_wf
proof
  show "sm_wf (Stackmap_SetBit s i v)" if "sm_wf s" for s i v using that by (simp add: sm_wf_def bytes_wf_def Stackmap_SetBit_def Let_def)
  show "Stackmap_SizeInBits (Stackmap_SetBit s i v) = Stackmap_SizeInBits s" for s i v
    by (simp add: Stackmap_SizeInBits_def Stackmap_SetBit_def Let_def)
  show "Stackmap_GetBit (Stackmap_SetBit s i v) j = (if j = i then v else Stackmap_GetBit s j)"
    if "sm_wf s" "0 \<le> i" "i < Stackmap_SizeInBits s" "0 \<le> j" "j < Stackmap_SizeInBits s" for s i j v
    using bytes_update [of "bitmap_size_in_bytes s" "sm_data s" i j v] that
    by (simp add: Stackmap_GetBit_def Stackmap_SetBit_def Let_def sm_wf_def Stackmap_SizeInBits_def kBitsPerByte_def)
qed

subsection \<open>The builder as a set of offsets\<close>

definition bits :: "bitmap_builder \<Rightarrow> int set" where
  "bits bm = {i. Get bm i}"

lemma bits_range: "i \<in> bits bm \<Longrightarrow> 0 \<le> i \<and> i < SizeInBits bm"
  by (simp add: bits_def Get_def InRange_def split: if_splits)

lemma BitmapBuilder_wf: "bm_wf BitmapBuilder"
  by (simp add: BitmapBuilder_def bm_wf_def bytes_wf_def kInitialSizeInBytes_def)

lemma BitmapBuilder_bits: "bits BitmapBuilder = {}"
proof -
  have "\<not> GetBit BitmapBuilder i" if "0 \<le> i" "i < 128" for i
  proof -
    have "nat i div 8 < 16" using that by linarith
    then show ?thesis using that
      by (simp add: GetBit_def BitmapBuilder_def kInitialSizeInBytes_def byte_offset_eq)
  qed
  then show ?thesis
    by (auto simp: bits_def Get_def InRange_def SizeInBits_def BitmapBuilder_def kInitialSizeInBytes_def kBitsPerByte_def)
qed

definition grown :: "bitmap_builder \<Rightarrow> bitmap_builder" where
  "grown bm = \<lparr>size_in_bytes = size_in_bytes bm + 16,
     bit_list = take (nat (size_in_bytes bm)) (bit_list bm) @ replicate 16 0\<rparr>"

lemma grow_loop_step: "grow_loop i bm = (if InRange bm i then Some bm else grow_loop i (grown bm))"
  by (subst grow_loop.simps) (simp add: grown_def kIncrementSizeInBytes_def)

lemma grown_wf: "bm_wf bm \<Longrightarrow> size_in_bytes bm < 2 ^ 31 \<Longrightarrow> bm_wf (grown bm)"
  unfolding bm_wf_def bytes_wf_def grown_def by (auto simp: nat_add_distrib)

lemma grown_bits:
  assumes "bm_wf bm" "size_in_bytes bm < 2 ^ 31"
  shows "bits (grown bm) = bits bm"
proof -
  have wf: "0 \<le> size_in_bytes bm" "length (bit_list bm) = nat (size_in_bytes bm)" "size_in_bytes bm + 16 \<le> 2 ^ 31"
    using assms grown_wf [OF assms] by (simp_all add: bm_wf_def bytes_wf_def grown_def)
  have "InRange (grown bm) i \<and> GetBit (grown bm) i \<longleftrightarrow> InRange bm i \<and> GetBit bm i" for i
  proof (cases "0 \<le> i \<and> i < size_in_bytes bm * 8 + 128")
    case True
    then have off: "byte_offset i = nat i div 8" using wf(3) by (intro byte_offset_eq) simp_all
    have "nat i div 8 < nat (size_in_bytes bm) \<longleftrightarrow> i < size_in_bytes bm * 8"
      "nat i div 8 < nat (size_in_bytes bm) + 16" using True wf(1) by linarith+
    then show ?thesis using True wf(1,2)
      by (auto simp: InRange_def SizeInBits_def kBitsPerByte_def GetBit_def grown_def off nth_append)
  qed (use wf(1) in \<open>auto simp: InRange_def SizeInBits_def kBitsPerByte_def grown_def\<close>)
  then show ?thesis by (auto simp: bits_def Get_def)
qed

lemma grow_loop_correct:
  assumes "bm_wf bm" "0 \<le> i" "i < 2 ^ 34"
  shows "\<exists>bm'. grow_loop i bm = Some bm' \<and> bm_wf bm' \<and> bits bm' = bits bm \<and> InRange bm' i"
  using assms(1)
proof (induction "nat (2 ^ 31 - size_in_bytes bm)" arbitrary: bm rule: less_induct)
  case less
  show ?case
  proof (cases "InRange bm i")
    case False
    then have lt: "size_in_bytes bm < 2 ^ 31"
      using assms(2,3) by (simp add: InRange_def SizeInBits_def kBitsPerByte_def)
    moreover have "nat (2 ^ 31 - size_in_bytes (grown bm)) < nat (2 ^ 31 - size_in_bytes bm)"
      using lt by (simp add: grown_def)
    ultimately show ?thesis
      using less.hyps [OF _ grown_wf [OF less.prems lt]] grown_bits [OF less.prems lt] grow_loop_step [of i bm] False
      by auto
  qed (use less.prems grow_loop_step [of i bm] in simp)
qed

lemma SetBit_bits:
  assumes "bm_wf bm" "InRange bm i"
  shows "bits (SetBit bm i v) = (if v then insert i (bits bm) else bits bm - {i})"
  using bmb.get_put [OF assms(1), of i _ v] assms(2)
  by (auto simp: bits_def Get_def InRange_def bmb.size_put split: if_splits)

lemma Set_correct:
  assumes "bm_wf bm" "0 \<le> i" "i < 2 ^ 34"
  shows "\<exists>bm'. Set bm i v = Some bm' \<and> bm_wf bm' \<and> bits bm' = (if v then insert i (bits bm) else bits bm - {i})"
  using grow_loop_correct [OF assms] bmb.inv_put SetBit_bits unfolding Set_def by fastforce

lemma grow_loop_InRange: "grow_loop i bm = Some bm' \<Longrightarrow> InRange bm' i"
proof (rule grow_loop.raw_induct [where P = "\<lambda>i bm bm'. InRange bm' i"])
  fix grow i bm bm'
  assume "\<And>i bm bm'. grow i bm = Some bm' \<Longrightarrow> InRange bm' i"
    and "(if \<not> InRange bm i then let new_size = size_in_bytes bm + kIncrementSizeInBytes
      in grow i \<lparr>size_in_bytes = new_size, bit_list = take (nat (size_in_bytes bm)) (bit_list bm) @ replicate (nat kIncrementSizeInBytes) 0\<rparr>
      else Some bm) = Some bm'"
  then show "InRange bm' i" by (auto simp: Let_def split: if_splits)
qed

lemma Set_negative: "i < 0 \<Longrightarrow> Set bm i v = None"
  using grow_loop_InRange [of i bm] by (cases "grow_loop i bm") (auto simp: Set_def InRange_def)

lemma set_loop_correct:
  assumes "bm_wf bm" "\<forall>i\<in>set js. 0 \<le> i \<and> i < 2 ^ 34"
  shows "\<exists>bm'. set_loop f js bm = Some bm' \<and> bm_wf bm' \<and> bits bm' = bits bm - set js \<union> {i \<in> set js. f i}"
  using assms
proof (induction js arbitrary: bm)
  case (Cons i js)
  obtain bm1 where bm1: "Set bm i (f i) = Some bm1" "bm_wf bm1" "bits bm1 = (if f i then insert i (bits bm) else bits bm - {i})"
    using Set_correct [OF Cons.prems(1), of i "f i"] Cons.prems(2) by auto
  obtain bm2 where "set_loop f js bm1 = Some bm2" "bm_wf bm2" "bits bm2 = bits bm1 - set js \<union> {i \<in> set js. f i}"
    using Cons.IH [OF bm1(2)] Cons.prems(2) by auto
  then show ?case using bm1 by auto
qed simp

lemma maximum_loop_correct:
  "case maximum_loop bm n of None \<Rightarrow> (\<forall>i. 0 \<le> i \<and> i < int n \<longrightarrow> \<not> Get bm i)
   | Some m \<Rightarrow> Get bm m \<and> 0 \<le> m \<and> (\<forall>i. m < i \<and> i < int n \<longrightarrow> \<not> Get bm i)"
proof (induction n)
  case (Suc n)
  have "i < int (Suc n) \<longleftrightarrow> i < int n \<or> i = int n" for i by auto
  then show ?case using Suc by (auto split: option.splits)
qed auto

lemma minimum_loop_correct:
  "sorted js \<Longrightarrow> case minimum_loop bm js of None \<Rightarrow> (\<forall>i\<in>set js. \<not> Get bm i)
   | Some m \<Rightarrow> Get bm m \<and> m \<in> set js \<and> (\<forall>i\<in>set js. i < m \<longrightarrow> \<not> Get bm i)"
  by (induction js) (auto split: option.splits)

lemma bits_finite: "finite (bits bm)"
  by (rule finite_subset [of _ "{0..<SizeInBits bm}"]) (use bits_range in auto)

lemma bits_iff: "i \<in> bits bm \<longleftrightarrow> Get bm i \<and> 0 \<le> i \<and> i < SizeInBits bm"
  using bits_range [of i bm] by (auto simp: bits_def)

lemma Maximum_correct: "Maximum bm = (if bits bm = {} then - 1 else Max (bits bm))"
proof (cases "maximum_loop bm (nat (SizeInBits bm))")
  case None
  then have "bits bm = {}" using maximum_loop_correct [where bm = bm and n = "nat (SizeInBits bm)"] by (auto simp: bits_iff)
  then show ?thesis using None by (simp add: Maximum_def kNoMaximum_def)
next
  case (Some m)
  then have m: "Get bm m" "\<And>i. Get bm i \<Longrightarrow> i < SizeInBits bm \<Longrightarrow> i \<le> m"
    using maximum_loop_correct [where bm = bm and n = "nat (SizeInBits bm)"] by (auto simp: not_less [symmetric])
  have in_bits: "m \<in> bits bm" using m(1) by (simp add: bits_def)
  then have "Max (bits bm) = m" using bits_finite m(2) by (intro Max_eqI) (auto simp: bits_iff)
  then show ?thesis using Some in_bits by (auto simp: Maximum_def)
qed

lemma Minimum_correct: "Minimum bm = (if bits bm = {} then - 1 else Min (bits bm))"
proof (cases "minimum_loop bm [0..SizeInBits bm - 1]")
  case None
  then have "\<forall>i\<in>{0..SizeInBits bm - 1}. \<not> Get bm i" using minimum_loop_correct [of "[0..SizeInBits bm - 1]" bm] by simp
  then have "bits bm = {}" by (auto simp: bits_iff)
  then show ?thesis using None by (simp add: Minimum_def kNoMinimum_def)
next
  case (Some m)
  then have m: "Get bm m" "\<forall>i\<in>{0..SizeInBits bm - 1}. i < m \<longrightarrow> \<not> Get bm i"
    using minimum_loop_correct [of "[0..SizeInBits bm - 1]" bm] by simp_all
  have in_bits: "m \<in> bits bm" using m(1) by (simp add: bits_def)
  moreover have "m \<le> i" if "i \<in> bits bm" for i
    using that m(2) unfolding bits_iff by (cases "i < m") auto
  ultimately have "Min (bits bm) = m" using bits_finite by (intro Min_eqI) auto
  then show ?thesis using Some in_bits by (auto simp: Minimum_def)
qed

subsection \<open>Stack maps replicate the builder\<close>

lemma copy_loop_put_all: "copy_loop bm js sm = smb.put_all (Get bm) js sm"
  by (induction js arbitrary: sm) simp_all

lemma copy_loop_fields: "min_set_bit_offset (copy_loop bm js sm) = min_set_bit_offset sm \<and> sm_pc (copy_loop bm js sm) = sm_pc sm"
  by (induction js arbitrary: sm) (simp_all add: Stackmap_SetBit_def Let_def)

lemma Stackmap_GetBit_more:
  "Stackmap_GetBit (sm\<lparr>min_set_bit_offset := a, max_set_bit_offset := b\<rparr>) i = Stackmap_GetBit sm i"
  "Stackmap_SizeInBits (sm\<lparr>min_set_bit_offset := a, max_set_bit_offset := b\<rparr>) = Stackmap_SizeInBits sm"
  by (simp_all add: Stackmap_GetBit_def Stackmap_SizeInBits_def)

lemma Stackmap_New_IsObject:
  assumes "bm_wf bm" "length memory = nat (size_in_bytes bm)" "0 \<le> i"
  shows "IsObject (Stackmap_New memory pc bm) i \<longleftrightarrow> i \<in> bits bm"
proof -
  let ?sm = "\<lparr>sm_pc = pc, bitmap_size_in_bytes = size_in_bytes bm, min_set_bit_offset = 0, max_set_bit_offset = 0, sm_data = memory\<rparr>"
  have wf: "sm_wf ?sm" using assms(1,2) by (simp add: sm_wf_def bm_wf_def bytes_wf_def)
  have size: "Stackmap_SizeInBits ?sm = SizeInBits bm" by (simp add: Stackmap_SizeInBits_def SizeInBits_def)
  have "Stackmap_GetBit (copy_loop bm [0..SizeInBits bm - 1] ?sm) i \<longleftrightarrow> Get bm i" if "i < SizeInBits bm"
    unfolding copy_loop_put_all
    using smb.get_put_all [OF wf, of "[0..SizeInBits bm - 1]" i "Get bm"] assms(3) that size by simp
  then show ?thesis
    using assms(3) bits_range [of i bm] size
    by (auto simp: IsObject_def Stackmap_InRange_def Stackmap_New_def Let_def Stackmap_GetBit_more
        copy_loop_put_all smb.size_put_all bits_def)
qed

lemma SetBits_correct:
  assumes "bm_wf bm" "bm_wf src" "length memory = nat (size_in_bytes src)"
  shows "\<exists>bm'. SetBits bm (Stackmap_New memory pc src) = Some bm' \<and> bm_wf bm' \<and>
    bits bm' = (if bits src = {} then bits bm else bits src)"
proof (cases "bits src = {}")
  case True
  then show ?thesis using assms(1)
    by (simp add: SetBits_def Stackmap_New_def Let_def Minimum_correct kNoMinimum_def)
next
  case False
  let ?sm = "Stackmap_New memory pc src" and ?min = "Min (bits src)" and ?max = "Max (bits src)"
  have mm: "min_set_bit_offset ?sm = ?min" "max_set_bit_offset ?sm = ?max"
    using False by (simp_all add: Stackmap_New_def Let_def Minimum_correct Maximum_correct)
  have in_src: "?min \<in> bits src" "?max \<in> bits src" using False bits_finite by simp_all
  have size: "SizeInBits b \<le> 2 ^ 34" if "bm_wf b" for b
    using that by (simp add: bm_wf_def bytes_wf_def SizeInBits_def kBitsPerByte_def)
  have lim: "0 \<le> ?min" "?max < 2 ^ 34" "0 \<le> ?max" using bits_range in_src size [OF assms(2)] by fastforce+
  have le: "?min \<le> i" "i \<le> ?max" if "i \<in> bits src" for i using that bits_finite by simp_all
  have obj: "IsObject ?sm i \<longleftrightarrow> i \<in> bits src" if "0 \<le> i" for i using Stackmap_New_IsObject [OF assms(2,3) that] .
  obtain bm1 where bm1: "set_loop (\<lambda>i. False) [0..?min - 1] bm = Some bm1" "bm_wf bm1"
    "bits bm1 = bits bm - {0..?min - 1}"
    using set_loop_correct [OF assms(1), of "[0..?min - 1]" "\<lambda>i. False"] lim le in_src by fastforce
  obtain bm2 where bm2: "set_loop (IsObject ?sm) [?min..?max] bm1 = Some bm2" "bm_wf bm2"
    "bits bm2 = bits bm1 - {?min..?max} \<union> {i \<in> {?min..?max}. IsObject ?sm i}"
    using set_loop_correct [OF bm1(2), of "[?min..?max]" "IsObject ?sm"] lim by fastforce
  obtain bm3 where bm3: "set_loop (\<lambda>i. False) [?max + 1..SizeInBits bm2 - 1] bm2 = Some bm3" "bm_wf bm3"
    "bits bm3 = bits bm2 - {?max + 1..SizeInBits bm2 - 1}"
    using set_loop_correct [OF bm2(2), of "[?max + 1..SizeInBits bm2 - 1]" "\<lambda>i. False"] lim size [OF bm2(2)] by fastforce
  have "bits bm3 = bits src"
    unfolding bm3(3) using bm2(3) bm1(3) bits_range [of _ bm2] bits_range [of _ bm] obj le lim by force
  then show ?thesis
    using bm1(1) bm2(1) bm3(1,2) False mm lim by (auto simp: SetBits_def Let_def kNoMinimum_def kNoMaximum_def)
qed

subsection \<open>Finding a stack map\<close>

lemma sorted_last: "sorted_wrt (<) (map f l) \<Longrightarrow> m \<in> set l \<Longrightarrow> f m \<le> f (last l)"
  for f :: "'a \<Rightarrow> uint64"
  by (induction l) (auto simp: less_imp_le)

lemma get_stackmap_loop_correct:
  assumes "sorted_wrt (<) (map sm_pc maps)"
  shows "get_stackmap_loop pc maps prev prev =
    (if \<forall>sm\<in>set maps. pc < sm_pc sm then prev else Some (last (filter (\<lambda>sm. sm_pc sm \<le> pc) maps)))"
  using assms
proof (induction maps arbitrary: prev)
  case (Cons sm maps)
  have after: "\<forall>m\<in>set maps. sm_pc sm < sm_pc m" using Cons.prems by simp
  have none: "filter (\<lambda>sm. sm_pc sm \<le> pc) maps = []" if "pc \<le> sm_pc sm"
    using that after by (fastforce simp: filter_empty_conv)
  consider "sm_pc sm = pc" | "pc < sm_pc sm" | "sm_pc sm < pc" by fastforce
  then show ?case
  proof cases
    case 1
    then show ?thesis using none by simp
  next
    case 2
    then show ?thesis using after by fastforce
  next
    case 3
    have "filter (\<lambda>sm. sm_pc sm \<le> pc) maps = [] \<longleftrightarrow> (\<forall>m\<in>set maps. pc < sm_pc m)"
      by (auto simp: filter_empty_conv not_le)
    moreover have "sm_pc sm \<le> pc" "\<not> pc < sm_pc sm" "sm_pc sm \<noteq> pc" using 3 by auto
    ultimately show ?thesis using Cons.IH [of "Some sm"] Cons.prems by simp
  qed
qed simp

text \<open>C32: The bitmap builder implements a finite set of bit offsets: a new builder is empty, setting
  an offset below \<open>2^34\<close> returns after growing the buffer and inserts or removes exactly that
  offset, \<open>SetRange\<close> does so for a range, \<open>Maximum\<close> and \<open>Minimum\<close> are the extreme elements
  or -1, and setting a negative offset never returns.\<close>

theorem bitmap_refines_set:
  assumes "bm_wf bm"
  shows "bm_wf BitmapBuilder \<and> bits BitmapBuilder = {} \<and> (Get bm i \<longleftrightarrow> i \<in> bits bm) \<and>
    (0 \<le> i \<and> i < 2 ^ 34 \<longrightarrow> (\<exists>bm'. Set bm i v = Some bm' \<and> bm_wf bm' \<and>
       bits bm' = (if v then insert i (bits bm) else bits bm - {i}))) \<and>
    (i < 0 \<longrightarrow> Set bm i v = None) \<and>
    (0 \<le> i \<and> j < 2 ^ 34 \<longrightarrow> (\<exists>bm'. SetRange bm i j v = Some bm' \<and> bm_wf bm' \<and>
       bits bm' = (if v then bits bm \<union> {i..j} else bits bm - {i..j}))) \<and>
    Maximum bm = (if bits bm = {} then - 1 else Max (bits bm)) \<and>
    Minimum bm = (if bits bm = {} then - 1 else Min (bits bm))"
proof -
  have "\<exists>bm'. SetRange bm i j v = Some bm' \<and> bm_wf bm' \<and> bits bm' = (if v then bits bm \<union> {i..j} else bits bm - {i..j})"
    if "0 \<le> i" "j < 2 ^ 34"
    using set_loop_correct [OF assms, of "[i..j]" "\<lambda>i. v"] that unfolding SetRange_def by fastforce
  then show ?thesis
    using BitmapBuilder_wf BitmapBuilder_bits Set_correct [OF assms] Set_negative Maximum_correct Minimum_correct
    by (simp add: bits_def)
qed

theorem bitmap_refines_set_witness:
  "(\<exists>bm'. Set BitmapBuilder 200 True = Some bm' \<and> bits bm' = {200}) \<and> Maximum BitmapBuilder = - 1"
proof -
  have "bits BitmapBuilder = {}" "bm_wf BitmapBuilder" using BitmapBuilder_bits BitmapBuilder_wf by blast+
  then show ?thesis using bitmap_refines_set [of BitmapBuilder 200 True] by fastforce
qed

text \<open>C33: A stack map made from a builder marks exactly the offsets of the builder, whatever the
  allocated memory contained, and replicating it into another builder makes the two builders
  equal as sets, except that a stack map without objects leaves the builder as it was.\<close>

theorem stackmap_replicates_bitmap:
  assumes "bm_wf bm" "bm_wf src" "length memory = nat (size_in_bytes src)"
  shows "(\<forall>i\<ge>0. IsObject (Stackmap_New memory pc src) i \<longleftrightarrow> i \<in> bits src) \<and>
    (\<exists>bm'. SetBits bm (Stackmap_New memory pc src) = Some bm' \<and> bm_wf bm' \<and>
       bits bm' = (if bits src = {} then bits bm else bits src))"
  using Stackmap_New_IsObject [OF assms(2,3)] SetBits_correct [OF assms] by blast

theorem stackmap_replicates_bitmap_witness:
  "\<exists>bm'. SetBits BitmapBuilder (Stackmap_New (replicate 16 255) 7 BitmapBuilder) = Some bm' \<and> bits bm' = {}"
proof -
  have "length (replicate 16 255 :: uint8 list) = nat (size_in_bytes BitmapBuilder)"
    by (simp add: BitmapBuilder_def kInitialSizeInBytes_def)
  then show ?thesis
    using stackmap_replicates_bitmap [OF BitmapBuilder_wf BitmapBuilder_wf, of "replicate 16 255" 7] BitmapBuilder_bits by auto
qed

text \<open>C34: With the stack maps of a code object in increasing order of their program counters,
  \<open>GetStackmap\<close> returns the one for the given program counter if there is one and otherwise
  the closest before it, and null if there is none before it.\<close>

theorem stackmap_lookup_closest:
  assumes "sorted_wrt (<) (map sm_pc maps)"
  shows "case GetStackmap (Some maps) pc of
      None \<Rightarrow> \<forall>sm\<in>set maps. pc < sm_pc sm
    | Some sm \<Rightarrow> sm \<in> set maps \<and> sm_pc sm \<le> pc \<and> (\<forall>m\<in>set maps. sm_pc m \<le> pc \<longrightarrow> sm_pc m \<le> sm_pc sm)"
proof (cases "\<forall>sm\<in>set maps. pc < sm_pc sm")
  case False
  let ?l = "filter (\<lambda>sm. sm_pc sm \<le> pc) maps"
  have "?l \<noteq> []" using False by (auto simp: filter_empty_conv not_less)
  then have "last ?l \<in> set ?l" by (rule last_in_set)
  moreover have "sorted_wrt (<) (map sm_pc ?l)" using assms by (induction maps) auto
  then have "sm_pc m \<le> sm_pc (last ?l)" if "m \<in> set ?l" for m using that by (rule sorted_last)
  ultimately show ?thesis
    using False get_stackmap_loop_correct [OF assms, of pc None] by (simp add: GetStackmap_def)
qed (use get_stackmap_loop_correct [OF assms, of pc None] in \<open>simp add: GetStackmap_def\<close>)

theorem stackmap_lookup_closest_witness:
  "\<exists>sm. GetStackmap (Some [Stackmap_New [] 4 BitmapBuilder, Stackmap_New [] 9 BitmapBuilder]) 8 = Some sm \<and> sm_pc sm = 4"
proof -
  let ?maps = "[Stackmap_New [] 4 BitmapBuilder, Stackmap_New [] 9 BitmapBuilder]"
  have pc: "sm_pc (Stackmap_New m p b) = p" for m p b using copy_loop_fields by (simp add: Stackmap_New_def Let_def)
  then have "sorted_wrt (<) (map sm_pc ?maps)" by simp
  then show ?thesis using stackmap_lookup_closest [of ?maps 8] pc by (cases "GetStackmap (Some ?maps) 8") auto
qed

end
