(* ===== verification/Token.thy ===== *)
theory Token
  imports Dart_Prelude
begin

text \<open>
  The tokens of the Dart language (\<open>runtime/vm/token.h\<close> and \<open>token.cc\<close>): the enumeration of the
  kinds of tokens, the tables that the macro lists generate, and the classification of
  kinds. A kind is its value in the enumeration, since the code compares kinds by order and
  indexes tables with them; \<open>kNumTokens\<close> bounds the values.
\<close>

datatype Kind = Kind (kind_value: nat)

abbreviation (input) kEOS :: Kind where "kEOS \<equiv> Kind 0"
abbreviation (input) kLPAREN :: Kind where "kLPAREN \<equiv> Kind 1"
abbreviation (input) kRPAREN :: Kind where "kRPAREN \<equiv> Kind 2"
abbreviation (input) kLBRACK :: Kind where "kLBRACK \<equiv> Kind 3"
abbreviation (input) kRBRACK :: Kind where "kRBRACK \<equiv> Kind 4"
abbreviation (input) kLBRACE :: Kind where "kLBRACE \<equiv> Kind 5"
abbreviation (input) kRBRACE :: Kind where "kRBRACE \<equiv> Kind 6"
abbreviation (input) kARROW :: Kind where "kARROW \<equiv> Kind 7"
abbreviation (input) kCOLON :: Kind where "kCOLON \<equiv> Kind 8"
abbreviation (input) kSEMICOLON :: Kind where "kSEMICOLON \<equiv> Kind 9"
abbreviation (input) kPERIOD :: Kind where "kPERIOD \<equiv> Kind 10"
abbreviation (input) kINCR :: Kind where "kINCR \<equiv> Kind 11"
abbreviation (input) kDECR :: Kind where "kDECR \<equiv> Kind 12"
abbreviation (input) kASSIGN :: Kind where "kASSIGN \<equiv> Kind 13"
abbreviation (input) kASSIGN_OR :: Kind where "kASSIGN_OR \<equiv> Kind 14"
abbreviation (input) kASSIGN_XOR :: Kind where "kASSIGN_XOR \<equiv> Kind 15"
abbreviation (input) kASSIGN_AND :: Kind where "kASSIGN_AND \<equiv> Kind 16"
abbreviation (input) kASSIGN_SHL :: Kind where "kASSIGN_SHL \<equiv> Kind 17"
abbreviation (input) kASSIGN_SHR :: Kind where "kASSIGN_SHR \<equiv> Kind 18"
abbreviation (input) kASSIGN_ADD :: Kind where "kASSIGN_ADD \<equiv> Kind 19"
abbreviation (input) kASSIGN_SUB :: Kind where "kASSIGN_SUB \<equiv> Kind 20"
abbreviation (input) kASSIGN_MUL :: Kind where "kASSIGN_MUL \<equiv> Kind 21"
abbreviation (input) kASSIGN_TRUNCDIV :: Kind where "kASSIGN_TRUNCDIV \<equiv> Kind 22"
abbreviation (input) kASSIGN_DIV :: Kind where "kASSIGN_DIV \<equiv> Kind 23"
abbreviation (input) kASSIGN_MOD :: Kind where "kASSIGN_MOD \<equiv> Kind 24"
abbreviation (input) kCOMMA :: Kind where "kCOMMA \<equiv> Kind 25"
abbreviation (input) kOR :: Kind where "kOR \<equiv> Kind 26"
abbreviation (input) kAND :: Kind where "kAND \<equiv> Kind 27"
abbreviation (input) kBIT_OR :: Kind where "kBIT_OR \<equiv> Kind 28"
abbreviation (input) kBIT_XOR :: Kind where "kBIT_XOR \<equiv> Kind 29"
abbreviation (input) kBIT_AND :: Kind where "kBIT_AND \<equiv> Kind 30"
abbreviation (input) kBIT_NOT :: Kind where "kBIT_NOT \<equiv> Kind 31"
abbreviation (input) kSHL :: Kind where "kSHL \<equiv> Kind 32"
abbreviation (input) kSHR :: Kind where "kSHR \<equiv> Kind 33"
abbreviation (input) kADD :: Kind where "kADD \<equiv> Kind 34"
abbreviation (input) kSUB :: Kind where "kSUB \<equiv> Kind 35"
abbreviation (input) kTIGHTADD :: Kind where "kTIGHTADD \<equiv> Kind 36"
abbreviation (input) kMUL :: Kind where "kMUL \<equiv> Kind 37"
abbreviation (input) kDIV :: Kind where "kDIV \<equiv> Kind 38"
abbreviation (input) kTRUNCDIV :: Kind where "kTRUNCDIV \<equiv> Kind 39"
abbreviation (input) kMOD :: Kind where "kMOD \<equiv> Kind 40"
abbreviation (input) kNOT :: Kind where "kNOT \<equiv> Kind 41"
abbreviation (input) kCONDITIONAL :: Kind where "kCONDITIONAL \<equiv> Kind 42"
abbreviation (input) kEQ :: Kind where "kEQ \<equiv> Kind 43"
abbreviation (input) kNE :: Kind where "kNE \<equiv> Kind 44"
abbreviation (input) kEQ_STRICT :: Kind where "kEQ_STRICT \<equiv> Kind 45"
abbreviation (input) kNE_STRICT :: Kind where "kNE_STRICT \<equiv> Kind 46"
abbreviation (input) kLT :: Kind where "kLT \<equiv> Kind 47"
abbreviation (input) kGT :: Kind where "kGT \<equiv> Kind 48"
abbreviation (input) kLTE :: Kind where "kLTE \<equiv> Kind 49"
abbreviation (input) kGTE :: Kind where "kGTE \<equiv> Kind 50"
abbreviation (input) kISNOT :: Kind where "kISNOT \<equiv> Kind 51"
abbreviation (input) kINDEX :: Kind where "kINDEX \<equiv> Kind 52"
abbreviation (input) kASSIGN_INDEX :: Kind where "kASSIGN_INDEX \<equiv> Kind 53"
abbreviation (input) kIDENT :: Kind where "kIDENT \<equiv> Kind 54"
abbreviation (input) kSTRING :: Kind where "kSTRING \<equiv> Kind 55"
abbreviation (input) kINTEGER :: Kind where "kINTEGER \<equiv> Kind 56"
abbreviation (input) kDOUBLE :: Kind where "kDOUBLE \<equiv> Kind 57"
abbreviation (input) kINTERPOL_VAR :: Kind where "kINTERPOL_VAR \<equiv> Kind 58"
abbreviation (input) kINTERPOL_START :: Kind where "kINTERPOL_START \<equiv> Kind 59"
abbreviation (input) kINTERPOL_END :: Kind where "kINTERPOL_END \<equiv> Kind 60"
abbreviation (input) kWHITESP :: Kind where "kWHITESP \<equiv> Kind 61"
abbreviation (input) kERROR :: Kind where "kERROR \<equiv> Kind 62"
abbreviation (input) kILLEGAL :: Kind where "kILLEGAL \<equiv> Kind 63"
abbreviation (input) kSCRIPTTAG :: Kind where "kSCRIPTTAG \<equiv> Kind 64"
abbreviation (input) kLIBRARY :: Kind where "kLIBRARY \<equiv> Kind 65"
abbreviation (input) kIMPORT :: Kind where "kIMPORT \<equiv> Kind 66"
abbreviation (input) kSOURCE :: Kind where "kSOURCE \<equiv> Kind 67"
abbreviation (input) kRESOURCE :: Kind where "kRESOURCE \<equiv> Kind 68"
abbreviation (input) kABSTRACT :: Kind where "kABSTRACT \<equiv> Kind 69"
abbreviation (input) kASSERT :: Kind where "kASSERT \<equiv> Kind 70"
abbreviation (input) kBREAK :: Kind where "kBREAK \<equiv> Kind 71"
abbreviation (input) kCASE :: Kind where "kCASE \<equiv> Kind 72"
abbreviation (input) kCATCH :: Kind where "kCATCH \<equiv> Kind 73"
abbreviation (input) kCLASS :: Kind where "kCLASS \<equiv> Kind 74"
abbreviation (input) kCONST :: Kind where "kCONST \<equiv> Kind 75"
abbreviation (input) kCONTINUE :: Kind where "kCONTINUE \<equiv> Kind 76"
abbreviation (input) kDEFAULT :: Kind where "kDEFAULT \<equiv> Kind 77"
abbreviation (input) kDO :: Kind where "kDO \<equiv> Kind 78"
abbreviation (input) kELSE :: Kind where "kELSE \<equiv> Kind 79"
abbreviation (input) kEXTENDS :: Kind where "kEXTENDS \<equiv> Kind 80"
abbreviation (input) kFACTORY :: Kind where "kFACTORY \<equiv> Kind 81"
abbreviation (input) kFALSE :: Kind where "kFALSE \<equiv> Kind 82"
abbreviation (input) kFINAL :: Kind where "kFINAL \<equiv> Kind 83"
abbreviation (input) kFINALLY :: Kind where "kFINALLY \<equiv> Kind 84"
abbreviation (input) kFOR :: Kind where "kFOR \<equiv> Kind 85"
abbreviation (input) kGET :: Kind where "kGET \<equiv> Kind 86"
abbreviation (input) kIF :: Kind where "kIF \<equiv> Kind 87"
abbreviation (input) kIMPLEMENTS :: Kind where "kIMPLEMENTS \<equiv> Kind 88"
abbreviation (input) kIN :: Kind where "kIN \<equiv> Kind 89"
abbreviation (input) kINTERFACE :: Kind where "kINTERFACE \<equiv> Kind 90"
abbreviation (input) kIS :: Kind where "kIS \<equiv> Kind 91"
abbreviation (input) kNEGATE :: Kind where "kNEGATE \<equiv> Kind 92"
abbreviation (input) kNEW :: Kind where "kNEW \<equiv> Kind 93"
abbreviation (input) kNULL :: Kind where "kNULL \<equiv> Kind 94"
abbreviation (input) kOPERATOR :: Kind where "kOPERATOR \<equiv> Kind 95"
abbreviation (input) kRETURN :: Kind where "kRETURN \<equiv> Kind 96"
abbreviation (input) kSET :: Kind where "kSET \<equiv> Kind 97"
abbreviation (input) kSTATIC :: Kind where "kSTATIC \<equiv> Kind 98"
abbreviation (input) kSUPER :: Kind where "kSUPER \<equiv> Kind 99"
abbreviation (input) kSWITCH :: Kind where "kSWITCH \<equiv> Kind 100"
abbreviation (input) kTHIS :: Kind where "kTHIS \<equiv> Kind 101"
abbreviation (input) kTHROW :: Kind where "kTHROW \<equiv> Kind 102"
abbreviation (input) kTRUE :: Kind where "kTRUE \<equiv> Kind 103"
abbreviation (input) kTRY :: Kind where "kTRY \<equiv> Kind 104"
abbreviation (input) kTYPEDEF :: Kind where "kTYPEDEF \<equiv> Kind 105"
abbreviation (input) kVAR :: Kind where "kVAR \<equiv> Kind 106"
abbreviation (input) kVOID :: Kind where "kVOID \<equiv> Kind 107"
abbreviation (input) kWHILE :: Kind where "kWHILE \<equiv> Kind 108"

definition kNumTokens :: nat where "kNumTokens = 109"

instantiation Kind :: linorder
begin

definition less_eq_Kind :: "Kind \<Rightarrow> Kind \<Rightarrow> bool" where
  "k \<le> l \<longleftrightarrow> kind_value k \<le> kind_value l"

definition less_Kind :: "Kind \<Rightarrow> Kind \<Rightarrow> bool" where
  "k < l \<longleftrightarrow> kind_value k < kind_value l"

instance
  by standard (auto simp: less_eq_Kind_def less_Kind_def Kind.expand)

end

datatype Attribute = kNoAttribute | kKeyword | kPseudoKeyword

type_synonym token_row = "Kind \<times> string \<times> nat \<times> Attribute"

definition DART_TOKEN_LIST :: "token_row list" where
  "DART_TOKEN_LIST =
     [(kEOS, '''', 0, kNoAttribute), (kLPAREN, ''('', 0, kNoAttribute), (kRPAREN, '')'', 0, kNoAttribute),
      (kLBRACK, ''['', 0, kNoAttribute), (kRBRACK, '']'', 0, kNoAttribute), (kLBRACE, ''{'', 0, kNoAttribute),
      (kRBRACE, ''}'', 0, kNoAttribute), (kARROW, ''=>'', 0, kNoAttribute), (kCOLON, '':'', 0, kNoAttribute),
      (kSEMICOLON, '';'', 0, kNoAttribute), (kPERIOD, ''.'', 0, kNoAttribute), (kINCR, ''++'', 0, kNoAttribute),
      (kDECR, ''--'', 0, kNoAttribute), (kASSIGN, ''='', 2, kNoAttribute), (kASSIGN_OR, ''|='', 2, kNoAttribute),
      (kASSIGN_XOR, ''^='', 2, kNoAttribute), (kASSIGN_AND, ''&='', 2, kNoAttribute), (kASSIGN_SHL, ''<<='', 2, kNoAttribute),
      (kASSIGN_SHR, ''>>='', 2, kNoAttribute), (kASSIGN_ADD, ''+='', 2, kNoAttribute), (kASSIGN_SUB, ''-='', 2, kNoAttribute),
      (kASSIGN_MUL, ''*='', 2, kNoAttribute), (kASSIGN_TRUNCDIV, ''~/='', 2, kNoAttribute), (kASSIGN_DIV, ''/='', 2, kNoAttribute),
      (kASSIGN_MOD, ''%='', 2, kNoAttribute), (kCOMMA, '','', 1, kNoAttribute), (kOR, ''||'', 4, kNoAttribute),
      (kAND, ''&&'', 5, kNoAttribute), (kBIT_OR, ''|'', 6, kNoAttribute), (kBIT_XOR, ''^'', 7, kNoAttribute),
      (kBIT_AND, ''&'', 8, kNoAttribute), (kBIT_NOT, ''~'', 0, kNoAttribute), (kSHL, ''<<'', 11, kNoAttribute),
      (kSHR, ''>>'', 11, kNoAttribute), (kADD, ''+'', 12, kNoAttribute), (kSUB, ''-'', 12, kNoAttribute),
      (kTIGHTADD, ''+'', 12, kNoAttribute), (kMUL, ''*'', 13, kNoAttribute), (kDIV, ''/'', 13, kNoAttribute),
      (kTRUNCDIV, ''~/'', 13, kNoAttribute), (kMOD, ''%'', 13, kNoAttribute), (kNOT, ''!'', 0, kNoAttribute),
      (kCONDITIONAL, ''?'', 3, kNoAttribute), (kEQ, ''=='', 9, kNoAttribute), (kNE, ''!='', 9, kNoAttribute),
      (kEQ_STRICT, ''==='', 9, kNoAttribute), (kNE_STRICT, ''!=='', 9, kNoAttribute), (kLT, ''<'', 10, kNoAttribute),
      (kGT, ''>'', 10, kNoAttribute), (kLTE, ''<='', 10, kNoAttribute), (kGTE, ''>='', 10, kNoAttribute),
      (kISNOT, '''', 0, kNoAttribute), (kINDEX, ''[]'', 0, kNoAttribute), (kASSIGN_INDEX, ''[]='', 0, kNoAttribute),
      (kIDENT, '''', 0, kNoAttribute), (kSTRING, '''', 0, kNoAttribute), (kINTEGER, '''', 0, kNoAttribute),
      (kDOUBLE, '''', 0, kNoAttribute), (kINTERPOL_VAR, '''', 0, kNoAttribute), (kINTERPOL_START, '''', 0, kNoAttribute),
      (kINTERPOL_END, '''', 0, kNoAttribute), (kWHITESP, '''', 0, kNoAttribute), (kERROR, '''', 0, kNoAttribute),
      (kILLEGAL, '''', 0, kNoAttribute), (kSCRIPTTAG, ''#!'', 0, kNoAttribute), (kLIBRARY, ''#library'', 0, kNoAttribute),
      (kIMPORT, ''#import'', 0, kNoAttribute), (kSOURCE, ''#source'', 0, kNoAttribute), (kRESOURCE, ''#resource'', 0, kNoAttribute)]"

definition DART_KEYWORD_LIST :: "token_row list" where
  "DART_KEYWORD_LIST =
     [(kABSTRACT, ''abstract'', 0, kPseudoKeyword), (kASSERT, ''assert'', 0, kPseudoKeyword), (kBREAK, ''break'', 0, kKeyword),
      (kCASE, ''case'', 0, kKeyword), (kCATCH, ''catch'', 0, kKeyword), (kCLASS, ''class'', 0, kKeyword),
      (kCONST, ''const'', 0, kKeyword), (kCONTINUE, ''continue'', 0, kKeyword), (kDEFAULT, ''default'', 0, kKeyword),
      (kDO, ''do'', 0, kKeyword), (kELSE, ''else'', 0, kKeyword), (kEXTENDS, ''extends'', 0, kKeyword),
      (kFACTORY, ''factory'', 0, kPseudoKeyword), (kFALSE, ''false'', 0, kKeyword), (kFINAL, ''final'', 0, kKeyword),
      (kFINALLY, ''finally'', 0, kKeyword), (kFOR, ''for'', 0, kKeyword), (kGET, ''get'', 0, kPseudoKeyword),
      (kIF, ''if'', 0, kKeyword), (kIMPLEMENTS, ''implements'', 0, kPseudoKeyword), (kIN, ''in'', 0, kKeyword),
      (kINTERFACE, ''interface'', 0, kPseudoKeyword), (kIS, ''is'', 10, kKeyword), (kNEGATE, ''negate'', 0, kPseudoKeyword),
      (kNEW, ''new'', 0, kKeyword), (kNULL, ''null'', 0, kKeyword), (kOPERATOR, ''operator'', 0, kPseudoKeyword),
      (kRETURN, ''return'', 0, kKeyword), (kSET, ''set'', 0, kPseudoKeyword), (kSTATIC, ''static'', 0, kPseudoKeyword),
      (kSUPER, ''super'', 0, kKeyword), (kSWITCH, ''switch'', 0, kKeyword), (kTHIS, ''this'', 0, kKeyword),
      (kTHROW, ''throw'', 0, kKeyword), (kTRUE, ''true'', 0, kKeyword), (kTRY, ''try'', 0, kKeyword),
      (kTYPEDEF, ''typedef'', 0, kPseudoKeyword), (kVAR, ''var'', 0, kKeyword), (kVOID, ''void'', 0, kKeyword),
      (kWHILE, ''while'', 0, kKeyword)]"

definition tok_str :: "string list" where
  "tok_str = map (\<lambda>(t, s, p, a). s) (DART_TOKEN_LIST @ DART_KEYWORD_LIST)"

definition precedence :: "nat list" where
  "precedence = map (\<lambda>(t, s, p, a). p) (DART_TOKEN_LIST @ DART_KEYWORD_LIST)"

definition attributes :: "Attribute list" where
  "attributes = map (\<lambda>(t, s, p, a). a) (DART_TOKEN_LIST @ DART_KEYWORD_LIST)"

definition Str :: "Kind \<Rightarrow> string" where "Str tok = tok_str ! kind_value tok"
definition Precedence :: "Kind \<Rightarrow> nat" where "Precedence tok = precedence ! kind_value tok"
definition Attributes :: "Kind \<Rightarrow> Attribute" where "Attributes tok = attributes ! kind_value tok"

definition kFirstKeyword :: Kind where "kFirstKeyword = kABSTRACT"
definition kLastKeyword :: Kind where "kLastKeyword = kWHILE"
definition numKeywords :: nat where "numKeywords = kind_value kWHILE - kind_value kABSTRACT + 1"

definition IsAssignmentOperator :: "Kind \<Rightarrow> bool" where
  "IsAssignmentOperator tok \<longleftrightarrow> kASSIGN \<le> tok \<and> tok \<le> kASSIGN_MOD"

definition IsRelationalOperator :: "Kind \<Rightarrow> bool" where
  "IsRelationalOperator tok \<longleftrightarrow> kLT \<le> tok \<and> tok \<le> kGTE"

definition IsEqualityOperator :: "Kind \<Rightarrow> bool" where
  "IsEqualityOperator tok \<longleftrightarrow> kEQ \<le> tok \<and> tok \<le> kNE_STRICT"

definition IsInstanceofOperator :: "Kind \<Rightarrow> bool" where
  "IsInstanceofOperator tok \<longleftrightarrow> tok = kIS \<or> tok = kISNOT"

definition IsPseudoKeyword :: "Kind \<Rightarrow> bool" where
  "IsPseudoKeyword tok \<longleftrightarrow> Attributes tok = kPseudoKeyword"

definition IsKeyword :: "Kind \<Rightarrow> bool" where
  "IsKeyword tok \<longleftrightarrow> Attributes tok = kKeyword"

definition IsIdentifier :: "Kind \<Rightarrow> bool" where
  "IsIdentifier tok \<longleftrightarrow> tok = kIDENT \<or> IsPseudoKeyword tok"

definition CanBeOverloaded :: "Kind \<Rightarrow> bool" where
  "CanBeOverloaded tok \<longleftrightarrow>
     IsRelationalOperator tok \<or> tok = kEQ \<or> tok \<ge> kADD \<and> tok \<le> kMOD \<or> tok \<ge> kBIT_OR \<and> tok \<le> kSHR \<or>
     tok = kINDEX \<or> tok = kASSIGN_INDEX \<or> tok = kNEGATE"

definition NeedsLiteralToken :: "Kind \<Rightarrow> bool" where
  "NeedsLiteralToken tok \<longleftrightarrow>
     tok = kINTEGER \<or> tok = kSTRING \<or> tok = kINTERPOL_VAR \<or> tok = kERROR \<or> tok = kDOUBLE"

subsection \<open>The tables\<close>

definition token_rows :: "token_row list" where
  "token_rows = DART_TOKEN_LIST @ DART_KEYWORD_LIST"

lemma token_rows_kinds: "map fst token_rows = map Kind [0..<kNumTokens]"
  unfolding token_rows_def DART_TOKEN_LIST_def DART_KEYWORD_LIST_def kNumTokens_def by code_simp

lemma token_row_nth:
  assumes "kind_value k < kNumTokens"
  shows "token_rows ! kind_value k = (k, Str k, Precedence k, Attributes k)"
proof -
  have len: "length token_rows = kNumTokens" using arg_cong [OF token_rows_kinds, of length] by simp
  have "fst (token_rows ! kind_value k) = k"
    using arg_cong [OF token_rows_kinds, of "\<lambda>l. l ! kind_value k"] assms len by simp
  then show ?thesis using assms len
    by (cases "token_rows ! kind_value k")
      (simp add: Str_def Precedence_def Attributes_def tok_str_def precedence_def attributes_def token_rows_def [symmetric] del: map_append)
qed

lemma all_tokens:
  assumes "list_all (\<lambda>(k, s, p, a). Q k s p a) token_rows" "kind_value k < kNumTokens"
  shows "Q k (Str k) (Precedence k) (Attributes k)"
proof -
  have "length token_rows = kNumTokens" using arg_cong [OF token_rows_kinds, of length] by simp
  then have "token_rows ! kind_value k \<in> set token_rows" using assms(2) by simp
  then show ?thesis using assms(1) token_row_nth [OF assms(2)] by (auto simp: list_all_iff)
qed

text \<open>C40: The enumeration and its tables fit together: the contiguous block of assignment
  operators is exactly the kinds of precedence 2, that of equality operators exactly those
  of precedence 9, and that of relational operators exactly those of precedence 10 other
  than \<open>kIS\<close>, which stands among the keywords; the contiguous block of keywords is exactly the
  kinds with the attribute of a keyword or a pseudo keyword; and a kind that can be
  overloaded is spelled with characters in the table.\<close>

theorem token_blocks_match_tables:
  assumes "kind_value tok < kNumTokens"
  shows "(IsAssignmentOperator tok \<longleftrightarrow> Precedence tok = 2) \<and>
    (IsEqualityOperator tok \<longleftrightarrow> Precedence tok = 9) \<and>
    (IsRelationalOperator tok \<longleftrightarrow> Precedence tok = 10 \<and> tok \<noteq> kIS) \<and> Precedence kIS = 10 \<and>
    (IsKeyword tok \<or> IsPseudoKeyword tok \<longleftrightarrow> kFirstKeyword \<le> tok \<and> tok \<le> kLastKeyword) \<and>
    (CanBeOverloaded tok \<longrightarrow> Str tok \<noteq> [])"
proof -
  have "list_all (\<lambda>(k, s, p, a). (IsAssignmentOperator k \<longleftrightarrow> p = 2) \<and> (IsEqualityOperator k \<longleftrightarrow> p = 9) \<and>
      (IsRelationalOperator k \<longleftrightarrow> p = 10 \<and> k \<noteq> kIS) \<and>
      (a = kKeyword \<or> a = kPseudoKeyword \<longleftrightarrow> kFirstKeyword \<le> k \<and> k \<le> kLastKeyword) \<and>
      (CanBeOverloaded k \<longrightarrow> s \<noteq> [])) token_rows"
    by code_simp
  from all_tokens [OF this assms] have "(IsAssignmentOperator tok \<longleftrightarrow> Precedence tok = 2) \<and>
      (IsEqualityOperator tok \<longleftrightarrow> Precedence tok = 9) \<and> (IsRelationalOperator tok \<longleftrightarrow> Precedence tok = 10 \<and> tok \<noteq> kIS) \<and>
      (IsKeyword tok \<or> IsPseudoKeyword tok \<longleftrightarrow> kFirstKeyword \<le> tok \<and> tok \<le> kLastKeyword) \<and>
      (CanBeOverloaded tok \<longrightarrow> Str tok \<noteq> [])"
    by (simp add: IsKeyword_def IsPseudoKeyword_def)
  moreover have "Precedence kIS = 10" by code_simp
  ultimately show ?thesis by blast
qed

theorem token_blocks_match_tables_witness:
  "Precedence kASSIGN_SHL = 2 \<and> IsAssignmentOperator kASSIGN_SHL \<and> \<not> IsRelationalOperator kIS \<and> Precedence kLTE = 10"
proof -
  have "kind_value kASSIGN_SHL < kNumTokens" "IsAssignmentOperator kASSIGN_SHL" "kind_value kIS < kNumTokens"
      "kind_value kLTE < kNumTokens" "IsRelationalOperator kLTE" by code_simp+
  then show ?thesis
    using token_blocks_match_tables [of kASSIGN_SHL] token_blocks_match_tables [of kIS] token_blocks_match_tables [of kLTE] by blast
qed

end
