(* ===== verification/Scanner.thy ===== *)
theory Scanner
  imports Token Dart_Utils
begin

text \<open>
  The scanner of Dart source text (\<open>runtime/vm/scanner.h\<close> and \<open>scanner.cc\<close>): the lookahead
  machinery with its normalisation of line ends, every token class, string literals with
  nested interpolation, and the whole-text operations \<open>ScanAll\<close>, \<open>ScanTo\<close> and
  \<open>TokenIndexAtLine\<close>.

  The source is the list of its characters (\<open>int32_t\<close> code points); positions, lines,
  columns and brace levels are integers, which the length of a source keeps far from the
  limits of \<open>int\<close>. A symbol is the list of its characters. The loops are options, with
  \<open>None\<close> for a loop that does not end; the failing of an assertion of \<open>PopContext\<close>
  is also \<open>None\<close>.
\<close>

subsection \<open>State\<close>

type_synonym scan_text = "int list"

abbreviation chars :: "string \<Rightarrow> scan_text" where
  "chars \<equiv> map of_char"

record source_position =
  pos_line :: int
  pos_column :: int

record token_descriptor =
  tk_kind :: Kind
  tk_offset :: int
  tk_length :: int
  tk_position :: source_position
  tk_literal :: "scan_text option"

record scan_context =
  ctx_delimiter :: int
  ctx_multiline :: bool
  ctx_brace_level :: int

record scanner =
  current_token :: token_descriptor
  source :: scan_text
  lookahead_pos :: int
  token_start :: int
  c0 :: int
  newline_seen :: bool
  saved_context :: "scan_context list"
  string_delimiter :: int
  string_is_multiline :: bool
  brace_level :: int
  private_key :: scan_text
  disable_privacy :: bool
  c0_pos :: source_position

definition source_length :: "scanner \<Rightarrow> int" where
  "source_length s = int (length (source s))"

definition kPrivateIdentifierStart :: int where "kPrivateIdentifierStart = code CHR ''_''"

definition set_kind :: "Kind \<Rightarrow> scanner \<Rightarrow> scanner" where
  "set_kind kind s = s\<lparr>current_token := (current_token s)\<lparr>tk_kind := kind\<rparr>\<rparr>"

definition set_literal :: "scan_text option \<Rightarrow> scanner \<Rightarrow> scanner" where
  "set_literal literal s = s\<lparr>current_token := (current_token s)\<lparr>tk_literal := literal\<rparr>\<rparr>"

definition ErrorMsg :: "scan_text \<Rightarrow> scanner \<Rightarrow> scanner" where
  "ErrorMsg msg s =
     s\<lparr>current_token := (current_token s)\<lparr>tk_kind := kERROR, tk_literal := Some msg,
         tk_position := c0_pos s, tk_offset := lookahead_pos s\<rparr>,
       token_start := lookahead_pos s\<rparr>"

definition PushContext :: "scanner \<Rightarrow> scanner" where
  "PushContext s =
     s\<lparr>saved_context := \<lparr>ctx_delimiter = string_delimiter s, ctx_multiline = string_is_multiline s,
         ctx_brace_level = brace_level s\<rparr> # saved_context s,
       string_delimiter := 0, string_is_multiline := False, brace_level := 1\<rparr>"

definition PopContext :: "scanner \<Rightarrow> scanner option" where
  "PopContext s =
     (case saved_context s of
        [] \<Rightarrow> None
      | ctx # contexts \<Rightarrow>
          if brace_level s = 0 \<and> string_delimiter s = 0 \<and> ctx_delimiter ctx \<noteq> 0
          then Some (s\<lparr>saved_context := contexts, string_delimiter := ctx_delimiter ctx,
            string_is_multiline := ctx_multiline ctx, brace_level := ctx_brace_level ctx\<rparr>)
          else None)"

definition IsScanningString :: "scanner \<Rightarrow> bool" where
  "IsScanningString s \<longleftrightarrow> string_delimiter s \<noteq> 0"

definition IsNestedContext :: "scanner \<Rightarrow> bool" where
  "IsNestedContext s \<longleftrightarrow> saved_context s \<noteq> []"

definition BeginStringLiteral :: "int \<Rightarrow> scanner \<Rightarrow> scanner" where
  "BeginStringLiteral delimiter s = s\<lparr>string_delimiter := delimiter\<rparr>"

definition EndStringLiteral :: "scanner \<Rightarrow> scanner" where
  "EndStringLiteral s = s\<lparr>string_delimiter := 0, string_is_multiline := False\<rparr>"

subsection \<open>Character classes\<close>

definition IsLetter :: "int \<Rightarrow> bool" where
  "IsLetter c \<longleftrightarrow> code CHR ''A'' \<le> c \<and> c \<le> code CHR ''Z'' \<or> code CHR ''a'' \<le> c \<and> c \<le> code CHR ''z''"

definition IsDecimalDigit :: "int \<Rightarrow> bool" where
  "IsDecimalDigit c \<longleftrightarrow> code CHR ''0'' \<le> c \<and> c \<le> code CHR ''9''"

definition IsNumberStart :: "int \<Rightarrow> bool" where
  "IsNumberStart ch \<longleftrightarrow> IsDecimalDigit ch \<or> ch = code CHR ''.''"

definition IsHexDigit :: "int \<Rightarrow> bool" where
  "IsHexDigit c \<longleftrightarrow> IsDecimalDigit c \<or> code CHR ''A'' \<le> c \<and> c \<le> code CHR ''F'' \<or>
     code CHR ''a'' \<le> c \<and> c \<le> code CHR ''f''"

definition IsIdentStartChar :: "int \<Rightarrow> bool" where
  "IsIdentStartChar c \<longleftrightarrow> IsLetter c \<or> c = code CHR ''_'' \<or> c = code CHR ''$''"

definition IsIdentChar :: "int \<Rightarrow> bool" where
  "IsIdentChar c \<longleftrightarrow> IsLetter c \<or> IsDecimalDigit c \<or> c = code CHR ''_'' \<or> c = code CHR ''$''"

text \<open>A one-byte string has characters below 256.\<close>

definition IsIdent :: "scan_text \<Rightarrow> bool" where
  "IsIdent str \<longleftrightarrow> list_all (\<lambda>c. 0 \<le> c \<and> c < 256) str \<and> str \<noteq> [] \<and> IsIdentStartChar (hd str) \<and>
     list_all IsIdentChar (tl str)"

subsection \<open>Reading characters\<close>

definition CharAt :: "scanner \<Rightarrow> int \<Rightarrow> int" where
  "CharAt s i = source s ! nat i"

definition LookaheadChar :: "int \<Rightarrow> scanner \<Rightarrow> int" where
  "LookaheadChar how_many s =
     (if lookahead_pos s + how_many < source_length s then CharAt s (lookahead_pos s + how_many) else 0)"

definition ReadChar :: "scanner \<Rightarrow> scanner" where
  "ReadChar s =
     (if lookahead_pos s < source_length s
      then
        let s = (if c0 s = code CHR 0x0A
                 then
                   let s = s\<lparr>newline_seen := True, c0_pos := \<lparr>pos_line = pos_line (c0_pos s) + 1, pos_column = 0\<rparr>\<rparr>
                   in if CharAt s (lookahead_pos s) = code CHR 0x0D \<and> LookaheadChar 1 s = code CHR 0x0A
                      then s\<lparr>lookahead_pos := lookahead_pos s + 1\<rparr>
                      else s
                 else s);
            s = s\<lparr>lookahead_pos := lookahead_pos s + 1,
                  c0_pos := (c0_pos s)\<lparr>pos_column := pos_column (c0_pos s) + 1\<rparr>\<rparr>;
            c = LookaheadChar 0 s
        in s\<lparr>c0 := (if c = code CHR 0x0D then code CHR 0x0A else c)\<rparr>
      else s)"

definition Reset :: "scanner \<Rightarrow> scanner" where
  "Reset s =
     ReadChar (s\<lparr>lookahead_pos := - 1, token_start := 0, c0 := 0, newline_seen := False, saved_context := [],
       string_delimiter := 0, string_is_multiline := False, brace_level := 0,
       c0_pos := \<lparr>pos_line = 1, pos_column = 0\<rparr>\<rparr>)"

definition Recognize :: "Kind \<Rightarrow> scanner \<Rightarrow> scanner" where
  "Recognize kind s = set_kind kind (ReadChar s)"

text \<open>The loops \<open>while (condition on c0_) ReadChar();\<close> of the source.\<close>

partial_function (option) read_while :: "(int \<Rightarrow> bool) \<Rightarrow> scanner \<Rightarrow> scanner option" where
  [code]: "read_while cond s = (if cond (c0 s) then read_while cond (ReadChar s) else Some s)"

definition ConsumeWhiteSpace :: "scanner \<Rightarrow> scanner option" where
  "ConsumeWhiteSpace = read_while (\<lambda>c. c = code CHR '' '' \<or> c = code CHR 0x09 \<or> c = code CHR 0x0A)"

definition ConsumeLineComment :: "scanner \<Rightarrow> scanner option" where
  "ConsumeLineComment s =
     map_option (\<lambda>s. set_kind kWHITESP (ReadChar s)) (read_while (\<lambda>c. c \<noteq> code CHR 0x0A \<and> c \<noteq> 0) s)"

text \<open>\<open>const char c = c0_\<close> truncates the character to eight bits.\<close>

definition to_char :: "int \<Rightarrow> int" where
  "to_char c = (if c mod 256 < 128 then c mod 256 else c mod 256 - 256)"

partial_function (option) block_comment_loop :: "int \<Rightarrow> scanner \<Rightarrow> (int \<times> scanner) option" where
  [code]: "block_comment_loop nesting_level s =
     (let c = to_char (c0 s);
          s = ReadChar s
      in if c0 s = 0 then Some (nesting_level, s)
         else if c = code CHR ''/'' \<and> c0 s = code CHR ''*''
              then block_comment_loop (nesting_level + 1) (ReadChar s)
         else if c = code CHR ''*'' \<and> c0 s = code CHR ''/''
              then
                if nesting_level - 1 = 0 then Some (nesting_level - 1, ReadChar s)
                else block_comment_loop (nesting_level - 1) (ReadChar s)
         else block_comment_loop nesting_level s)"

definition ConsumeBlockComment :: "scanner \<Rightarrow> scanner option" where
  "ConsumeBlockComment s =
     map_option (\<lambda>(nesting_level, s). set_kind (if nesting_level = 0 then kWHITESP else kILLEGAL) s)
       (block_comment_loop 1 (ReadChar s))"

definition SkipLine :: "scanner \<Rightarrow> scanner option" where
  "SkipLine = read_while (\<lambda>c. c \<noteq> code CHR 0x0A \<and> c \<noteq> 0)"

subsection \<open>Identifiers, numbers and library tags\<close>

definition NewSymbol :: "scanner \<Rightarrow> int \<Rightarrow> int \<Rightarrow> scan_text" where
  "NewSymbol s pos len = take (nat len) (drop (nat pos) (source s))"

definition keyword_table :: "(Kind \<times> scan_text) list" where
  "keyword_table = map (\<lambda>i. let token = Kind (kind_value kFirstKeyword + i) in (token, chars (Str token))) [0..<numKeywords]"

partial_function (option) ident_loop :: "bool \<Rightarrow> int \<Rightarrow> scanner \<Rightarrow> (int \<times> scanner) option" where
  [code]: "ident_loop allow_dollar ident_length s =
     (if IsIdentChar (c0 s) \<and> (allow_dollar \<or> c0 s \<noteq> code CHR ''$'')
      then ident_loop allow_dollar (ident_length + 1) (ReadChar s)
      else Some (ident_length, s))"

function match_loop :: "scanner \<Rightarrow> scan_text \<Rightarrow> int \<Rightarrow> int \<Rightarrow> int \<Rightarrow> int" where
  "match_loop s keyword ident_pos ident_length char_pos =
     (if char_pos < ident_length \<and> keyword ! nat char_pos = CharAt s (ident_pos + char_pos)
      then match_loop s keyword ident_pos ident_length (char_pos + 1)
      else char_pos)"
  by pat_completeness auto
termination
  by (relation "measure (\<lambda>(s, keyword, ident_pos, ident_length, char_pos). nat (ident_length - char_pos))") auto

declare match_loop.simps [simp del]

fun keyword_loop :: "scanner \<Rightarrow> int \<Rightarrow> int \<Rightarrow> int \<Rightarrow> (Kind \<times> scan_text) list \<Rightarrow> (Kind \<times> scan_text) option" where
  "keyword_loop s ident_pos ident_length ident_char0 [] = None"
| "keyword_loop s ident_pos ident_length ident_char0 ((kind, keyword) # kws) =
     (if keyword ! 0 \<le> ident_char0
      then
        if int (length keyword) = ident_length \<and> match_loop s keyword ident_pos ident_length 0 = ident_length
        then Some (kind, keyword)
        else keyword_loop s ident_pos ident_length ident_char0 kws
      else None)"

definition ScanIdentChars :: "bool \<Rightarrow> scanner \<Rightarrow> scanner option" where
  "ScanIdentChars allow_dollar s =
     (let ident_pos = lookahead_pos s;
          ident_char0 = CharAt s ident_pos
      in map_option (\<lambda>(ident_length, s).
           case keyword_loop s ident_pos ident_length ident_char0 keyword_table of
             Some (kind, symbol) \<Rightarrow> set_kind kind (set_literal (Some symbol) s)
           | None \<Rightarrow>
               let literal = NewSymbol s ident_pos ident_length;
                   literal = (if ident_char0 = kPrivateIdentifierStart \<and> \<not> disable_privacy s
                              then literal @ private_key s else literal)
               in set_literal (Some literal) (set_kind kIDENT s))
         (ident_loop allow_dollar 0 s))"

definition number_literal :: "scanner \<Rightarrow> scanner" where
  "number_literal s =
     (if tk_kind (current_token s) \<noteq> kILLEGAL
      then set_literal (Some (NewSymbol s (token_start s) (lookahead_pos s - token_start s))) s
      else s)"

definition ScanNumber :: "bool \<Rightarrow> scanner \<Rightarrow> scanner option" where
  "ScanNumber dec_point_seen s =
     (let first_digit = c0 s;
          s = Recognize (if dec_point_seen then kDOUBLE else kINTEGER) s
      in if \<not> dec_point_seen \<and> first_digit = code CHR ''0'' \<and> (c0 s = code CHR ''x'' \<or> c0 s = code CHR ''X'')
         then
           let s = ReadChar s
           in if \<not> IsHexDigit (c0 s) then Some (ErrorMsg (chars ''hexadecimal digit expected'') s)
              else map_option number_literal (read_while IsHexDigit s)
         else
           Option.bind (read_while IsDecimalDigit s) (\<lambda>s.
           Option.bind
             (if c0 s = code CHR ''.'' \<and> \<not> dec_point_seen \<and> IsDecimalDigit (LookaheadChar 1 s)
              then read_while IsDecimalDigit (Recognize kDOUBLE s) else Some s) (\<lambda>s.
           if c0 s = code CHR ''e'' \<or> c0 s = code CHR ''E''
           then
             let s = Recognize kDOUBLE s;
                 s = (if c0 s = code CHR ''-'' \<or> c0 s = code CHR ''+'' then ReadChar s else s)
             in if \<not> IsDecimalDigit (c0 s) then Some (ErrorMsg (chars ''missing exponent digits'') s)
                else map_option number_literal (read_while IsDecimalDigit s)
           else if IsIdentStartChar (c0 s) then Some (ErrorMsg (chars ''illegal character in number'') s)
           else Some (number_literal s))))"

definition ConsumeIdentChars :: "bool \<Rightarrow> scanner \<Rightarrow> (scan_text \<times> scanner) option" where
  "ConsumeIdentChars allow_dollar s =
     map_option (\<lambda>(ident_length, s'). (NewSymbol s' (lookahead_pos s) ident_length, s')) (ident_loop allow_dollar 0 s)"

definition ScanLibraryTag :: "scanner \<Rightarrow> scanner option" where
  "ScanLibraryTag s =
     (let s = ReadChar s
      in if c0 s = code CHR ''!'' then SkipLine (Recognize kSCRIPTTAG s)
         else if \<not> IsLetter (c0 s) then SkipLine (ErrorMsg (chars ''Unrecognized library tag'') s)
         else Option.bind (ConsumeIdentChars False s) (\<lambda>(ident, s).
           if ident = chars ''library'' then Some (set_kind kLIBRARY s)
           else if ident = chars ''import'' then Some (set_kind kIMPORT s)
           else if ident = chars ''source'' then Some (set_kind kSOURCE s)
           else if ident = chars ''resource'' then Some (set_kind kRESOURCE s)
           else SkipLine (ErrorMsg (chars ''Unrecognized library token'') s)))"

subsection \<open>String literals\<close>

definition HexDigitToInt32 :: "int \<Rightarrow> uint32" where
  "HexDigitToInt32 c = word_of_int (HexDigitToInt (char_of c))"

fun fixed_hex_loop :: "nat \<Rightarrow> uint32 \<Rightarrow> scanner \<Rightarrow> bool \<times> uint32 \<times> scanner" where
  "fixed_hex_loop 0 value s = (True, value, s)"
| "fixed_hex_loop (Suc n) value s =
     (let s = ReadChar s
      in if \<not> IsHexDigit (c0 s) then (False, value, ErrorMsg (chars ''too few hexadecimal digits'') s)
         else fixed_hex_loop n (push_bit 4 value OR HexDigitToInt32 (c0 s)) s)"

definition ScanHexDigits :: "nat \<Rightarrow> scanner \<Rightarrow> bool \<times> uint32 \<times> scanner" where
  "ScanHexDigits digits s = fixed_hex_loop digits 0 s"

fun hex_loop :: "nat list \<Rightarrow> nat \<Rightarrow> uint32 \<Rightarrow> scanner \<Rightarrow> bool \<times> uint32 \<times> scanner" where
  "hex_loop [] min_digits value s = (True, value, s)"
| "hex_loop (i # js) min_digits value s =
     (if \<not> IsHexDigit (c0 s)
      then if i < min_digits then (False, value, ErrorMsg (chars ''hexadecimal digit expected'') s) else (True, value, s)
      else hex_loop js min_digits (push_bit 4 value OR HexDigitToInt32 (c0 s)) (ReadChar s))"

definition ScanHexDigits_range :: "nat \<Rightarrow> nat \<Rightarrow> scanner \<Rightarrow> bool \<times> uint32 \<times> scanner" where
  "ScanHexDigits_range min_digits max_digits s = hex_loop [0..<max_digits] min_digits 0 (ReadChar s)"

definition ScanEscapedCodePoint :: "scanner \<Rightarrow> bool \<times> uint32 \<times> scanner" where
  "ScanEscapedCodePoint s =
     (if c0 s = code CHR ''x'' then ScanHexDigits 2 s
      else if c0 s = code CHR ''u'' \<and> LookaheadChar 1 s \<noteq> code CHR ''{'' then ScanHexDigits 4 s
      else
        let (is_valid, code_point, s) = ScanHexDigits_range 1 6 (ReadChar s)
        in if is_valid
           then
             if c0 s \<noteq> code CHR ''}''
             then (False, code_point, ErrorMsg (chars ''expected '' @ code CHR 0x27 # chars ''}'' @ code CHR 0x27 # chars '' after character code'') s)
             else if code_point > 0x10FFFF then (False, code_point, ErrorMsg (chars ''invalid code point'') s)
             else (True, code_point, s)
           else (False, code_point, s))"

definition string_token :: "scan_text \<Rightarrow> scanner \<Rightarrow> scanner" where
  "string_token string_chars s = set_literal (Some string_chars) s"

definition unterminated :: "scanner \<Rightarrow> scanner" where
  "unterminated s = EndStringLiteral (ErrorMsg (chars ''unterminated string literal'') s)"

text \<open>The simple escape sequences of the \<open>switch\<close>.\<close>

definition simple_escape :: "int \<Rightarrow> int option" where
  "simple_escape c =
     (if c = code CHR ''n'' then Some 10 else if c = code CHR ''r'' then Some 13
      else if c = code CHR ''f'' then Some 12 else if c = code CHR ''t'' then Some 9
      else if c = code CHR ''b'' then Some 8 else if c = code CHR ''v'' then Some 11 else None)"

partial_function (option) string_loop :: "bool \<Rightarrow> scan_text \<Rightarrow> scanner \<Rightarrow> scanner option" where
  [code]: "string_loop is_raw string_chars s =
     (if c0 s = 0 \<or> c0 s = code CHR 0x0A \<and> \<not> string_is_multiline s then Some (unterminated s)
      else if c0 s = code CHR 0x5C \<and> \<not> is_raw
      then
        let s = ReadChar s
        in case simple_escape (c0 s) of
             Some escape_char \<Rightarrow> string_loop is_raw (string_chars @ [escape_char]) (ReadChar s)
           | None \<Rightarrow>
               if c0 s = code CHR ''u'' \<or> c0 s = code CHR ''x''
               then
                 let (is_valid, escape_char, s) = ScanEscapedCodePoint s
                 in if \<not> is_valid then Some (EndStringLiteral s)
                    else string_loop is_raw (string_chars @ [uint escape_char]) (ReadChar s)
               else if c0 s = 0 \<or> c0 s = code CHR 0x0A \<and> \<not> string_is_multiline s then Some (unterminated s)
               else string_loop is_raw (string_chars @ [c0 s]) (ReadChar s)
      else if c0 s = code CHR ''$'' \<and> \<not> is_raw
      then Some (set_kind kSTRING (string_token string_chars s))
      else if c0 s = string_delimiter s
      then
        if \<not> string_is_multiline s \<or>
           LookaheadChar 1 s = string_delimiter s \<and> LookaheadChar 2 s = string_delimiter s
        then
          let s = (if string_is_multiline s then ReadChar (ReadChar s) else s)
          in Some (EndStringLiteral (string_token string_chars (Recognize kSTRING s)))
        else string_loop is_raw (string_chars @ [string_delimiter s]) (ReadChar s)
      else string_loop is_raw (string_chars @ [c0 s]) (ReadChar s))"

definition ScanLiteralStringChars :: "bool \<Rightarrow> scanner \<Rightarrow> scanner option" where
  "ScanLiteralStringChars is_raw s = string_loop is_raw [] s"

definition ScanLiteralString :: "bool \<Rightarrow> scanner \<Rightarrow> scanner option" where
  "ScanLiteralString is_raw s =
     (let s = BeginStringLiteral (c0 s) s;
          s = s\<lparr>string_is_multiline := LookaheadChar 1 s = c0 s \<and> LookaheadChar 2 s = c0 s\<rparr>;
          s = ReadChar s;
          s = (if string_is_multiline s
               then let s = ReadChar (ReadChar s) in if c0 s = code CHR 0x0A then ReadChar s else s
               else s)
      in ScanLiteralStringChars is_raw s)"

subsection \<open>One token\<close>

fun hex_digits :: "nat \<Rightarrow> string" where
  "hex_digits n =
     (if n < 16 then [''0123456789abcdef'' ! n] else hex_digits (n div 16) @ [''0123456789abcdef'' ! (n mod 16)])"

declare hex_digits.simps [simp del]

text \<open>The symbol for the text that \<open>OS::SNPrint\<close> makes from \<open>%c\<close> and \<open>%02x\<close>. The first writes
  one byte: a null byte ends the text, and a byte from 0x80 on makes it malformed UTF-8, for
  which \<open>String::NewSymbol\<close> takes characters from memory that was not written, so that the
  literal is not determined (\<open>None\<close>).\<close>

definition unexpected_character :: "int \<Rightarrow> scan_text option" where
  "unexpected_character c =
     (let prefix = chars ''unexpected character: '';
          byte = c mod 256
      in if byte = 0 then Some prefix
         else if byte < 0x80
              then Some (prefix @ [byte] @ chars ''  ('' @
                (let h = hex_digits (nat c) in chars (if length h < 2 then CHR ''0'' # h else h)) @ chars '')'' @ [10])
         else None)"

definition ScanOperator :: "scanner \<Rightarrow> scanner" where
  "ScanOperator s =
     (if c0 s = code CHR ''+'' then
        let s = ReadChar s;
            s = set_kind (if IsNumberStart (c0 s) then kTIGHTADD else kADD) s
        in if c0 s = code CHR ''+'' then Recognize kINCR s
           else if c0 s = code CHR ''='' then Recognize kASSIGN_ADD s else s
      else if c0 s = code CHR ''-'' then
        let s = Recognize kSUB s
        in if c0 s = code CHR ''-'' then Recognize kDECR s
           else if c0 s = code CHR ''='' then Recognize kASSIGN_SUB s else s
      else if c0 s = code CHR ''*'' then
        let s = Recognize kMUL s
        in if c0 s = code CHR ''='' then Recognize kASSIGN_MUL s else s
      else if c0 s = code CHR ''%'' then
        let s = Recognize kMOD s
        in if c0 s = code CHR ''='' then Recognize kASSIGN_MOD s else s
      else if c0 s = code CHR ''&'' then
        let s = Recognize kBIT_AND s
        in if c0 s = code CHR ''='' then Recognize kASSIGN_AND s
           else if c0 s = code CHR ''&'' then Recognize kAND s else s
      else if c0 s = code CHR ''|'' then
        let s = Recognize kBIT_OR s
        in if c0 s = code CHR ''='' then Recognize kASSIGN_OR s
           else if c0 s = code CHR ''|'' then Recognize kOR s else s
      else if c0 s = code CHR ''^'' then
        let s = Recognize kBIT_XOR s
        in if c0 s = code CHR ''='' then Recognize kASSIGN_XOR s else s
      else if c0 s = code CHR ''['' then
        let s = Recognize kLBRACK s
        in if c0 s = code CHR '']'' then
             let s = Recognize kINDEX s
             in if c0 s = code CHR ''='' then Recognize kASSIGN_INDEX s else s
           else s
      else if c0 s = code CHR '']'' then Recognize kRBRACK s
      else if c0 s = code CHR ''<'' then
        let s = Recognize kLT s
        in if c0 s = code CHR ''='' then Recognize kLTE s
           else if c0 s = code CHR ''<'' then
             let s = Recognize kSHL s
             in if c0 s = code CHR ''='' then Recognize kASSIGN_SHL s else s
           else s
      else if c0 s = code CHR ''>'' then
        let s = Recognize kGT s
        in if c0 s = code CHR ''='' then Recognize kGTE s
           else if c0 s = code CHR ''>'' then
             let s = Recognize kSHR s
             in if c0 s = code CHR ''='' then Recognize kASSIGN_SHR s else s
           else s
      else if c0 s = code CHR ''!'' then
        let s = Recognize kNOT s
        in if c0 s = code CHR ''='' then
             let s = Recognize kNE s
             in if c0 s = code CHR ''='' then Recognize kNE_STRICT s else s
           else s
      else if c0 s = code CHR ''~'' then
        let s = Recognize kBIT_NOT s
        in if c0 s = code CHR ''/'' then
             let s = Recognize kTRUNCDIV s
             in if c0 s = code CHR ''='' then Recognize kASSIGN_TRUNCDIV s else s
           else s
      else if c0 s = code CHR ''='' then
        let s = Recognize kASSIGN s
        in if c0 s = code CHR ''='' then
             let s = Recognize kEQ s
             in if c0 s = code CHR ''='' then Recognize kEQ_STRICT s else s
           else if c0 s = code CHR ''>'' then Recognize kARROW s else s
      else if c0 s = code CHR ''?'' then Recognize kCONDITIONAL s
      else if c0 s = code CHR '':'' then Recognize kCOLON s
      else if c0 s = code CHR '';'' then Recognize kSEMICOLON s
      else if c0 s = code CHR ''('' then Recognize kLPAREN s
      else if c0 s = code CHR '')'' then Recognize kRPAREN s
      else if c0 s = code CHR '','' then Recognize kCOMMA s
      else s)"

definition ScanSlash :: "scanner \<Rightarrow> scanner option" where
  "ScanSlash s =
     (let s = Recognize kDIV s
      in if c0 s = code CHR ''/'' then ConsumeLineComment s
         else if c0 s = code CHR ''*'' then ConsumeBlockComment s
         else if c0 s = code CHR ''='' then Some (Recognize kASSIGN_DIV s) else Some s)"

text \<open>The cases of the \<open>switch\<close> that read an operator or a punctuation mark are \<open>ScanOperator\<close>
  and \<open>ScanSlash\<close>; since the cases exclude each other, their order does not matter.\<close>

definition operator_chars :: scan_text where
  "operator_chars = chars ''+-*%&|^[]<>!~=?:;(),''"

definition ScanToken :: "scanner \<Rightarrow> scanner option" where
  "ScanToken s =
     (if c0 s = 0 then Some (set_kind kEOS s)
      else if c0 s \<in> set operator_chars then Some (ScanOperator s)
      else if c0 s = code CHR ''/'' then ScanSlash s
      else if c0 s = code CHR ''.'' then
        let s = Recognize kPERIOD s
        in if IsDecimalDigit (c0 s) then ScanNumber True s else Some s
      else if c0 s = code CHR ''{'' then
        let s = Recognize kLBRACE s
        in Some (if IsNestedContext s then s\<lparr>brace_level := brace_level s + 1\<rparr> else s)
      else if c0 s = code CHR ''}'' then
        let s = Recognize kRBRACE s
        in if IsNestedContext s
           then
             let s = s\<lparr>brace_level := brace_level s - 1\<rparr>
             in if brace_level s = 0 then PopContext (set_kind kINTERPOL_END s) else Some s
           else Some s
      else if c0 s = code CHR ''@'' then
        let s = Recognize kILLEGAL s
        in if c0 s = code CHR 0x22 \<or> c0 s = code CHR 0x27 then ScanLiteralString True s else Some s
      else if c0 s = code CHR 0x22 \<or> c0 s = code CHR 0x27 then ScanLiteralString False s
      else if c0 s = code CHR ''#'' then ScanLibraryTag s
      else if IsIdentStartChar (c0 s) then ScanIdentChars True s
      else if IsDecimalDigit (c0 s) then ScanNumber False s
      else Some (ReadChar (set_literal (unexpected_character (c0 s)) (ErrorMsg [] s))))"

definition ScanStringPiece :: "scanner \<Rightarrow> scanner option" where
  "ScanStringPiece s =
     (if c0 s = code CHR ''$''
      then
        let s = ReadChar s
        in if IsIdentStartChar (c0 s) \<and> c0 s \<noteq> code CHR ''$''
           then map_option (set_kind kINTERPOL_VAR) (ScanIdentChars False s)
           else if c0 s = code CHR ''{'' then Some (PushContext (Recognize kINTERPOL_START s))
           else Some (EndStringLiteral (ErrorMsg (chars ''illegal character after $ in string interpolation'') s))
      else ScanLiteralStringChars False s)"

definition start_token :: "scanner \<Rightarrow> scanner" where
  "start_token s =
     s\<lparr>token_start := lookahead_pos s,
       current_token := (current_token s)\<lparr>tk_offset := lookahead_pos s, tk_position := c0_pos s,
         tk_literal := None, tk_kind := kILLEGAL\<rparr>\<rparr>"

partial_function (option) scan_loop :: "scanner \<Rightarrow> scanner option" where
  [code]: "scan_loop s =
     Option.bind (if \<not> IsScanningString s then ConsumeWhiteSpace s else Some s) (\<lambda>s.
       let s = start_token s
       in if IsScanningString s then ScanStringPiece s
          else Option.bind (ScanToken s) (\<lambda>s.
            if tk_kind (current_token s) = kWHITESP then scan_loop s else Some s))"

definition Scan :: "scanner \<Rightarrow> scanner option" where
  "Scan s =
     map_option (\<lambda>s. s\<lparr>current_token := (current_token s)\<lparr>tk_length := lookahead_pos s - token_start s\<rparr>\<rparr>)
       (scan_loop (s\<lparr>newline_seen := False\<rparr>))"

subsection \<open>The whole text\<close>

definition new_scanner :: "scan_text \<Rightarrow> scan_text \<Rightarrow> bool \<Rightarrow> scanner" where
  "new_scanner src key flag =
     Reset \<lparr>current_token = \<lparr>tk_kind = kEOS, tk_offset = 0, tk_length = 0,
         tk_position = \<lparr>pos_line = 0, pos_column = 0\<rparr>, tk_literal = None\<rparr>,
       source = src, lookahead_pos = 0, token_start = 0, c0 = 0, newline_seen = False, saved_context = [],
       string_delimiter = 0, string_is_multiline = False, brace_level = 0, private_key = key,
       disable_privacy = flag, c0_pos = \<lparr>pos_line = 0, pos_column = 0\<rparr>\<rparr>"

partial_function (option) scan_all_loop :: "token_descriptor list \<Rightarrow> scanner \<Rightarrow> (token_descriptor list \<times> scanner) option" where
  [code]: "scan_all_loop token_stream s =
     Option.bind (Scan s) (\<lambda>s.
       let token_stream = token_stream @ [current_token s]
       in if tk_kind (current_token s) \<noteq> kEOS then scan_all_loop token_stream s else Some (token_stream, s))"

definition ScanAll :: "scanner \<Rightarrow> (token_descriptor list \<times> scanner) option" where
  "ScanAll s = scan_all_loop [] (Reset s)"

partial_function (option) scan_to_loop :: "int \<Rightarrow> int \<Rightarrow> scanner \<Rightarrow> scanner option" where
  [code]: "scan_to_loop token_index index s =
     Option.bind (Scan s) (\<lambda>s.
       let index = index + 1
       in if token_index \<ge> index \<and> tk_kind (current_token s) \<noteq> kEOS then scan_to_loop token_index index s else Some s)"

definition ScanTo :: "int \<Rightarrow> scanner \<Rightarrow> scanner option" where
  "ScanTo token_index s = scan_to_loop token_index 0 (Reset s)"

partial_function (option) token_index_loop :: "int \<Rightarrow> int \<Rightarrow> scanner \<Rightarrow> (int \<times> scanner) option" where
  [code]: "token_index_loop line_number token_index s =
     Option.bind (Scan s) (\<lambda>s.
       if pos_line (tk_position (current_token s)) \<ge> line_number then Some (token_index, s)
       else
         let token_index = token_index + 1
         in if tk_kind (current_token s) \<noteq> kEOS then token_index_loop line_number token_index s else Some (- 1, s))"

definition TokenIndexAtLine :: "int \<Rightarrow> scanner \<Rightarrow> (int \<times> scanner) option" where
  "TokenIndexAtLine line_number s = token_index_loop line_number 0 (Reset s)"

end
