(* ===== verification/Scanner_Reads.thy ===== *)
theory Scanner_Reads
  imports Scanner
begin

text \<open>
  The invariant of the scanner's lookahead: the current character and its line and column are
  those of the position in the source. Every routine that reads characters keeps it, moves
  forward, and keeps the start of the current token with its position; the collection
  \<open>scans_intro\<close> carries these facts through the branches of the scanner.
\<close>

named_theorems scans_intro \<open>what a routine of the scanner keeps\<close>

subsection \<open>Positions in the source\<close>

definition line_end :: "scan_text \<Rightarrow> nat \<Rightarrow> bool" where
  "line_end src i \<longleftrightarrow> src ! i = 10 \<or> src ! i = 13 \<and> \<not> (i + 1 < length src \<and> src ! (i + 1) = 10)"

fun line_of :: "scan_text \<Rightarrow> nat \<Rightarrow> int" where
  "line_of src 0 = 1"
| "line_of src (Suc p) = line_of src p + (if line_end src p then 1 else 0)"

fun column_of :: "scan_text \<Rightarrow> nat \<Rightarrow> int" where
  "column_of src 0 = 1"
| "column_of src (Suc p) = (if line_end src p then 1 else column_of src p + 1)"

definition position_of :: "scan_text \<Rightarrow> int \<Rightarrow> source_position" where
  "position_of src p = \<lparr>pos_line = line_of src (nat p), pos_column = column_of src (nat p)\<rparr>"

definition norm :: "int \<Rightarrow> int" where
  "norm c = (if c = 13 then 10 else c)"

definition char_at :: "scan_text \<Rightarrow> int \<Rightarrow> int" where
  "char_at src p = (if p < int (length src) then src ! nat p else 0)"

definition at_char :: "scanner \<Rightarrow> bool" where
  "at_char s \<longleftrightarrow> 0 \<le> lookahead_pos s \<and> lookahead_pos s \<le> source_length s \<and>
     c0 s = norm (char_at (source s) (lookahead_pos s)) \<and>
     c0_pos s = position_of (source s) (lookahead_pos s)"

definition advance :: "scanner \<Rightarrow> int" where
  "advance s = (if c0 s = 10 \<and> char_at (source s) (lookahead_pos s) = 13 \<and> char_at (source s) (lookahead_pos s + 1) = 10
     then 2 else 1)"

lemma LookaheadChar_eq: "LookaheadChar n s = char_at (source s) (lookahead_pos s + n)"
  by (simp add: LookaheadChar_def char_at_def source_length_def CharAt_def)

lemma norm_eq_0: "norm c = 0 \<longleftrightarrow> c = 0"
  by (simp add: norm_def)

lemma at_char_inside: "at_char s \<Longrightarrow> c0 s \<noteq> 0 \<Longrightarrow> lookahead_pos s < source_length s"
  by (auto simp: at_char_def char_at_def norm_def source_length_def split: if_splits)

subsection \<open>What reading a character changes\<close>

definition mode :: "scanner \<Rightarrow> scan_context list \<times> int \<times> bool \<times> int" where
  "mode s = (saved_context s, string_delimiter s, string_is_multiline s, brace_level s)"

lemma ReadChar_frame [simp]:
  "source (ReadChar s) = source s" "current_token (ReadChar s) = current_token s"
  "token_start (ReadChar s) = token_start s" "private_key (ReadChar s) = private_key s"
  "disable_privacy (ReadChar s) = disable_privacy s" "saved_context (ReadChar s) = saved_context s"
  "string_delimiter (ReadChar s) = string_delimiter s" "string_is_multiline (ReadChar s) = string_is_multiline s"
  "brace_level (ReadChar s) = brace_level s"
  by (simp_all add: ReadChar_def Let_def)

lemma ReadChar_end: "\<not> lookahead_pos s < source_length s \<Longrightarrow> ReadChar s = s"
  by (simp add: ReadChar_def)

lemma ReadChar_inside:
  assumes "0 \<le> lookahead_pos s" "lookahead_pos s < source_length s"
  shows "lookahead_pos (ReadChar s) = lookahead_pos s + advance s"
    and "c0 (ReadChar s) = norm (char_at (source s) (lookahead_pos s + advance s))"
    and "c0_pos (ReadChar s) = (if c0 s = 10 then \<lparr>pos_line = pos_line (c0_pos s) + 1, pos_column = 1\<rparr>
          else (c0_pos s)\<lparr>pos_column := pos_column (c0_pos s) + 1\<rparr>)"
  using assms
  by (simp_all add: ReadChar_def Let_def LookaheadChar_eq advance_def norm_def CharAt_def char_at_def source_length_def add.commute)

lemma position_of_Suc:
  assumes "0 \<le> p"
  shows "position_of src (p + 1) =
    (if line_end src (nat p) then \<lparr>pos_line = pos_line (position_of src p) + 1, pos_column = 1\<rparr>
     else (position_of src p)\<lparr>pos_column := pos_column (position_of src p) + 1\<rparr>)"
  using assms by (simp add: position_of_def nat_add_distrib)

lemma line_end_iff:
  assumes "0 \<le> p" "p < int (length src)"
  shows "line_end src (nat p) \<longleftrightarrow> norm (char_at src p) = 10 \<and> \<not> (char_at src p = 13 \<and> char_at src (p + 1) = 10)"
proof -
  have "nat (p + 1) = nat p + 1" "p + 1 < int (length src) \<longleftrightarrow> nat p + 1 < length src" using assms by linarith+
  then show ?thesis using assms by (auto simp: line_end_def norm_def char_at_def)
qed

lemma at_char_ReadChar:
  assumes "at_char s"
  shows "at_char (ReadChar s)"
proof (cases "lookahead_pos s < source_length s")
  case True
  let ?p = "lookahead_pos s" and ?src = "source s"
  have p: "0 \<le> ?p" "?p < int (length ?src)" "c0 s = norm (char_at ?src ?p)" "c0_pos s = position_of ?src ?p"
    using assms True by (simp_all add: at_char_def source_length_def)
  note read = ReadChar_inside [OF p(1) True]
  show ?thesis
  proof (cases "char_at ?src ?p = 13 \<and> char_at ?src (?p + 1) = 10")
    case True
    then have adv: "advance s = 2" and p1: "?p + 1 < int (length ?src)" and c0: "c0 s = 10"
      using p(3) by (auto simp: advance_def norm_def char_at_def split: if_splits)
    have "\<not> line_end ?src (nat ?p)" "line_end ?src (nat (?p + 1))"
      using line_end_iff [of ?p ?src] line_end_iff [of "?p + 1" ?src] p(1,2) p1 True by (simp_all add: norm_def)
    then have "position_of ?src (?p + 1 + 1) = \<lparr>pos_line = pos_line (position_of ?src ?p) + 1, pos_column = 1\<rparr>"
      using position_of_Suc [of ?p ?src] position_of_Suc [of "?p + 1" ?src] p(1) by simp
    then show ?thesis using read adv p(1,4) p1 c0 by (simp add: at_char_def source_length_def add.assoc)
  next
    case False
    then have adv: "advance s = 1" by (simp add: advance_def)
    have "line_end ?src (nat ?p) \<longleftrightarrow> c0 s = 10" using line_end_iff [OF p(1,2)] False p(3) by auto
    then show ?thesis using read adv p position_of_Suc [OF p(1), of ?src] by (simp add: at_char_def source_length_def)
  qed
qed (use assms in \<open>simp add: ReadChar_end\<close>)

lemma ReadChar_le: "at_char s \<Longrightarrow> lookahead_pos s \<le> lookahead_pos (ReadChar s)"
  using ReadChar_inside(1) [of s] ReadChar_end [of s] by (cases "lookahead_pos s < source_length s") (auto simp: at_char_def advance_def)

lemma ReadChar_less: "at_char s \<Longrightarrow> c0 s \<noteq> 0 \<Longrightarrow> lookahead_pos s < lookahead_pos (ReadChar s)"
  using ReadChar_inside(1) [of s] at_char_inside [of s] by (auto simp: at_char_def advance_def)

lemma ReadChar_next:
  "at_char s \<Longrightarrow> c0 s \<noteq> 0 \<Longrightarrow> c0 s \<noteq> 10 \<Longrightarrow> lookahead_pos (ReadChar s) = lookahead_pos s + 1"
  using ReadChar_inside(1) [of s] at_char_inside [of s] by (auto simp: at_char_def advance_def)

subsection \<open>Moving forward within a token\<close>

definition tok_ok :: "scanner \<Rightarrow> bool" where
  "tok_ok s \<longleftrightarrow> 0 \<le> token_start s \<and> token_start s \<le> lookahead_pos s \<and> tk_offset (current_token s) = token_start s \<and>
     tk_position (current_token s) = position_of (source s) (token_start s) \<and> tk_kind (current_token s) \<noteq> kEOS"

definition scans :: "scanner \<Rightarrow> scanner \<Rightarrow> bool" where
  "scans s s' \<longleftrightarrow> at_char s' \<and> tok_ok s' \<and> source s' = source s \<and> lookahead_pos s \<le> lookahead_pos s' \<and>
     token_start s \<le> token_start s'"

lemma scans_refl: "at_char s \<Longrightarrow> tok_ok s \<Longrightarrow> scans s s"
  by (simp add: scans_def)

lemma scans_trans [trans]: "scans s t \<Longrightarrow> scans t u \<Longrightarrow> scans s u"
  by (simp add: scans_def)

lemma scans_ReadChar [scans_intro]: "scans s t \<Longrightarrow> scans s (ReadChar t)"
  unfolding scans_def using at_char_ReadChar [of t] ReadChar_le [of t] by (simp add: tok_ok_def)

lemma scans_kind: "scans s t \<Longrightarrow> tk_kind (current_token t) \<noteq> kEOS"
  by (simp add: scans_def tok_ok_def)

lemma scans_frame:
  assumes "scans s t" "source u = source t" "lookahead_pos u = lookahead_pos t" "c0 u = c0 t" "c0_pos u = c0_pos t"
    "token_start u = token_start t" "tk_offset (current_token u) = tk_offset (current_token t)"
    "tk_position (current_token u) = tk_position (current_token t)" "tk_kind (current_token u) \<noteq> kEOS"
  shows "scans s u"
  using assms unfolding scans_def tok_ok_def at_char_def source_length_def by auto

lemma scans_set_kind [scans_intro]: "scans s t \<Longrightarrow> k \<noteq> kEOS \<Longrightarrow> scans s (set_kind k t)"
  by (erule scans_frame) (simp_all add: set_kind_def)

lemma scans_set_literal [scans_intro]: "scans s t \<Longrightarrow> scans s (set_literal l t)"
  by (frule scans_kind, erule scans_frame) (simp_all add: set_literal_def)

lemma scans_Recognize [scans_intro]: "scans s t \<Longrightarrow> k \<noteq> kEOS \<Longrightarrow> scans s (Recognize k t)"
  unfolding Recognize_def by (intro scans_intro)

lemma scans_ErrorMsg [scans_intro]: "scans s t \<Longrightarrow> scans s (ErrorMsg m t)"
  by (auto simp: scans_def ErrorMsg_def tok_ok_def at_char_def source_length_def)

lemma scans_number_literal [scans_intro]: "scans s t \<Longrightarrow> scans s (number_literal t)"
  unfolding number_literal_def using scans_set_literal [of s t] by simp

lemma scans_at: "scans s t \<Longrightarrow> at_char t"
  by (simp add: scans_def)

lemma scans_if [scans_intro]: "(b \<Longrightarrow> scans s t) \<Longrightarrow> (\<not> b \<Longrightarrow> scans s u) \<Longrightarrow> scans s (if b then t else u)"
  by simp

lemma scans_Let [scans_intro]: "scans s (f t) \<Longrightarrow> scans s (Let t f)"
  by simp

lemma scans_string [scans_intro]:
  "scans s t \<Longrightarrow> scans s (EndStringLiteral t)" "scans s t \<Longrightarrow> scans s (BeginStringLiteral d t)"
  "scans s t \<Longrightarrow> scans s (PushContext t)" "scans s t \<Longrightarrow> scans s (t\<lparr>string_is_multiline := m\<rparr>)"
  "scans s t \<Longrightarrow> scans s (t\<lparr>brace_level := n\<rparr>)" "scans s t \<Longrightarrow> scans s (string_token cs t)"
  by (frule scans_kind, erule scans_frame; simp add: EndStringLiteral_def BeginStringLiteral_def PushContext_def string_token_def set_literal_def)+

lemma scans_unterminated [scans_intro]: "scans s t \<Longrightarrow> scans s (unterminated t)"
  unfolding unterminated_def by (intro scans_intro)

lemma mode_simps [simp]:
  "mode (ReadChar s) = mode s" "mode (set_kind k s) = mode s" "mode (set_literal l s) = mode s"
  "mode (Recognize k s) = mode s" "mode (ErrorMsg m s) = mode s" "mode (number_literal s) = mode s"
  "mode (string_token cs s) = mode s"
  by (simp_all add: mode_def set_kind_def set_literal_def Recognize_def ErrorMsg_def number_literal_def string_token_def)

subsection \<open>Reading loops\<close>

definition remaining :: "scanner \<Rightarrow> nat" where
  "remaining s = nat (source_length s - lookahead_pos s)"

lemma remaining_less:
  assumes "source t = source s" "lookahead_pos s < lookahead_pos t" "at_char t"
  shows "remaining t < remaining s"
  using assms by (simp add: remaining_def at_char_def source_length_def)

lemma remaining_ReadChar: "at_char s \<Longrightarrow> c0 s \<noteq> 0 \<Longrightarrow> remaining (ReadChar s) < remaining s"
  using remaining_less [of "ReadChar s" s] ReadChar_less [of s] at_char_ReadChar [of s] by simp

text \<open>A loop that leaves the mode of the scanner as it is and moves forward.\<close>

definition returns :: "scanner \<Rightarrow> scanner option \<Rightarrow> bool" where
  "returns s r \<longleftrightarrow> (\<exists>t. r = Some t \<and> scans s t \<and> mode t = mode s)"

lemma returns_Some [scans_intro]: "scans s t \<Longrightarrow> mode t = mode s \<Longrightarrow> returns s (Some t)"
  by (simp add: returns_def)

lemma returns_if [scans_intro]: "(b \<Longrightarrow> returns s t) \<Longrightarrow> (\<not> b \<Longrightarrow> returns s u) \<Longrightarrow> returns s (if b then t else u)"
  by simp

lemma returns_Let [scans_intro]: "returns s (f t) \<Longrightarrow> returns s (Let t f)"
  by simp

lemma returns_LetI:
  "scans r u \<Longrightarrow> mode u = mode r \<Longrightarrow> (\<And>t. scans r t \<Longrightarrow> mode t = mode r \<Longrightarrow> returns r (f t)) \<Longrightarrow> returns r (Let u f)"
  by simp

lemma returns_bind: "returns s r \<Longrightarrow> (\<And>t. scans s t \<Longrightarrow> mode t = mode s \<Longrightarrow> returns s (f t)) \<Longrightarrow> returns s (Option.bind r f)"
  by (auto simp: returns_def)

lemma returns_map: "returns s r \<Longrightarrow> (\<And>t. scans s t \<Longrightarrow> scans s (f t)) \<Longrightarrow> (\<And>t. mode (f t) = mode t) \<Longrightarrow> returns s (map_option f r)"
  by (auto simp: returns_def)

lemma read_while_reads:
  assumes "at_char s" "\<not> P 0"
  shows "\<exists>t. read_while P s = Some t \<and> at_char t \<and> mode t = mode s \<and> source t = source s \<and>
    lookahead_pos s \<le> lookahead_pos t \<and> current_token t = current_token s \<and> token_start t = token_start s"
  using assms(1)
proof (induction "remaining s" arbitrary: s rule: less_induct)
  case less
  show ?case
  proof (cases "P (c0 s)")
    case True
    then have "c0 s \<noteq> 0" using assms(2) by auto
    note less.hyps [OF remaining_ReadChar [OF less.prems this] at_char_ReadChar [OF less.prems]]
    then show ?thesis using True ReadChar_le [OF less.prems] by (subst read_while.simps) force
  next
    case False
    then show ?thesis using less.prems by (subst read_while.simps) simp
  qed
qed

lemma read_while_returns:
  assumes "scans s t" "mode t = mode s" "\<not> P 0"
  shows "returns s (read_while P t)"
  using read_while_reads [OF scans_at [OF assms(1)], of P] assms by (force simp: returns_def scans_def tok_ok_def)

lemma ReadChar_progress:
  assumes "at_char s" "c0 (ReadChar s) \<noteq> 0"
  shows "lookahead_pos s < lookahead_pos (ReadChar s)"
proof (cases "lookahead_pos s < source_length s")
  case True
  then show ?thesis using assms(1) ReadChar_inside(1) [of s] by (auto simp: at_char_def advance_def)
next
  case False
  then have "c0 s \<noteq> 0" using assms(2) by (simp add: ReadChar_end)
  then show ?thesis using False at_char_inside [OF assms(1)] by simp
qed

lemma block_comment_returns:
  assumes "scans s t" "mode t = mode s"
  shows "\<exists>n u. block_comment_loop level t = Some (n, u) \<and> scans s u \<and> mode u = mode s"
  using assms
proof (induction "remaining t" arbitrary: level t rule: less_induct)
  case less
  let ?t = "ReadChar t" and ?u = "ReadChar (ReadChar t)"
  have t: "scans s ?t" "scans s ?u" "mode ?t = mode s" "mode ?u = mode s" using less.prems by (simp_all add: scans_ReadChar)
  show ?case
  proof (cases "c0 ?t = 0")
    case True
    then show ?thesis using t by (subst block_comment_loop.simps) simp
  next
    case False
    have "remaining ?t < remaining t"
      using ReadChar_progress [OF scans_at [OF less.prems(1)] False] scans_at [OF t(1)] by (intro remaining_less) simp_all
    moreover have "remaining ?u < remaining ?t" using remaining_ReadChar [OF scans_at [OF t(1)] False] .
    ultimately have "\<exists>n u. block_comment_loop l v = Some (n, u) \<and> scans s u \<and> mode u = mode s" if "v = ?t \<or> v = ?u" for l v
      using that t by (auto intro!: less.hyps)
    then show ?thesis using t False by (subst block_comment_loop.simps) (simp add: Let_def)
  qed
qed

text \<open>The characters of an identifier are consecutive in the source.\<close>

definition ident_char :: "bool \<Rightarrow> int \<Rightarrow> bool" where
  "ident_char allow_dollar c \<longleftrightarrow> IsIdentChar c \<and> (allow_dollar \<or> c \<noteq> code CHR ''$'')"

lemma ident_char_graphic: "ident_char d c \<Longrightarrow> c \<noteq> 0 \<and> c \<noteq> 10 \<and> c \<noteq> 13"
  by (auto simp: ident_char_def IsIdentChar_def IsLetter_def IsDecimalDigit_def)

definition text_at :: "scanner \<Rightarrow> scan_text" where
  "text_at s = drop (nat (lookahead_pos s)) (source s)"

lemma c0_text_at: "at_char s \<Longrightarrow> c0 s = (case text_at s of [] \<Rightarrow> 0 | c # cs \<Rightarrow> norm c)"
  by (auto simp: at_char_def text_at_def char_at_def norm_def source_length_def hd_drop_conv_nth [symmetric] split: list.splits)

lemma text_at_ReadChar:
  assumes "at_char s" "c0 s \<noteq> 0" "c0 s \<noteq> 10"
  shows "text_at s = c0 s # text_at (ReadChar s)"
proof -
  have "nat (lookahead_pos s) < length (source s)" "0 \<le> lookahead_pos s" "c0 s = source s ! nat (lookahead_pos s)"
    using assms at_char_inside [OF assms(1,2)] by (auto simp: at_char_def source_length_def char_at_def norm_def split: if_splits)
  then show ?thesis
    using ReadChar_next [OF assms] by (simp add: text_at_def Cons_nth_drop_Suc nat_add_distrib)
qed

lemma ident_loop_correct:
  assumes "scans s t" "mode t = mode s"
  shows "\<exists>u. ident_loop d n t = Some (n + int (length (takeWhile (ident_char d) (text_at t))), u) \<and> scans s u \<and> mode u = mode s \<and>
    lookahead_pos u = lookahead_pos t + int (length (takeWhile (ident_char d) (text_at t))) \<and>
    current_token u = current_token t \<and> token_start u = token_start t \<and> private_key u = private_key t \<and>
    disable_privacy u = disable_privacy t \<and> source u = source t"
  using assms
proof (induction "remaining t" arbitrary: n t rule: less_induct)
  case less
  note at = scans_at [OF less.prems(1)]
  show ?case
  proof (cases "ident_char d (c0 t)")
    case True
    note g = ident_char_graphic [OF True]
    have "text_at t = c0 t # text_at (ReadChar t)" using text_at_ReadChar [OF at] g by simp
    moreover note less.hyps [OF remaining_ReadChar [OF at], of "n + 1"]
    ultimately show ?thesis
      using True g less.prems ReadChar_next [OF at] by (subst ident_loop.simps) (force simp: ident_char_def scans_ReadChar)
  next
    case False
    have "takeWhile (ident_char d) (text_at t) = []"
    proof (cases "text_at t")
      case (Cons c cs)
      then have "c0 t = norm c" using c0_text_at [OF at] by simp
      then have "\<not> ident_char d c" using False ident_char_graphic [of d c] by (auto simp: norm_def)
      then show ?thesis using Cons by simp
    qed simp
    then show ?thesis using False less.prems by (subst ident_loop.simps) (auto simp: ident_char_def)
  qed
qed

subsection \<open>Keywords\<close>

lemma match_loop_correct:
  assumes "0 \<le> j" "j \<le> n" "n \<le> int (length keyword)" "0 \<le> p" "p + n \<le> source_length s"
  shows "match_loop s keyword p n j = n \<longleftrightarrow>
    (\<forall>i. nat j \<le> i \<and> i < nat n \<longrightarrow> keyword ! i = source s ! (nat p + i))"
  using assms
proof (induction s keyword p n j rule: match_loop.induct)
  case (1 s keyword p n j)
  have nth: "CharAt s (p + j) = source s ! (nat p + nat j)" using 1(2,5) by (simp add: CharAt_def nat_add_distrib)
  have all: "(\<forall>i. nat j \<le> i \<and> i < nat n \<longrightarrow> Q i) \<longleftrightarrow> Q (nat j) \<and> (\<forall>i. nat (j + 1) \<le> i \<and> i < nat n \<longrightarrow> Q i)" if "j < n" for Q
  proof -
    have "nat j \<le> i \<and> i < nat n \<longleftrightarrow> i = nat j \<or> nat (j + 1) \<le> i \<and> i < nat n" for i using that 1(2) by linarith
    then show ?thesis by auto
  qed
  show ?case
  proof (cases "j < n \<and> keyword ! nat j = CharAt s (p + j)")
    case True
    then have "match_loop s keyword p n j = match_loop s keyword p n (j + 1)" by (subst match_loop.simps) simp
    then show ?thesis using 1(1) [OF True] 1(2-6) True all nth by simp
  next
    case False
    then have "match_loop s keyword p n j = j" by (subst match_loop.simps) auto
    then show ?thesis using False 1(2,3) all nth by (cases "j < n") auto
  qed
qed

lemma match_loop_word:
  assumes "n = int (length keyword)" "0 \<le> p" "p + n \<le> source_length s"
  shows "match_loop s keyword p n 0 = n \<longleftrightarrow> keyword = NewSymbol s p n"
  using match_loop_correct [of 0 n keyword p s] assms
  by (auto simp: NewSymbol_def list_eq_iff_nth_eq source_length_def)

lemma keyword_loop_correct:
  assumes "sorted (map (\<lambda>(k, w). w ! 0) kws)" "\<forall>(k, w)\<in>set kws. w \<noteq> []"
    and "0 < n" "0 \<le> p" "p + n \<le> source_length s"
  shows "keyword_loop s p n (NewSymbol s p n ! 0) kws = find (\<lambda>(k, w). w = NewSymbol s p n) kws"
  using assms(1,2)
proof (induction kws)
  case (Cons kw kws)
  obtain k w where kw: "kw = (k, w)" by fastforce
  let ?word = "NewSymbol s p n"
  have len: "length ?word = nat n" using assms(3-5) by (simp add: NewSymbol_def source_length_def)
  have IH: "keyword_loop s p n (?word ! 0) kws = find (\<lambda>(k, w). w = ?word) kws" using Cons by simp
  have same: "int (length w) = n \<and> match_loop s w p n 0 = n \<longleftrightarrow> w = ?word"
    using match_loop_word [of n w p s] assms(3-5) len by auto
  show ?case
  proof (cases "w ! 0 \<le> ?word ! 0")
    case True
    then show ?thesis using IH same by (auto simp: kw)
  next
    case False
    then have "\<forall>(k, w)\<in>set (kw # kws). w \<noteq> ?word" using Cons.prems(1) by (force simp: kw)
    then have "find (\<lambda>(k, w). w = ?word) (kw # kws) = None" by (auto simp: find_None_iff)
    then show ?thesis using False by (simp add: kw)
  qed
qed simp

lemma keyword_table_sorted:
  "sorted (map (\<lambda>(k, w). w ! 0) keyword_table)" "\<forall>(k, w)\<in>set keyword_table. w \<noteq> []"
  by code_simp+

lemma keyword_table_kinds: "\<forall>(k, w)\<in>set keyword_table. kFirstKeyword \<le> k \<and> k \<le> kLastKeyword"
  by code_simp

lemma keyword_found: "find (\<lambda>(k, w). w = v) keyword_table = Some kw \<Longrightarrow> fst kw \<noteq> kEOS"
  using keyword_table_kinds by (auto simp: find_Some_iff kFirstKeyword_def less_eq_Kind_def dest!: nth_mem)

text \<open>The word at a position, and the token it makes.\<close>

definition word_at :: "bool \<Rightarrow> scanner \<Rightarrow> scan_text" where
  "word_at d s = takeWhile (ident_char d) (text_at s)"

definition mangled :: "scanner \<Rightarrow> scan_text \<Rightarrow> scan_text" where
  "mangled s w = (if hd w = code CHR ''_'' \<and> \<not> disable_privacy s then w @ private_key s else w)"

lemma ScanIdentChars_correct:
  assumes "scans s t" "mode t = mode s" "ident_char d (c0 t)"
  shows "\<exists>u. ScanIdentChars d t = Some u \<and> scans s u \<and> mode u = mode s \<and> word_at d t \<noteq> [] \<and> token_start u = token_start t \<and>
    lookahead_pos u = lookahead_pos t + int (length (word_at d t)) \<and>
    (tk_kind (current_token u), tk_literal (current_token u)) =
      (case find (\<lambda>(k, w). w = word_at d t) keyword_table of
         Some (k, w) \<Rightarrow> (k, Some w) | None \<Rightarrow> (kIDENT, Some (mangled t (word_at d t))))"
proof -
  note at = scans_at [OF assms(1)]
  let ?w = "word_at d t" and ?p = "lookahead_pos t"
  obtain u where u: "ident_loop d 0 t = Some (int (length ?w), u)" "scans s u" "mode u = mode s"
      "lookahead_pos u = ?p + int (length ?w)" "private_key u = private_key t" "disable_privacy u = disable_privacy t" "source u = source t"
      "token_start u = token_start t"
    using ident_loop_correct [OF assms(1,2), of d 0] unfolding word_at_def by auto
  have "c0 t \<noteq> 0" "c0 t \<noteq> 10" using ident_char_graphic [OF assms(3)] by simp_all
  then have ne: "?w \<noteq> []" "hd ?w = c0 t" using text_at_ReadChar [OF at] assms(3) by (simp_all add: word_at_def)
  have p: "0 \<le> ?p" using at by (simp add: at_char_def)
  have "?p + int (length ?w) \<le> source_length u" using scans_at [OF u(2)] u(4) by (simp add: at_char_def)
  moreover have "NewSymbol u ?p (int (length ?w)) = ?w"
    using u(7) by (simp add: NewSymbol_def word_at_def text_at_def takeWhile_eq_take [symmetric])
  moreover have char0: "CharAt t ?p = ?w ! 0" "?w ! 0 = hd ?w"
    using ne at_char_inside [OF at] at ident_char_graphic [OF assms(3)]
    by (auto simp: hd_conv_nth CharAt_def at_char_def char_at_def source_length_def norm_def split: if_splits)
  ultimately have kw: "keyword_loop u ?p (int (length ?w)) (CharAt t ?p) keyword_table = find (\<lambda>(k, w). w = ?w) keyword_table"
    and sym: "NewSymbol u ?p (int (length ?w)) = ?w"
    using keyword_loop_correct [OF keyword_table_sorted, of "int (length ?w)" ?p u] ne p by simp_all
  show ?thesis
  proof (cases "find (\<lambda>(k, w). w = ?w) keyword_table")
    case None
    then show ?thesis
      using u ne kw sym char0 scans_set_literal [OF scans_set_kind [OF u(2)]]
      by (simp add: ScanIdentChars_def Let_def mangled_def kPrivateIdentifierStart_def)
        (simp add: set_literal_def set_kind_def)
  next
    case (Some kw')
    then show ?thesis
      using u ne kw scans_set_kind [OF scans_set_literal [OF u(2)]] keyword_found [OF Some]
      by (cases kw') (simp add: ScanIdentChars_def Let_def, simp add: set_literal_def set_kind_def)
  qed
qed

lemma ScanIdentChars_returns: "scans s t \<Longrightarrow> mode t = mode s \<Longrightarrow> ident_char d (c0 t) \<Longrightarrow> returns s (ScanIdentChars d t)"
  using ScanIdentChars_correct [of s t d] by (auto simp: returns_def)

subsection \<open>Comments, numbers and library tags\<close>

lemma digit_not_0: "\<not> IsDecimalDigit 0" "\<not> IsHexDigit 0"
  by (simp_all add: IsDecimalDigit_def IsHexDigit_def)

lemma SkipLine_returns [scans_intro]: "scans s t \<Longrightarrow> mode t = mode s \<Longrightarrow> returns s (SkipLine t)"
  unfolding SkipLine_def by (rule read_while_returns) simp_all

lemma ConsumeLineComment_returns [scans_intro]: "scans s t \<Longrightarrow> mode t = mode s \<Longrightarrow> returns s (ConsumeLineComment t)"
  unfolding ConsumeLineComment_def by (intro returns_map read_while_returns scans_intro) simp_all

lemma ConsumeBlockComment_returns [scans_intro]:
  assumes "scans s t" "mode t = mode s"
  shows "returns s (ConsumeBlockComment t)"
proof -
  obtain n u where "block_comment_loop 1 (ReadChar t) = Some (n, u)" "scans s u" "mode u = mode s"
    using block_comment_returns [of s "ReadChar t" 1] scans_ReadChar [OF assms(1)] assms(2) by auto
  then show ?thesis by (simp add: ConsumeBlockComment_def returns_Some scans_set_kind)
qed

lemma number_tail_returns:
  "scans s t \<Longrightarrow> mode t = mode s \<Longrightarrow> \<not> P 0 \<Longrightarrow> returns s (map_option number_literal (read_while P t))"
  by (intro returns_map read_while_returns scans_intro) simp_all

lemma ScanNumber_returns:
  assumes "scans s (ReadChar t)" "mode t = mode s"
  shows "returns s (ScanNumber d t)"
proof -
  have base: "scans s (Recognize k t)" if "k \<noteq> kEOS" for k
    using scans_set_kind [OF assms(1) that] by (simp add: Recognize_def)
  show ?thesis
    unfolding ScanNumber_def Let_def [of "c0 t"]
  proof (rule returns_LetI, goal_cases)
    case (3 u)
    then show ?case
      by (intro returns_if returns_LetI returns_bind number_tail_returns read_while_returns returns_Some scans_number_literal
          scans_ErrorMsg scans_Recognize scans_ReadChar scans_if) (simp_all add: digit_not_0)
  qed (use assms base in simp_all)
qed

lemma ScanLibraryTag_returns:
  assumes "scans s (ReadChar t)" "mode t = mode s"
  shows "returns s (ScanLibraryTag t)"
proof -
  have "\<exists>w u. ConsumeIdentChars False (ReadChar t) = Some (w, u) \<and> scans s u \<and> mode u = mode s"
    using ident_loop_correct [of s "ReadChar t" False 0] assms by (auto simp: ConsumeIdentChars_def)
  then obtain w u where u: "ConsumeIdentChars False (ReadChar t) = Some (w, u)" "scans s u" "mode u = mode s" by blast
  show ?thesis
    unfolding ScanLibraryTag_def Let_def u(1) Option.bind.bind_lunit prod.case
    using assms u(2,3) by (intro returns_if returns_Some SkipLine_returns scans_set_kind scans_ErrorMsg scans_Recognize) 
     (simp_all add: Recognize_def scans_ReadChar)
qed

subsection \<open>String literals\<close>

lemma fixed_hex_loop_scans:
  "scans s t \<Longrightarrow> mode t = mode s \<Longrightarrow> (case fixed_hex_loop n v t of (ok, v', u) \<Rightarrow> scans s u \<and> mode u = mode s)"
  by (induction n v t rule: fixed_hex_loop.induct) (auto simp: Let_def scans_ReadChar scans_ErrorMsg)

lemma hex_loop_scans:
  "scans s t \<Longrightarrow> mode t = mode s \<Longrightarrow> (case hex_loop js m v t of (ok, v', u) \<Rightarrow> scans s u \<and> mode u = mode s)"
  by (induction js m v t rule: hex_loop.induct) (auto simp: scans_ReadChar scans_ErrorMsg)

lemma ScanEscapedCodePoint_scans:
  assumes "scans s t" "mode t = mode s"
  shows "case ScanEscapedCodePoint t of (ok, v, u) \<Rightarrow> scans s u \<and> mode u = mode s"
  using fixed_hex_loop_scans [OF assms, of _ 0] hex_loop_scans [of s "ReadChar (ReadChar t)" "[0..<6]" 1 0] assms
  by (auto simp: ScanEscapedCodePoint_def ScanHexDigits_def ScanHexDigits_range_def scans_ReadChar
      scans_ErrorMsg split: prod.splits if_splits)

text \<open>Scanning a piece of a string either ends the literal, or stops at the \<open>$\<close> of an
  interpolation within the same literal.\<close>

definition piece_ends :: "scanner \<Rightarrow> scanner \<Rightarrow> bool" where
  "piece_ends s t \<longleftrightarrow> mode t = (saved_context s, 0, False, brace_level s) \<or> mode t = mode s \<and> c0 t = code CHR ''$''"

lemma mode_EndStringLiteral [simp]:
  "mode (EndStringLiteral s) = (saved_context s, 0, False, brace_level s)"
  "mode (unterminated s) = (saved_context s, 0, False, brace_level s)"
  by (simp_all add: mode_def EndStringLiteral_def unterminated_def ErrorMsg_def)

lemma mode_eqD: "mode t = mode s \<Longrightarrow> saved_context t = saved_context s \<and> brace_level t = brace_level s"
  by (simp add: mode_def)

lemma string_loop_returns:
  assumes "scans s t" "mode t = mode s"
  shows "\<exists>u. string_loop is_raw cs t = Some u \<and> scans s u \<and> piece_ends s u"
  using assms
proof (induction "remaining t" arbitrary: cs t rule: less_induct)
  case less
  note at = scans_at [OF less.prems(1)]
  note ctx = mode_eqD [OF less.prems(2)]
  show ?case
  proof (cases "c0 t = 0 \<or> c0 t = 10 \<and> \<not> string_is_multiline t")
    case True
    then show ?thesis using less.prems(1) ctx by (subst string_loop.simps) (simp add: scans_unterminated piece_ends_def)
  next
    case False
    then have "c0 t \<noteq> 0" by blast
    let ?t = "ReadChar t"
    have t: "scans s ?t" "mode ?t = mode s" using less.prems by (simp_all add: scans_ReadChar)
    have le: "remaining v < remaining t" if "scans ?t v" for v
      using that remaining_less [of v t] ReadChar_less [OF at \<open>c0 t \<noteq> 0\<close>] by (auto simp: scans_def)
    have IH: "\<exists>u. string_loop is_raw cs' (ReadChar v) = Some u \<and> scans s u \<and> piece_ends s u"
      if "scans ?t (ReadChar v)" "mode v = mode s" for cs' v
      using less.hyps [OF le [OF that(1)]] that(2) scans_trans [OF t(1) that(1)] by simp
    have end_piece: "scans s (EndStringLiteral v) \<and> piece_ends s (EndStringLiteral v)" if "scans s v" "mode v = mode s" for v
      using that mode_eqD [OF that(2)] by (simp add: scans_string piece_ends_def)
    have refl: "scans ?t ?t" using t(1) by (simp add: scans_def)
    consider (escape) "c0 t = 92" "\<not> is_raw" | (dollar) "c0 t = 36" "\<not> is_raw"
      | (other) "\<not> (c0 t = 92 \<and> \<not> is_raw)" "\<not> (c0 t = 36 \<and> \<not> is_raw)" by blast
    then show ?thesis
    proof cases
      case escape
      obtain ok v u where e: "ScanEscapedCodePoint ?t = (ok, v, u)" by (metis prod_cases3)
      have u: "scans ?t u" "mode u = mode s" using ScanEscapedCodePoint_scans [OF refl HOL.refl] e t(2) by simp_all
      note e' = end_piece [OF scans_trans [OF t(1) u(1)] u(2)] IH [OF scans_ReadChar [OF u(1)] u(2)]
        IH [OF scans_ReadChar [OF refl] t(2)]
      then show ?thesis
        using False escape e t ctx
        by (subst string_loop.simps) (auto simp: Let_def scans_unterminated piece_ends_def split: option.split)
    next
      case dollar
      then show ?thesis using False less.prems
        by (subst string_loop.simps) (simp add: scans_set_kind scans_string piece_ends_def, simp add: set_kind_def string_token_def set_literal_def)
    next
      case other
      have skip: "(c0 t = 0 \<or> c0 t = code CHR 0x0A \<and> \<not> string_is_multiline t) = False"
        "(c0 t = code CHR 0x5C \<and> \<not> is_raw) = False" "(c0 t = code CHR ''$'' \<and> \<not> is_raw) = False"
        using False other by auto
      have "scans s (string_token cs (Recognize kSTRING (if string_is_multiline t then ReadChar ?t else t)))"
        using less.prems(1) t(1) by (intro scans_intro) simp_all
      note stop = end_piece [OF this]
      show ?thesis
        by (subst string_loop.simps, unfold Let_def, simp only: skip if_False)
          (use stop IH [OF refl less.prems(2)] less.prems(2) in simp)
    qed
  qed
qed

end
