(* ===== verification/Scanner_Tokens.thy ===== *)
theory Scanner_Tokens
  imports Scanner_Reads
begin

text \<open>
  What scanning one token and scanning the whole text do: the nesting of interpolated strings
  stays consistent, every token moves forward, and the token stream ends.
\<close>

subsection \<open>Nesting of interpolations\<close>

fun nest_ok :: "scan_context list \<Rightarrow> int \<Rightarrow> bool" where
  "nest_ok [] level \<longleftrightarrow> level = 0"
| "nest_ok (ctx # contexts) level \<longleftrightarrow> level \<ge> 1 \<and> ctx_delimiter ctx \<noteq> 0 \<and> nest_ok contexts (ctx_brace_level ctx)"

definition scan_inv :: "scanner \<Rightarrow> bool" where
  "scan_inv s \<longleftrightarrow> at_char s \<and> nest_ok (saved_context s) (brace_level s)"

subsection \<open>One token\<close>

text \<open>A token that moves forward and leaves the scanner in a consistent state.\<close>

definition token_scanned :: "scanner \<Rightarrow> scanner option \<Rightarrow> bool" where
  "token_scanned s r \<longleftrightarrow> (\<exists>t. r = Some t \<and> scans s t \<and> lookahead_pos s < lookahead_pos t \<and> scan_inv t)"

lemma scans_LetI: "scans r u \<Longrightarrow> (\<And>t. scans r t \<Longrightarrow> scans r (f t)) \<Longrightarrow> scans r (Let u f)"
  by simp

lemma scans_after_ReadChar:
  assumes "at_char s" "tok_ok s"
  shows "scans s (ReadChar s)" "scans (ReadChar s) (ReadChar s)" "k \<noteq> kEOS \<Longrightarrow> scans (ReadChar s) (Recognize k s)"
proof -
  show *: "scans s (ReadChar s)" using assms by (intro scans_ReadChar scans_refl)
  then show refl: "scans (ReadChar s) (ReadChar s)" by (simp add: scans_def)
  show "scans (ReadChar s) (Recognize k s)" if "k \<noteq> kEOS" unfolding Recognize_def by (rule scans_set_kind [OF refl that])
qed

lemma scans_ScanOperator:
  assumes "at_char s" "tok_ok s" "c0 s \<in> set operator_chars"
  shows "scans (ReadChar s) (ScanOperator s)"
proof -
  note base = scans_after_ReadChar [OF assms(1,2)]
  have member: "c0 s \<in> {43, 45, 42, 37, 38, 124, 94, 91, 93, 60, 62, 33, 126, 61, 63, 58, 59, 40, 41, 44}"
    using assms(3) by (simp add: operator_chars_def)
  show ?thesis
    unfolding ScanOperator_def
    by (intro scans_if scans_LetI) (simp_all add: base scans_Recognize scans_set_kind, use member in simp)
qed

lemma mode_ScanOperator: "mode (ScanOperator s) = mode s"
  by (simp add: ScanOperator_def Let_def)

lemma token_scannedI:
  assumes "at_char s" "tok_ok s" "nest_ok (saved_context s) (brace_level s)" "c0 s \<noteq> 0" "returns (ReadChar s) r"
  shows "token_scanned s r"
proof -
  obtain t where t: "r = Some t" "scans (ReadChar s) t" "mode t = mode s" using assms(5) by (auto simp: returns_def)
  have "lookahead_pos s < lookahead_pos t" using ReadChar_less [OF assms(1,4)] t(2) by (simp add: scans_def)
  moreover have "scans s t" using scans_trans [OF scans_after_ReadChar(1) t(2)] assms(1,2) by blast
  ultimately show ?thesis
    using assms(3) t(1) mode_eqD [OF t(3)] scans_at [OF t(2)] by (simp add: token_scanned_def scan_inv_def)
qed

lemma ScanLiteralString_scanned:
  assumes "at_char s" "tok_ok s" "nest_ok (saved_context s) (brace_level s)" "c0 s \<noteq> 0"
  shows "token_scanned s (ScanLiteralString is_raw s)"
proof -
  define m where "m = (LookaheadChar 1 (BeginStringLiteral (c0 s) s) = c0 (BeginStringLiteral (c0 s) s) \<and>
    LookaheadChar 2 (BeginStringLiteral (c0 s) s) = c0 (BeginStringLiteral (c0 s) s))"
  define b where "b = (BeginStringLiteral (c0 s) s)\<lparr>string_is_multiline := m\<rparr>"
  define u where "u = (if string_is_multiline (ReadChar b)
    then let s = ReadChar (ReadChar (ReadChar b)) in if c0 s = code CHR 0x0A then ReadChar s else s else ReadChar b)"
  have b: "at_char b" "tok_ok b" "c0 b \<noteq> 0" "lookahead_pos b = lookahead_pos s"
    "saved_context b = saved_context s" "brace_level b = brace_level s" "scans s b"
    using assms(1,2,4) by (auto simp: b_def BeginStringLiteral_def at_char_def tok_ok_def scans_def source_length_def)
  have u: "scans (ReadChar b) u" "mode u = mode b"
    using scans_after_ReadChar(2) [OF b(1,2)] by (simp_all add: u_def Let_def scans_ReadChar)
  obtain t where t: "string_loop is_raw [] u = Some t" "scans u t" "piece_ends u t"
    using string_loop_returns [of u u is_raw "[]"] u(1) by (auto simp: scans_def)
  have "scans s t" using scans_trans [OF b(7) scans_trans [OF scans_after_ReadChar(1) [OF b(1,2)] scans_trans [OF u(1) t(2)]]] .
  moreover have "lookahead_pos s < lookahead_pos t"
    using ReadChar_less [OF b(1,3)] u(1) t(2) b(4) unfolding scans_def by linarith
  moreover have "saved_context t = saved_context s \<and> brace_level t = brace_level s"
    using t(3) mode_eqD [OF u(2)] b(5,6) by (auto simp: piece_ends_def mode_def)
  moreover have "ScanLiteralString is_raw s = Some t"
    using t(1) unfolding ScanLiteralString_def ScanLiteralStringChars_def Let_def u_def b_def m_def .
  ultimately show ?thesis using assms(3) by (simp add: token_scanned_def scan_inv_def scans_at)
qed

lemma token_scanned_if:
  "(b \<Longrightarrow> token_scanned s r) \<Longrightarrow> (\<not> b \<Longrightarrow> token_scanned s r') \<Longrightarrow> token_scanned s (if b then r else r')"
  by simp

lemma token_scanned_trans: "scans s t \<Longrightarrow> token_scanned t r \<Longrightarrow> token_scanned s r"
  unfolding token_scanned_def using scans_trans [of s t] by (force simp: scans_def)

lemma scan_inv_brace:
  assumes "scan_inv t" "0 < n" "saved_context t \<noteq> []"
  shows "scan_inv (t\<lparr>brace_level := n\<rparr>)"
  using assms by (cases "saved_context t") (auto simp: scan_inv_def at_char_def source_length_def)

lemma ScanLBrace:
  assumes "token_scanned s (Some t)"
  shows "token_scanned s (Some (if IsNestedContext t then t\<lparr>brace_level := brace_level t + 1\<rparr> else t))"
proof (cases "saved_context t")
  case (Cons c cs)
  then have "scan_inv (t\<lparr>brace_level := brace_level t + 1\<rparr>)"
    using assms by (intro scan_inv_brace) (auto simp: token_scanned_def scan_inv_def)
  then show ?thesis using assms by (auto simp: token_scanned_def scans_string)
qed (use assms in \<open>simp add: IsNestedContext_def\<close>)

lemma ScanRBrace:
  assumes "token_scanned s (Some t)" "string_delimiter t = 0"
  shows "token_scanned s
    (if IsNestedContext t
     then let s = t\<lparr>brace_level := brace_level t - 1\<rparr>
          in if brace_level s = 0 then PopContext (set_kind kINTERPOL_END s) else Some s
     else Some t)"
proof (cases "saved_context t")
  case (Cons c cs)
  let ?t = "t\<lparr>brace_level := brace_level t - 1\<rparr>"
  have t: "scans s t" "lookahead_pos s < lookahead_pos t" "at_char t" "brace_level t \<ge> 1" "ctx_delimiter c \<noteq> 0"
    "nest_ok cs (ctx_brace_level c)" "scan_inv t"
    using assms(1) Cons by (auto simp: token_scanned_def scan_inv_def)
  show ?thesis
  proof (cases "brace_level t = 1")
    case True
    let ?u = "(set_kind kINTERPOL_END ?t)\<lparr>saved_context := cs, string_delimiter := ctx_delimiter c,
      string_is_multiline := ctx_multiline c, brace_level := ctx_brace_level c\<rparr>"
    have "PopContext (set_kind kINTERPOL_END ?t) = Some ?u"
      using Cons True t(5) assms(2) by (simp add: PopContext_def set_kind_def)
    moreover have "scans s ?u" by (rule scans_frame [OF t(1)]) (simp_all add: set_kind_def)
    moreover have "scan_inv ?u" using t(6) scans_at [OF \<open>scans s ?u\<close>] by (simp add: scan_inv_def)
    ultimately show ?thesis using Cons True t(2) by (simp add: token_scanned_def IsNestedContext_def set_kind_def)
  next
    case False
    then have "scan_inv ?t" using t(4,7) Cons by (intro scan_inv_brace) simp_all
    then show ?thesis using False Cons t(1,2) by (simp add: token_scanned_def IsNestedContext_def scans_string)
  qed
qed (use assms in \<open>simp add: IsNestedContext_def\<close>)

lemma ScanToken_correct:
  assumes "at_char s" "tok_ok s" "nest_ok (saved_context s) (brace_level s)" "string_delimiter s = 0"
  shows "if c0 s = 0 then ScanToken s = Some (set_kind kEOS s) else token_scanned s (ScanToken s)"
proof (cases "c0 s = 0")
  case False
  note base = scans_after_ReadChar [OF assms(1,2)]
  have I: "token_scanned s r" if "returns (ReadChar s) r" for r using token_scannedI [OF assms(1-3) False that] .
  have one: "token_scanned s (Some (Recognize k s))" if "k \<noteq> kEOS" for k
    using that by (intro I returns_Some base) simp_all
  have str: "token_scanned s (ScanLiteralString raw s)" for raw by (rule ScanLiteralString_scanned [OF assms(1-3) False])
  have raw: "token_scanned s (ScanLiteralString True (Recognize kILLEGAL s))"
    if "c0 (Recognize kILLEGAL s) = code CHR 0x22 \<or> c0 (Recognize kILLEGAL s) = code CHR 0x27"
  proof (rule token_scanned_trans [OF scans_trans [OF base(1) base(3)]])
    show "token_scanned (Recognize kILLEGAL s) (ScanLiteralString True (Recognize kILLEGAL s))"
      using base(3) [of kILLEGAL] assms(3) that
      by (intro ScanLiteralString_scanned) (auto simp: scans_def Recognize_def set_kind_def)
  qed simp
  have ident: "token_scanned s (ScanIdentChars True s)" if "IsIdentStartChar (c0 s)"
  proof -
    have "ident_char True (c0 s)" using that by (auto simp: ident_char_def IsIdentChar_def IsIdentStartChar_def)
    then obtain t where t: "ScanIdentChars True s = Some t" "scans s t" "mode t = mode s" "word_at True s \<noteq> []"
      "lookahead_pos t = lookahead_pos s + int (length (word_at True s))"
      using ScanIdentChars_correct [OF scans_refl [OF assms(1,2)] HOL.refl] by blast
    then show ?thesis using assms(3) mode_eqD [OF t(3)] scans_at [OF t(2)] by (simp add: token_scanned_def scan_inv_def)
  qed
  have error: "token_scanned s (Some (ReadChar (set_literal l (ErrorMsg m s))))" for l m
  proof (rule token_scanned_trans [of _ "set_literal l (ErrorMsg m s)"])
    show "scans s (set_literal l (ErrorMsg m s))" using assms(1,2) by (intro scans_set_literal scans_ErrorMsg scans_refl)
    then have e: "at_char (set_literal l (ErrorMsg m s))" "tok_ok (set_literal l (ErrorMsg m s))" by (simp_all add: scans_def)
    then show "token_scanned (set_literal l (ErrorMsg m s)) (Some (ReadChar (set_literal l (ErrorMsg m s))))"
      using assms(3) False
      by (intro token_scannedI returns_Some scans_after_ReadChar) (simp_all add: ErrorMsg_def set_literal_def)
  qed
  have "token_scanned s (ScanToken s)"
    unfolding ScanToken_def
  proof (intro token_scanned_if, goal_cases)
    case 2
    then show ?case using scans_ScanOperator [OF assms(1,2)] by (intro I returns_Some) (simp_all add: mode_ScanOperator)
  next
    case 3
    show ?case unfolding ScanSlash_def by (intro I returns_LetI returns_if scans_intro base) simp_all
  next
    case 4
    show ?case by (intro I returns_LetI returns_if ScanNumber_returns scans_intro base) simp_all
  next
    case 5
    show ?case unfolding Let_def by (intro ScanLBrace one) simp
  next
    case 6
    show ?case unfolding Let_def [of "Recognize kRBRACE s"]
      using assms(4) by (intro ScanRBrace one) (simp_all add: Recognize_def set_kind_def)
  next
    case 7
    show ?case unfolding Let_def by (intro token_scanned_if raw one) simp_all
  next
    case 9
    show ?case using base(2) by (intro I ScanLibraryTag_returns) simp_all
  next
    case 11
    show ?case using base(2) by (intro I ScanNumber_returns) simp_all
  qed (use False str ident error in simp_all)
  then show ?thesis using False by simp
qed (simp add: ScanToken_def)

subsection \<open>Pieces of strings\<close>

lemma nest_okD: "mode t = mode s \<Longrightarrow> nest_ok (saved_context t) (brace_level t) = nest_ok (saved_context s) (brace_level s)"
  by (simp add: mode_def)

lemma ScanStringPiece_correct:
  assumes "at_char s" "tok_ok s" "nest_ok (saved_context s) (brace_level s)" "string_delimiter s \<noteq> 0"
  shows "\<exists>t. ScanStringPiece s = Some t \<and> scans s t \<and> scan_inv t \<and>
    (lookahead_pos s < lookahead_pos t \<or> string_delimiter t = 0)"
proof (cases "c0 s = code CHR ''$''")
  case False
  obtain t where t: "string_loop False [] s = Some t" "scans s t" "piece_ends s t"
    using string_loop_returns [OF scans_refl [OF assms(1,2)] HOL.refl] by blast
  have "lookahead_pos s < lookahead_pos t" if "c0 t = code CHR ''$''"
    using that False assms(1) t(2) by (cases "lookahead_pos s = lookahead_pos t") (auto simp: scans_def at_char_def)
  moreover have "scan_inv t" using t(2,3) assms(3) by (auto simp: piece_ends_def mode_def scan_inv_def scans_def)
  ultimately show ?thesis
    using False t by (auto simp: ScanStringPiece_def ScanLiteralStringChars_def piece_ends_def mode_def)
next
  case True
  let ?r = "ReadChar s"
  note base = scans_after_ReadChar [OF assms(1,2)]
  have "c0 s \<noteq> 0" using True by simp
  then have less: "lookahead_pos s < lookahead_pos t" if "scans ?r t" for t
    using ReadChar_less [OF assms(1)] that by (force simp: scans_def)
  have keep: "scan_inv t" if "scans ?r t" "mode t = mode s" for t
    using assms(3) scans_at [OF that(1)] nest_okD [OF that(2)] by (simp add: scan_inv_def)
  consider "IsIdentStartChar (c0 ?r) \<and> c0 ?r \<noteq> code CHR ''$''"
    | "\<not> (IsIdentStartChar (c0 ?r) \<and> c0 ?r \<noteq> code CHR ''$'')" "c0 ?r = code CHR ''{''"
    | "\<not> (IsIdentStartChar (c0 ?r) \<and> c0 ?r \<noteq> code CHR ''$'')" "c0 ?r \<noteq> code CHR ''{''" by blast
  then show ?thesis
  proof cases
    case 1
    then have "ident_char False (c0 ?r)" by (auto simp: ident_char_def IsIdentChar_def IsIdentStartChar_def)
    then have "returns ?r (map_option (set_kind kINTERPOL_VAR) (ScanIdentChars False ?r))"
      using base(2) by (intro returns_map ScanIdentChars_returns scans_set_kind) simp_all
    then obtain t where t: "map_option (set_kind kINTERPOL_VAR) (ScanIdentChars False ?r) = Some t" "scans ?r t" "mode t = mode s"
      unfolding returns_def by auto
    have "ScanStringPiece s = Some t" unfolding ScanStringPiece_def Let_def if_P [OF True] if_P [OF 1] by (rule t(1))
    then show ?thesis using less keep t(2,3) scans_trans [OF base(1) t(2)] by simp
  next
    case 2
    let ?t = "PushContext (Recognize kINTERPOL_START ?r)"
    have t: "scans ?r ?t" using base(2) by (intro scans_string scans_Recognize) simp_all
    then have "scan_inv ?t" using assms(3,4) scans_at [OF t]
      by (simp add: scan_inv_def) (simp add: PushContext_def Recognize_def set_kind_def)
    then show ?thesis
      using True 2 less [OF t] scans_trans [OF base(1) t] by (auto simp: ScanStringPiece_def Let_def)
  next
    case 3
    let ?t = "EndStringLiteral (ErrorMsg (chars ''illegal character after $ in string interpolation'') ?r)"
    have t: "scans ?r ?t" using base(2) by (intro scans_string scans_ErrorMsg) simp_all
    then have "scan_inv ?t" using assms(3) scans_at [OF t]
      by (simp add: scan_inv_def) (simp add: EndStringLiteral_def ErrorMsg_def)
    then show ?thesis
      using True 3 less [OF t] scans_trans [OF base(1) t] by (auto simp: ScanStringPiece_def Let_def)
  qed
qed

subsection \<open>The next token\<close>

definition effort :: "scanner \<Rightarrow> nat" where
  "effort s = 2 * remaining s + (if IsScanningString s then 1 else 0)"

text \<open>The token between two states of the scanner.\<close>

definition next_token :: "scanner \<Rightarrow> scanner \<Rightarrow> bool" where
  "next_token s t \<longleftrightarrow> scan_inv t \<and> source t = source s \<and> lookahead_pos s \<le> token_start t \<and>
     token_start t \<le> lookahead_pos t \<and> tk_offset (current_token t) = token_start t \<and>
     tk_position (current_token t) = position_of (source t) (token_start t) \<and>
     (if tk_kind (current_token t) = kEOS then c0 t = 0 \<and> tk_offset (current_token t) = lookahead_pos t else effort t < effort s)"

lemma start_token_simps [simp]:
  "mode (start_token s) = mode s" "source (start_token s) = source s" "lookahead_pos (start_token s) = lookahead_pos s"
  "c0 (start_token s) = c0 s" "token_start (start_token s) = lookahead_pos s" "saved_context (start_token s) = saved_context s"
  "brace_level (start_token s) = brace_level s" "string_delimiter (start_token s) = string_delimiter s"
  by (simp_all add: start_token_def mode_def)

lemma start_token_ok: "at_char s \<Longrightarrow> at_char (start_token s) \<and> tok_ok (start_token s)"
  by (simp add: start_token_def at_char_def tok_ok_def source_length_def)

lemma effort_less:
  assumes "scans s t" "lookahead_pos s < lookahead_pos t \<or> IsScanningString s \<and> \<not> IsScanningString t"
  shows "effort t < effort s"
  using assms remaining_less [of t s] by (auto simp: effort_def scans_def remaining_def source_length_def)

lemma scan_loop_correct:
  assumes "scan_inv s"
  shows "\<exists>t. scan_loop s = Some t \<and> next_token s t"
  using assms
proof (induction "remaining s" arbitrary: s rule: less_induct)
  case less
  have s: "at_char s" "nest_ok (saved_context s) (brace_level s)" using less.prems by (simp_all add: scan_inv_def)
  show ?case
  proof (cases "IsScanningString s")
    case True
    let ?s = "start_token s"
    have ok: "at_char ?s" "tok_ok ?s" "nest_ok (saved_context ?s) (brace_level ?s)" "string_delimiter ?s \<noteq> 0" "IsScanningString ?s"
      using start_token_ok [OF s(1)] s(2) True by (simp_all add: IsScanningString_def)
    obtain t where t: "ScanStringPiece ?s = Some t" "scans ?s t" "scan_inv t" "lookahead_pos ?s < lookahead_pos t \<or> string_delimiter t = 0"
      using ScanStringPiece_correct [OF ok(1-4)] by blast
    have "effort t < effort ?s" using t(2,4) ok(5) by (intro effort_less) (auto simp: IsScanningString_def)
    then have "next_token s t"
      using t(2,3) scans_kind [OF t(2)] by (simp add: next_token_def scans_def tok_ok_def effort_def remaining_def IsScanningString_def source_length_def)
    then show ?thesis using True ok(5) t(1) by (subst scan_loop.simps) simp
  next
    case False
    obtain w where w: "ConsumeWhiteSpace s = Some w" "at_char w" "mode w = mode s" "source w = source s" "lookahead_pos s \<le> lookahead_pos w"
      using read_while_reads [OF s(1), of "\<lambda>c. c = 32 \<or> c = 9 \<or> c = 10"] by (auto simp: ConsumeWhiteSpace_def)
    let ?s = "start_token w"
    have ok: "at_char ?s" "tok_ok ?s" "nest_ok (saved_context ?s) (brace_level ?s)" "string_delimiter ?s = 0" "\<not> IsScanningString ?s"
      using start_token_ok [OF w(2)] s(2) w(3) False by (simp_all add: IsScanningString_def mode_def)
    have loop: "scan_loop s = Option.bind (ScanToken ?s) (\<lambda>t. if tk_kind (current_token t) = kWHITESP then scan_loop t else Some t)"
      using False ok(5) w(1) by (subst scan_loop.simps) simp
    show ?thesis
    proof (cases "c0 ?s = 0")
      case True
      then have "next_token s (set_kind kEOS ?s)"
        using ok w(2,4,5) by (simp add: next_token_def scan_inv_def)
          (simp add: set_kind_def start_token_def at_char_def source_length_def)
      moreover have "ScanToken ?s = Some (set_kind kEOS ?s)" using ScanToken_correct [OF ok(1-4)] True by simp
      ultimately show ?thesis unfolding loop by (simp add: set_kind_def)
    next
      case False
      then obtain t where t: "ScanToken ?s = Some t" "scans ?s t" "lookahead_pos ?s < lookahead_pos t" "scan_inv t"
        using ScanToken_correct [OF ok(1-4)] by (auto simp: token_scanned_def)
      have rem: "remaining t < remaining s" using t(2,3) w(4,5) scans_at [OF t(2)] by (intro remaining_less) (auto simp: scans_def)
      then have eff: "effort t < effort s" using \<open>\<not> IsScanningString s\<close> by (simp add: effort_def)
      show ?thesis
      proof (cases "tk_kind (current_token t) = kWHITESP")
        case True
        obtain u where u: "scan_loop t = Some u" "next_token t u" using less.hyps [OF rem t(4)] by blast
        then have "next_token s u" using eff t(2,3) w(4,5) unfolding next_token_def scans_def by auto
        then show ?thesis unfolding loop using t(1) u(1) True by simp
      next
        case False
        have "next_token s t"
          using eff t(2-4) w(4,5) scans_kind [OF t(2)] by (simp add: next_token_def scans_def tok_ok_def)
        then show ?thesis unfolding loop using t(1) False by simp
      qed
    qed
  qed
qed

lemma token_update [simp]:
  "effort (s\<lparr>newline_seen := b\<rparr>) = effort s" "effort (s\<lparr>current_token := k\<rparr>) = effort s"
  "scan_inv (s\<lparr>newline_seen := b\<rparr>) = scan_inv s" "scan_inv (s\<lparr>current_token := k\<rparr>) = scan_inv s"
  by (simp_all add: effort_def remaining_def IsScanningString_def source_length_def scan_inv_def at_char_def)

lemma Scan_correct:
  assumes "scan_inv s"
  shows "\<exists>t. Scan s = Some t \<and> next_token s t \<and> tk_length (current_token t) = lookahead_pos t - tk_offset (current_token t)"
proof -
  let ?s = "s\<lparr>newline_seen := False\<rparr>"
  have "scan_inv ?s" using assms by simp
  then obtain t where t: "scan_loop ?s = Some t" "next_token ?s t" using scan_loop_correct by blast
  let ?t = "t\<lparr>current_token := (current_token t)\<lparr>tk_length := lookahead_pos t - token_start t\<rparr>\<rparr>"
  have "next_token s ?t" using t(2) by (auto simp: next_token_def)
  moreover have "tk_offset (current_token t) = token_start t" using t(2) by (simp add: next_token_def)
  ultimately show ?thesis using t(1) by (simp add: Scan_def)
qed

subsection \<open>The token stream\<close>

text \<open>What a stream of tokens from a position on looks like: the tokens follow each other in
  the source, carry the line and column of their offset, and end with the only \<open>kEOS\<close>.\<close>

fun stream_ok :: "scan_text \<Rightarrow> int \<Rightarrow> token_descriptor list \<Rightarrow> bool" where
  "stream_ok src start [] \<longleftrightarrow> False"
| "stream_ok src start (t # ts) \<longleftrightarrow>
     start \<le> tk_offset t \<and> 0 \<le> tk_length t \<and> tk_offset t + tk_length t \<le> int (length src) \<and>
     tk_position t = position_of src (tk_offset t) \<and>
     (if tk_kind t = kEOS then ts = [] \<and> char_at src (tk_offset t) = 0 else stream_ok src (tk_offset t + tk_length t) ts)"

lemma scan_all_loop_correct:
  assumes "scan_inv s"
  shows "\<exists>ts t. scan_all_loop acc s = Some (acc @ ts, t) \<and> stream_ok (source s) (lookahead_pos s) ts"
  using assms
proof (induction "effort s" arbitrary: s acc rule: less_induct)
  case less
  obtain t where t: "Scan s = Some t" "next_token s t" "tk_length (current_token t) = lookahead_pos t - tk_offset (current_token t)"
    using Scan_correct [OF less.prems] by blast
  let ?k = "current_token t"
  have tok: "lookahead_pos s \<le> tk_offset ?k" "0 \<le> tk_length ?k" "tk_offset ?k + tk_length ?k \<le> int (length (source s))"
    "tk_position ?k = position_of (source s) (tk_offset ?k)" "source t = source s"
    using t(2,3) by (auto simp: next_token_def scan_inv_def at_char_def source_length_def)
  show ?case
  proof (cases "tk_kind ?k = kEOS")
    case True
    then have "char_at (source s) (tk_offset ?k) = 0"
      using t(2) norm_eq_0 [of "char_at (source t) (lookahead_pos t)"] by (auto simp: next_token_def scan_inv_def at_char_def)
    then show ?thesis using t(1) tok True by (subst scan_all_loop.simps) (simp add: Let_def)
  next
    case False
    then have "effort t < effort s" "scan_inv t" using t(2) by (simp_all add: next_token_def)
    then obtain ts u where u: "scan_all_loop (acc @ [?k]) t = Some ((acc @ [?k]) @ ts, u)" "stream_ok (source t) (lookahead_pos t) ts"
      using less.hyps [of t "acc @ [?k]"] by blast
    have "stream_ok (source s) (lookahead_pos s) (?k # ts)" using False tok u(2) t(3) by simp
    moreover have "scan_all_loop acc s = Some (acc @ ?k # ts, u)"
      using t(1) False u(1) by (subst scan_all_loop.simps) (simp add: Let_def)
    ultimately show ?thesis by blast
  qed
qed

lemma Reset_inv:
  shows "scan_inv (Reset s)" and "source (Reset s) = source s" and "lookahead_pos (Reset s) = 0"
    and "string_delimiter (Reset s) = 0" and "saved_context (Reset s) = []"
  by (simp_all add: Reset_def ReadChar_def Let_def LookaheadChar_eq scan_inv_def at_char_def source_length_def norm_def
      position_of_def)

end
