(* ===== verification/Scanner_Stream.thy ===== *)
theory Scanner_Stream
  imports Scanner_Tokens
begin

text \<open>
  The correctness of the scanner: the token stream of a source, the random accesses that scan
  it again, and identifiers and keywords.
\<close>

subsection \<open>The token stream and its accesses\<close>

definition lines_before :: "int \<Rightarrow> token_descriptor list \<Rightarrow> nat" where
  "lines_before line ts = length (takeWhile (\<lambda>t. pos_line (tk_position t) < line) ts)"

lemma scan_loops_agree:
  assumes "scan_inv s"
  shows "\<exists>ts t. ts \<noteq> [] \<and> (\<forall>acc. scan_all_loop acc s = Some (acc @ ts, t)) \<and>
    (\<forall>i j. \<exists>u. scan_to_loop i j s = Some u \<and> current_token u = ts ! min (nat (i - j)) (length ts - 1)) \<and>
    (\<forall>line j. \<exists>u. token_index_loop line j s =
       Some (if lines_before line ts < length ts then j + int (lines_before line ts) else - 1, u))"
  using assms
proof (induction "effort s" arbitrary: s rule: less_induct)
  case less
  obtain t where t: "Scan s = Some t" "next_token s t" using Scan_correct [OF less.prems] by blast
  let ?k = "current_token t"
  show ?case
  proof (cases "tk_kind ?k = kEOS")
    case True
    have "scan_all_loop acc s = Some (acc @ [?k], t)" for acc using t(1) True by (subst scan_all_loop.simps) (simp add: Let_def)
    moreover have "scan_to_loop i j s = Some t" for i j using t(1) True by (subst scan_to_loop.simps) (simp add: Let_def)
    moreover have "token_index_loop line j s =
        Some (if lines_before line [?k] < length [?k] then j + int (lines_before line [?k]) else - 1, t)" for line j
      using t(1) True by (subst token_index_loop.simps) (simp add: Let_def lines_before_def)
    ultimately show ?thesis by (intro exI [of _ "[?k]"] exI [of _ t]) auto
  next
    case False
    then have "effort t < effort s" "scan_inv t" using t(2) by (simp_all add: next_token_def)
    then obtain ts u where IH: "ts \<noteq> []" "\<And>acc. scan_all_loop acc t = Some (acc @ ts, u)"
      "\<And>i j. \<exists>u. scan_to_loop i j t = Some u \<and> current_token u = ts ! min (nat (i - j)) (length ts - 1)"
      "\<And>line j. \<exists>u. token_index_loop line j t =
         Some (if lines_before line ts < length ts then j + int (lines_before line ts) else - 1, u)"
      using less.hyps [of t] by blast
    have "scan_all_loop acc s = Some (acc @ ?k # ts, u)" for acc
      using t(1) False IH(2) by (subst scan_all_loop.simps) (simp add: Let_def)
    moreover have "\<exists>u. scan_to_loop i j s = Some u \<and> current_token u = (?k # ts) ! min (nat (i - j)) (length (?k # ts) - 1)" for i j
    proof (cases "i \<ge> j + 1")
      case True
      then have "min (nat (i - j)) (length ts) = Suc (min (nat (i - (j + 1))) (length ts - 1))"
        using IH(1) by (cases ts) (auto simp: nat_diff_distrib')
      then show ?thesis using t(1) False True IH(3) [of i "j + 1"] by (subst scan_to_loop.simps) (simp add: Let_def)
    next
      case nle: False
      then have "nat (i - j) = 0" by simp
      then show ?thesis using t(1) nle by (subst scan_to_loop.simps) (simp add: Let_def)
    qed
    moreover have "\<exists>u. token_index_loop line j s =
        Some (if lines_before line (?k # ts) < length (?k # ts) then j + int (lines_before line (?k # ts)) else - 1, u)" for line j
      using t(1) False IH(4) [of line "j + 1"] by (subst token_index_loop.simps) (auto simp: Let_def lines_before_def)
    ultimately show ?thesis by (intro exI [of _ "?k # ts"] exI [of _ u]) blast
  qed
qed

lemma stream_ends: "stream_ok src p ts \<Longrightarrow> ts \<noteq> [] \<and> tk_kind (last ts) = kEOS \<and> char_at src (tk_offset (last ts)) = 0 \<and>
    0 \<le> tk_length (last ts) \<and> tk_offset (last ts) + tk_length (last ts) \<le> int (length src) \<and> p \<le> tk_offset (last ts)"
  by (induction src p ts rule: stream_ok.induct) (auto split: if_splits)

text \<open>C35: Scanning ends for every source text, also for malformed ones. The tokens of the stream
  lie in the source one after the other without overlapping, each carries the line and
  column of its offset with all three kinds of line ends counted once, the only end token
  is the last one, and if the source has no null character it stands at the end of the
  source.\<close>

theorem scan_all_tokenizes:
  "\<exists>ts t. ScanAll s = Some (ts, t) \<and> stream_ok (source s) 0 ts \<and>
     (0 \<notin> set (source s) \<longrightarrow> tk_offset (last ts) = source_length s)"
proof -
  obtain ts t where t: "ScanAll s = Some (ts, t)" "stream_ok (source s) 0 ts"
    using scan_all_loop_correct [OF Reset_inv(1), of "[]" s] by (auto simp: ScanAll_def Reset_inv)
  have "tk_offset (last ts) = source_length s" if "0 \<notin> set (source s)"
  proof (rule ccontr)
    assume "tk_offset (last ts) \<noteq> source_length s"
    then have "tk_offset (last ts) < int (length (source s))" "0 \<le> tk_offset (last ts)" "char_at (source s) (tk_offset (last ts)) = 0"
      using stream_ends [OF t(2)] by (auto simp: source_length_def)
    then have "source s ! nat (tk_offset (last ts)) = 0" "nat (tk_offset (last ts)) < length (source s)"
      by (simp_all add: char_at_def)
    then show False using that nth_mem by metis
  qed
  then show ?thesis using t by blast
qed

theorem scan_all_tokenizes_witness:
  "\<exists>ts t. ScanAll (new_scanner (chars ''var x'') [] False) = Some (ts, t) \<and> tk_offset (last ts) = 5"
proof -
  have "source (new_scanner (chars ''var x'') [] False) = chars ''var x''" by (simp add: new_scanner_def Reset_inv)
  then show ?thesis using scan_all_tokenizes [of "new_scanner (chars ''var x'') [] False"] by (auto simp: source_length_def)
qed

text \<open>C36: Scanning again to an index gives the token of the stream at that index, or the end
  token beyond it, and the token index of a line is that of the first token on or after
  the line, or -1 when there is none.\<close>

theorem scan_to_agrees:
  "\<exists>ts t. ScanAll s = Some (ts, t) \<and> ts \<noteq> [] \<and>
     (\<forall>i\<ge>0. \<exists>u. ScanTo i s = Some u \<and> current_token u = ts ! min (nat i) (length ts - 1)) \<and>
     (\<forall>line. \<exists>n u. TokenIndexAtLine line s = Some (n, u) \<and>
        (if \<exists>k\<in>set ts. line \<le> pos_line (tk_position k)
         then 0 \<le> n \<and> nat n < length ts \<and> line \<le> pos_line (tk_position (ts ! nat n)) \<and>
              (\<forall>j<nat n. pos_line (tk_position (ts ! j)) < line)
         else n = - 1))"
proof -
  obtain ts t where ts: "ts \<noteq> []" "ScanAll s = Some (ts, t)"
    "\<And>i. \<exists>u. ScanTo i s = Some u \<and> current_token u = ts ! min (nat i) (length ts - 1)"
    "\<And>line. \<exists>u. TokenIndexAtLine line s = Some (if lines_before line ts < length ts then int (lines_before line ts) else - 1, u)"
    using scan_loops_agree [OF Reset_inv(1), of s] unfolding ScanAll_def ScanTo_def TokenIndexAtLine_def
    by (metis append_Nil diff_zero add_0)
  have first: "if \<exists>k\<in>set ts. line \<le> pos_line (tk_position k)
      then lines_before line ts < length ts \<and> line \<le> pos_line (tk_position (ts ! lines_before line ts)) \<and>
        (\<forall>j<lines_before line ts. pos_line (tk_position (ts ! j)) < line)
      else lines_before line ts = length ts" for line
  proof -
    let ?P = "\<lambda>t. pos_line (tk_position t) < line"
    have "lines_before line ts < length ts \<longleftrightarrow> (\<exists>k\<in>set ts. \<not> ?P k)"
      unfolding lines_before_def using length_takeWhile_le [of ?P ts] takeWhile_eq_all_conv [of ?P ts]
      by (metis le_neq_implies_less takeWhile_eq_take take_all_iff order_refl less_irrefl)
    moreover have "lines_before line ts < length ts \<Longrightarrow> \<not> ?P (ts ! lines_before line ts)"
      unfolding lines_before_def by (rule nth_length_takeWhile)
    moreover have "?P (ts ! j)" if "j < lines_before line ts" for j
      using that unfolding lines_before_def by (metis nth_mem set_takeWhileD takeWhile_nth)
    moreover have "lines_before line ts \<le> length ts" unfolding lines_before_def by (rule length_takeWhile_le)
    ultimately show ?thesis by (auto simp: not_less)
  qed
  have "\<exists>n u. TokenIndexAtLine line s = Some (n, u) \<and>
      (if \<exists>k\<in>set ts. line \<le> pos_line (tk_position k)
       then 0 \<le> n \<and> nat n < length ts \<and> line \<le> pos_line (tk_position (ts ! nat n)) \<and>
            (\<forall>j<nat n. pos_line (tk_position (ts ! j)) < line)
       else n = - 1)" for line
    using ts(4) [of line] first [of line] by (auto split: if_splits)
  then show ?thesis using ts(1-3) by blast
qed

theorem scan_to_agrees_witness:
  "\<exists>u. ScanTo 0 (new_scanner (chars ''a'') [] False) = Some u"
  using scan_to_agrees [of "new_scanner (chars ''a'') [] False"] by blast

subsection \<open>Identifiers and keywords\<close>

lemma ident_start_dispatch:
  assumes "IsIdentStartChar (c0 s)"
  shows "ScanToken s = ScanIdentChars True s"
  using assms by (auto simp: ScanToken_def IsIdentStartChar_def IsLetter_def operator_chars_def)

lemma no_white_space: "\<not> (c0 s = 32 \<or> c0 s = 9 \<or> c0 s = 10) \<Longrightarrow> ConsumeWhiteSpace s = Some s"
  unfolding ConsumeWhiteSpace_def by (subst read_while.simps) simp

lemma word_at_start_token: "word_at d (start_token s) = word_at d s" "mangled (start_token s) w = mangled s w"
  by (simp_all add: word_at_def text_at_def mangled_def start_token_def)

lemma keyword_words_distinct: "distinct (map snd keyword_table)"
  by code_simp

lemma find_word: "(k, w) \<in> set l \<Longrightarrow> distinct (map snd l) \<Longrightarrow> find (\<lambda>(k, v). v = w) l = Some (k, w)"
  by (induction l) (auto split: if_splits, force)

text \<open>C37: Where an identifier starts, the scanner takes the longest run of identifier
  characters. It is a keyword token exactly if the word is one of the keyword table,
  although the search stops at the first keyword that starts with a later letter; any other
  word is an identifier token with the word as literal, to which the library key is
  appended for a private name.\<close>

theorem scan_identifier_exact:
  assumes "scan_inv s" and "\<not> IsScanningString s" and "IsIdentStartChar (c0 s)"
  defines "w \<equiv> takeWhile IsIdentChar (drop (nat (lookahead_pos s)) (source s))"
  shows "\<exists>t. Scan s = Some t \<and> w \<noteq> [] \<and> tk_offset (current_token t) = lookahead_pos s \<and>
    tk_length (current_token t) = int (length w) \<and> lookahead_pos t = lookahead_pos s + int (length w) \<and>
    (\<forall>k. (k, w) \<in> set keyword_table \<longrightarrow> tk_kind (current_token t) = k \<and> tk_literal (current_token t) = Some w) \<and>
    (w \<notin> snd ` set keyword_table \<longrightarrow> tk_kind (current_token t) = kIDENT \<and>
       tk_literal (current_token t) = Some (if hd w = code CHR ''_'' \<and> \<not> disable_privacy s then w @ private_key s else w))"
proof -
  let ?s = "start_token (s\<lparr>newline_seen := False\<rparr>)"
  have s: "at_char ?s" "tok_ok ?s" "string_delimiter ?s = 0"
    using start_token_ok [of "s\<lparr>newline_seen := False\<rparr>"] assms(1,2)
    by (simp_all add: scan_inv_def at_char_def source_length_def IsScanningString_def)
  have c0: "c0 ?s = c0 s" "ident_char True (c0 s)" "IsIdentStartChar (c0 ?s)"
    using assms(3) by (auto simp: ident_char_def IsIdentStartChar_def IsIdentChar_def)
  have w: "word_at True ?s = w" "mangled ?s w = (if hd w = code CHR ''_'' \<and> \<not> disable_privacy s then w @ private_key s else w)"
    by (simp_all add: w_def word_at_def text_at_def mangled_def start_token_def ident_char_def [abs_def])
  obtain t where t: "ScanIdentChars True ?s = Some t" "w \<noteq> []" "token_start t = lookahead_pos s"
    "lookahead_pos t = lookahead_pos s + int (length w)" "scans ?s t"
    "(tk_kind (current_token t), tk_literal (current_token t)) =
      (case find (\<lambda>(k, v). v = w) keyword_table of Some (k, v) \<Rightarrow> (k, Some v) | None \<Rightarrow> (kIDENT, Some (mangled ?s w)))"
    using ScanIdentChars_correct [OF scans_refl [OF s(1,2)] HOL.refl, of True] c0 unfolding w(1) by auto
  have found: "find (\<lambda>(k, v). v = w) keyword_table = Some (k, w)" if "(k, w) \<in> set keyword_table" for k
    using that keyword_words_distinct by (rule find_word)
  have kind: "tk_kind (current_token t) \<noteq> kWHITESP"
    using t(6) keyword_table_kinds
    by (auto simp: find_Some_iff kFirstKeyword_def less_eq_Kind_def split: option.splits dest!: nth_mem)
  have "ConsumeWhiteSpace (s\<lparr>newline_seen := False\<rparr>) = Some (s\<lparr>newline_seen := False\<rparr>)"
    using assms(3) by (intro no_white_space) (auto simp: IsIdentStartChar_def IsLetter_def)
  then have "scan_loop (s\<lparr>newline_seen := False\<rparr>) = Some t"
    using assms(2) s(3) t(1) kind ident_start_dispatch [OF c0(3)]
    by (subst scan_loop.simps) (simp add: IsScanningString_def)
  then have "Scan s = Some (t\<lparr>current_token := (current_token t)\<lparr>tk_length := lookahead_pos t - token_start t\<rparr>\<rparr>)"
    by (simp add: Scan_def)
  moreover have "tk_offset (current_token t) = lookahead_pos s" using t(3,5) by (simp add: scans_def tok_ok_def)
  moreover have "tk_kind (current_token t) = k \<and> tk_literal (current_token t) = Some w" if "(k, w) \<in> set keyword_table" for k
    using t(6) found [OF that] by simp
  moreover have "tk_kind (current_token t) = kIDENT \<and> tk_literal (current_token t) =
      Some (if hd w = code CHR ''_'' \<and> \<not> disable_privacy s then w @ private_key s else w)" if "w \<notin> snd ` set keyword_table"
  proof -
    have "find (\<lambda>(k, v). v = w) keyword_table = None" using that by (force simp: find_None_iff)
    then show ?thesis using t(6) w(2) by simp
  qed
  ultimately show ?thesis using t(2-4) by simp
qed

theorem scan_identifier_exact_witness:
  "\<exists>t. Scan (new_scanner (chars ''while_ x'') [] False) = Some t \<and> tk_kind (current_token t) = kIDENT \<and>
     tk_length (current_token t) = 6"
proof -
  let ?s = "new_scanner (chars ''while_ x'') [] False"
  have s: "scan_inv ?s" "\<not> IsScanningString ?s" "IsIdentStartChar (c0 ?s)"
    using Reset_inv(1,4) by (simp_all add: new_scanner_def IsScanningString_def) code_simp
  have "takeWhile IsIdentChar (drop (nat (lookahead_pos ?s)) (source ?s)) = chars ''while_''"
    "chars ''while_'' \<notin> snd ` set keyword_table" by code_simp+
  then show ?thesis using scan_identifier_exact [OF s] by auto
qed

end
