(* ===== verification/Scanner_Strings.thy ===== *)
theory Scanner_Strings
  imports Scanner_Tokens
begin

text \<open>
  String literals and comments of the scanner: writing characters as a literal, with escape
  sequences where they are needed, and scanning it gives the characters back; and what the
  truncation of characters does to block comments.
\<close>

subsection \<open>Reading a known text\<close>

definition reading :: "scanner \<Rightarrow> scan_text \<Rightarrow> bool" where
  "reading s cs \<longleftrightarrow> at_char s \<and> text_at s = cs"

definition control :: "int \<Rightarrow> bool" where
  "control c \<longleftrightarrow> c = 0 \<or> c = 10 \<or> c = 13"

lemma reading_Cons:
  assumes "reading s (c # cs)" "\<not> control c"
  shows "c0 s = c" "reading (ReadChar s) cs" "lookahead_pos (ReadChar s) = lookahead_pos s + 1"
proof -
  have at: "at_char s" "text_at s = c # cs" using assms(1) by (simp_all add: reading_def)
  show c: "c0 s = c" using c0_text_at [OF at(1)] at(2) assms(2) by (simp add: norm_def control_def)
  have ok: "c0 s \<noteq> 0" "c0 s \<noteq> 10" using c assms(2) by (simp_all add: control_def)
  show "reading (ReadChar s) cs" using text_at_ReadChar [OF at(1) ok] at(2) at_char_ReadChar [OF at(1)] by (simp add: reading_def)
  show "lookahead_pos (ReadChar s) = lookahead_pos s + 1" by (rule ReadChar_next [OF at(1) ok])
qed

lemma reading_funpow:
  assumes "reading s (xs @ ys)" "list_all (\<lambda>c. \<not> control c) xs"
  shows "reading ((ReadChar ^^ length xs) s) ys \<and>
    lookahead_pos ((ReadChar ^^ length xs) s) = lookahead_pos s + int (length xs)"
  using assms
proof (induction xs arbitrary: s)
  case (Cons x xs)
  then have "reading (ReadChar s) (xs @ ys)" "lookahead_pos (ReadChar s) = lookahead_pos s + 1"
    using reading_Cons(2,3) [of s x "xs @ ys"] by simp_all
  then show ?case using Cons.IH [of "ReadChar s"] Cons.prems(2) by (simp add: funpow_swap1)
qed simp

lemma reading_LookaheadChar: "reading s cs \<Longrightarrow> LookaheadChar (int n) s = (if n < length cs then cs ! n else 0)"
  by (auto simp: reading_def text_at_def LookaheadChar_eq char_at_def at_char_def source_length_def nat_add_distrib)

lemma funpow_ReadChar_frame [simp]:
  "string_delimiter ((ReadChar ^^ n) s) = string_delimiter s" "string_is_multiline ((ReadChar ^^ n) s) = string_is_multiline s"
  "source ((ReadChar ^^ n) s) = source s" "current_token ((ReadChar ^^ n) s) = current_token s"
  "token_start ((ReadChar ^^ n) s) = token_start s"
  by (induction n) simp_all

lemma ReadChar_funpow: "ReadChar ((ReadChar ^^ n) s) = (ReadChar ^^ Suc n) s"
  by simp

subsection \<open>Hexadecimal escapes\<close>

definition hex_char :: "nat \<Rightarrow> int" where
  "hex_char d = of_char (''0123456789abcdef'' ! d)"

fun hex_text :: "nat \<Rightarrow> nat \<Rightarrow> nat list" where
  "hex_text 0 n = []"
| "hex_text (Suc k) n = hex_text k (n div 16) @ [n mod 16]"

lemma hex_char_digit:
  assumes "d < 16"
  shows "IsHexDigit (hex_char d)" "HexDigitToInt32 (hex_char d) = of_nat d" "\<not> control (hex_char d)"
proof -
  have "list_all (\<lambda>d. IsHexDigit (hex_char d) \<and> HexDigitToInt32 (hex_char d) = of_nat d \<and> \<not> control (hex_char d)) [0..<16]"
    by code_simp
  then show "IsHexDigit (hex_char d)" "HexDigitToInt32 (hex_char d) = of_nat d" "\<not> control (hex_char d)"
    using assms by (simp_all add: list_all_iff)
qed

lemma hex_text_length [simp]: "length (hex_text k n) = k"
  by (induction k n rule: hex_text.induct) simp_all

lemma hex_text_digits: "list_all (\<lambda>d. d < 16) (hex_text k n)"
  by (induction k n rule: hex_text.induct) simp_all

lemma hex_text_value: "foldl (\<lambda>v d. 16 * v + d) 0 (hex_text k n) = n mod 16 ^ k"
  by (induction k n rule: hex_text.induct) (simp_all add: mod_mult2_eq mult.commute)

lemma push_or_digit:
  assumes "d < 16"
  shows "push_bit 4 v OR (of_nat d :: uint32) = 16 * v + of_nat d"
proof -
  have "take_bit 4 (of_nat d :: uint32) = of_nat d" using assms by (simp add: take_bit_of_nat take_bit_nat_eq_self)
  then have "bit (of_nat d :: uint32) n \<Longrightarrow> n < 4" for n by (metis bit_take_bit_iff)
  then have "push_bit 4 v + of_nat d = push_bit 4 v OR (of_nat d :: uint32)"
    by (intro disjunctive_add) (auto simp: bit_push_bit_iff not_le)
  then show ?thesis by (simp add: push_bit_eq_mult mult.commute)
qed

lemma hex_loop_text:
  assumes "reading s (map hex_char ds @ cs)" "list_all (\<lambda>d. d < 16) ds" "length js = length ds"
  shows "hex_loop js m v s = (True, foldl (\<lambda>v d. 16 * v + of_nat d) v ds, (ReadChar ^^ length ds) s)"
  using assms
proof (induction ds arbitrary: js v s)
  case (Cons d ds)
  obtain j js' where js: "js = j # js'" using Cons.prems(3) by (cases js) auto
  have d: "d < 16" using Cons.prems(2) by simp
  note read = reading_Cons [OF Cons.prems(1) [simplified] hex_char_digit(3) [OF d]]
  show ?case
    using Cons.IH [OF read(2)] Cons.prems(2,3) hex_char_digit(1,2) [OF d] read(1) push_or_digit [OF d, of v]
    by (simp add: js funpow_swap1)
qed simp

definition escape :: "int \<Rightarrow> scan_text" where
  "escape c =
     (if control c \<or> c = 34 \<or> c = 92 \<or> c = 36
      then [92, code CHR ''u'', code CHR ''{''] @ map hex_char (hex_text 6 (nat c)) @ [code CHR ''}'']
      else [c])"

lemma foldl_of_nat: "foldl (\<lambda>v d. 16 * v + of_nat d) (of_nat n :: uint32) ds = of_nat (foldl (\<lambda>v d. 16 * v + d) n ds)"
proof (induction ds arbitrary: n)
  case (Cons d ds)
  have "16 * (of_nat n :: uint32) + of_nat d = of_nat (16 * n + d)" by simp
  then show ?case using Cons.IH [of "16 * n + d"] by simp
qed simp

lemma ScanEscapedCodePoint_text:
  assumes "reading s ([code CHR ''u'', code CHR ''{''] @ map hex_char (hex_text 6 n) @ [code CHR ''}''] @ cs)"
    and "n \<le> 0x10FFFF"
  shows "ScanEscapedCodePoint s = (True, of_nat n, (ReadChar ^^ 8) s)"
proof -
  let ?ds = "hex_text 6 n"
  have ctl: "\<not> control (code CHR ''u'')" "\<not> control (code CHR ''{'')" "\<not> control (code CHR ''}'')" by (simp_all add: control_def)
  note r1 = reading_Cons [OF assms(1) [unfolded append.simps] ctl(1)]
  note r2 = reading_Cons [OF r1(2) ctl(2)]
  have loop: "hex_loop [0..<6] 1 0 (ReadChar (ReadChar s)) = (True, of_nat n, (ReadChar ^^ 6) (ReadChar (ReadChar s)))"
    using hex_loop_text [OF r2(2) hex_text_digits, of "[0..<6]" 1 0] foldl_of_nat [of 0 ?ds] hex_text_value [of 6 n] assms(2)
    by simp
  have "list_all (\<lambda>c. \<not> control c) (map hex_char ?ds)" using hex_text_digits [of 6 n] hex_char_digit(3) by (auto simp: list_all_iff)
  then have "reading ((ReadChar ^^ 6) (ReadChar (ReadChar s))) (code CHR ''}'' # cs)"
    using reading_funpow [of "ReadChar (ReadChar s)" "map hex_char ?ds"] r2(2) by simp
  note close = reading_Cons(1) [OF this ctl(3)]
  have "LookaheadChar 1 s = code CHR ''{''" using reading_LookaheadChar [OF assms(1), of 1] by simp
  moreover have "unat (of_nat n :: uint32) \<le> 0x10FFFF" using assms(2) by (simp add: unat_of_nat)
  then have "\<not> (of_nat n :: uint32) > 0x10FFFF" by (simp add: word_less_nat_alt)
  moreover have "(ReadChar ^^ 6) (ReadChar (ReadChar s)) = (ReadChar ^^ 8) s" by (simp add: funpow_swap1 eval_nat_numeral)
  ultimately show ?thesis
    using r1(1) loop close by (simp add: ScanEscapedCodePoint_def ScanHexDigits_range_def)
qed

subsection \<open>A literal gives its characters back\<close>

lemma escape_ok: "list_all (\<lambda>c. \<not> control c) (escape c)" "escape c \<noteq> []" "hd (escape c) \<noteq> 34"
proof -
  have "list_all (\<lambda>c. \<not> control c) (map hex_char (hex_text 6 (nat c)))"
    using hex_text_digits [of 6 "nat c"] hex_char_digit(3) by (auto simp: list_all_iff)
  then show "list_all (\<lambda>c. \<not> control c) (escape c)" unfolding escape_def list_all_append by (simp add: control_def)
qed (simp_all add: escape_def)

lemma string_loop_escape:
  assumes "reading s (escape c @ cs)" "0 \<le> c" "c \<le> 0x10FFFF" "string_delimiter s = 34" "\<not> string_is_multiline s"
  shows "string_loop False acc s = string_loop False (acc @ [c]) ((ReadChar ^^ length (escape c)) s)"
proof (cases "control c \<or> c = 34 \<or> c = 92 \<or> c = 36")
  case True
  let ?t = "[code CHR ''u'', code CHR ''{''] @ map hex_char (hex_text 6 (nat c)) @ [code CHR ''}'']"
  have esc: "escape c = 92 # ?t" and len: "length (escape c) = 10" using True by (simp_all add: escape_def)
  have r: "c0 s = 92" "reading (ReadChar s) (?t @ cs)"
    using reading_Cons [of s 92 "?t @ cs"] assms(1) unfolding esc by (simp_all add: control_def)
  have "ScanEscapedCodePoint (ReadChar s) = (True, of_nat (nat c), (ReadChar ^^ 8) (ReadChar s))"
    using r(2) assms(2,3) by (intro ScanEscapedCodePoint_text [of _ _ cs]) simp_all
  moreover have "uint (of_nat (nat c) :: uint32) = c" using assms(2,3) by (simp add: unsigned_of_int take_bit_int_eq_self)
  moreover have "c0 (ReadChar s) = code CHR ''u''" using reading_Cons(1) [of "ReadChar s" "code CHR ''u''"] r(2) by (simp add: control_def)
  moreover have "ReadChar ((ReadChar ^^ 8) (ReadChar s)) = (ReadChar ^^ 10) s" by (simp add: funpow_swap1 eval_nat_numeral)
  ultimately show ?thesis
    using r(1) unfolding len by (subst string_loop.simps) (simp add: simple_escape_def Let_def)
next
  case False
  then have esc: "escape c = [c]" by (simp add: escape_def)
  have "c0 s = c" using reading_Cons(1) [of s c cs] assms(1) False by (simp add: esc)
  then show ?thesis using False assms(4,5) by (subst string_loop.simps) (simp add: esc control_def)
qed

lemma string_loop_text:
  assumes "reading s (concat (map escape cs) @ 34 # rest)" "list_all (\<lambda>c. 0 \<le> c \<and> c \<le> 0x10FFFF) cs"
    and "string_delimiter s = 34" "\<not> string_is_multiline s"
  shows "string_loop False acc s =
    Some (EndStringLiteral (string_token (acc @ cs) (Recognize kSTRING ((ReadChar ^^ length (concat (map escape cs))) s))))"
  using assms
proof (induction cs arbitrary: s acc)
  case Nil
  then have "c0 s = 34" using reading_Cons(1) [of s 34 rest] by (simp add: control_def)
  then show ?case using Nil by (subst string_loop.simps) simp
next
  case (Cons c cs)
  let ?s = "(ReadChar ^^ length (escape c)) s"
  have "reading ?s (concat (map escape cs) @ 34 # rest)"
    using reading_funpow [OF _ escape_ok(1)] Cons.prems(1) by simp
  then have "string_loop False (acc @ [c]) ?s =
      Some (EndStringLiteral (string_token ((acc @ [c]) @ cs) (Recognize kSTRING ((ReadChar ^^ length (concat (map escape cs))) ?s))))"
    using Cons.prems(2-4) by (intro Cons.IH) simp_all
  moreover have "(ReadChar ^^ length (concat (map escape cs))) ?s = (ReadChar ^^ length (concat (map escape (c # cs)))) s"
    by (simp add: funpow_add [symmetric] add.commute flip: comp_apply [of "ReadChar ^^ _"])
  ultimately show ?case
    using string_loop_escape [of s c "concat (map escape cs) @ 34 # rest" acc] Cons.prems by simp
qed

definition quote :: "scan_text \<Rightarrow> scan_text" where
  "quote cs = 34 # concat (map escape cs) @ [34]"

lemma quote_single_line:
  assumes "reading s (quote cs @ rest)" "cs \<noteq> [] \<or> rest = [] \<or> hd rest \<noteq> 34"
  shows "(LookaheadChar 1 s = 34 \<and> LookaheadChar 2 s = 34) = False"
proof (cases cs)
  case Nil
  then have "LookaheadChar 2 s = (case rest of [] \<Rightarrow> 0 | c # _ \<Rightarrow> c)"
    using reading_LookaheadChar [OF assms(1), of 2] by (simp add: quote_def split: list.split)
  then show ?thesis using assms(2) Nil by (auto split: list.splits)
next
  case (Cons c cs')
  obtain d ds where "escape c = d # ds" "d \<noteq> 34" using escape_ok(2,3) [of c] by (cases "escape c") auto
  then show ?thesis using reading_LookaheadChar [OF assms(1), of 1] Cons by (simp add: quote_def)
qed

lemma ScanLiteralString_single:
  assumes "c0 s = 34" "(LookaheadChar 1 s = 34 \<and> LookaheadChar 2 s = 34) = False"
  shows "ScanLiteralString is_raw s = string_loop is_raw [] (ReadChar (s\<lparr>string_delimiter := 34, string_is_multiline := False\<rparr>))"
proof -
  have same: "LookaheadChar n (s\<lparr>string_delimiter := d\<rparr>) = LookaheadChar n s" for n d by (simp add: LookaheadChar_eq)
  have "ScanLiteralString is_raw s =
      (let m = (LookaheadChar 1 s = 34 \<and> LookaheadChar 2 s = 34);
           t = ReadChar (s\<lparr>string_delimiter := 34, string_is_multiline := m\<rparr>)
       in string_loop is_raw [] (if m then let t = ReadChar (ReadChar t) in if c0 t = 10 then ReadChar t else t else t))"
    by (simp add: ScanLiteralString_def ScanLiteralStringChars_def BeginStringLiteral_def Let_def assms(1) same)
  then show ?thesis unfolding assms(2) by simp
qed

lemma quote_scanned:
  assumes "reading s (quote cs @ rest)" "list_all (\<lambda>c. 0 \<le> c \<and> c \<le> 0x10FFFF) cs" "cs \<noteq> [] \<or> rest = [] \<or> hd rest \<noteq> 34"
  defines "r \<equiv> s\<lparr>string_delimiter := 34, string_is_multiline := False\<rparr>"
  defines "t \<equiv> Recognize kSTRING ((ReadChar ^^ length (concat (map escape cs))) (ReadChar r))"
  shows "ScanLiteralString False s = Some (EndStringLiteral (string_token cs t)) \<and> c0 s = 34 \<and>
    lookahead_pos t = lookahead_pos s + int (length (quote cs)) \<and> current_token t = (current_token s)\<lparr>tk_kind := kSTRING\<rparr> \<and>
    token_start t = token_start s"
proof -
  have ctl: "\<not> control 34" by (simp add: control_def)
  have q: "quote cs @ rest = 34 # concat (map escape cs) @ 34 # rest" by (simp add: quote_def)
  have read: "reading r (quote cs @ rest)" "lookahead_pos r = lookahead_pos s"
    using assms(1) by (simp_all add: reading_def r_def text_at_def at_char_def source_length_def)
  have c0: "c0 s = 34" by (rule reading_Cons(1) [OF assms(1) [unfolded q] ctl])
  note r = reading_Cons(2,3) [OF read(1) [unfolded q] ctl]
  have "list_all (\<lambda>c. \<not> control c) (concat (map escape cs))" using escape_ok(1) by (induction cs) simp_all
  note body = reading_funpow [OF r(1) this]
  have "lookahead_pos t = lookahead_pos s + int (length (quote cs))"
    using reading_Cons(3) [OF conjunct1 [OF body] ctl] body r(2) read(2) unfolding t_def Recognize_def
    by (simp add: set_kind_def quote_def)
  moreover have "ScanLiteralString False s = Some (EndStringLiteral (string_token cs t))"
    using ScanLiteralString_single [OF c0 quote_single_line [OF assms(1,3)], of False] string_loop_text [OF r(1) assms(2), of "[]"]
    by (simp add: r_def t_def)
  ultimately show ?thesis using c0 by (simp add: t_def Recognize_def set_kind_def r_def)
qed

text \<open>C38: Writing any characters as a string literal, with a code point escape for each that
  cannot stand for itself, and scanning it yields one string token over the whole literal
  whose value is the characters. The empty literal must not be followed by another quote,
  since three quotes open a literal of several lines.\<close>

theorem string_literal_round_trip:
  assumes "scan_inv s" and "\<not> IsScanningString s" and "list_all (\<lambda>c. 0 \<le> c \<and> c \<le> 0x10FFFF) cs"
    and "drop (nat (lookahead_pos s)) (source s) = quote cs @ rest" and "cs \<noteq> [] \<or> rest = [] \<or> hd rest \<noteq> 34"
  shows "\<exists>t. Scan s = Some t \<and> tk_kind (current_token t) = kSTRING \<and> tk_literal (current_token t) = Some cs \<and>
    tk_offset (current_token t) = lookahead_pos s \<and> tk_length (current_token t) = int (length (quote cs)) \<and>
    \<not> IsScanningString t"
proof -
  let ?s = "s\<lparr>newline_seen := False\<rparr>"
  let ?b = "start_token ?s"
  have "at_char ?s" using assms(1) by (simp add: scan_inv_def at_char_def source_length_def)
  then have "reading ?b (quote cs @ rest)" using start_token_ok assms(4) by (simp add: reading_def text_at_def)
  from quote_scanned [OF this assms(3,5)] obtain t where t: "ScanLiteralString False ?b = Some (EndStringLiteral (string_token cs t))"
    "c0 s = 34" "lookahead_pos t = lookahead_pos s + int (length (quote cs))"
    "current_token t = (current_token ?b)\<lparr>tk_kind := kSTRING\<rparr>" "token_start t = lookahead_pos s"
    by auto
  let ?t = "EndStringLiteral (string_token cs t)"
  have tok: "tk_kind (current_token ?t) = kSTRING" "tk_literal (current_token ?t) = Some cs" "string_delimiter ?t = 0"
      "tk_offset (current_token ?t) = lookahead_pos s" "token_start ?t = lookahead_pos s" "lookahead_pos ?t = lookahead_pos t"
    using t(4,5) by (simp_all add: EndStringLiteral_def string_token_def set_literal_def) (simp add: start_token_def)
  have "ConsumeWhiteSpace ?s = Some ?s" unfolding ConsumeWhiteSpace_def using t(2) by (subst read_while.simps) simp
  moreover have "ScanToken ?b = Some ?t" using t(1,2) by (simp add: ScanToken_def operator_chars_def)
  ultimately have "scan_loop ?s = Some ?t"
    using assms(2) tok(1) by (subst scan_loop.simps) (simp add: IsScanningString_def)
  then show ?thesis using tok t(3) by (simp add: Scan_def IsScanningString_def)
qed

theorem string_literal_round_trip_witness:
  "\<exists>t. Scan (new_scanner (quote [104, 34, 10]) [] False) = Some t \<and> tk_literal (current_token t) = Some [104, 34, 10]"
proof -
  let ?s = "new_scanner (quote [104, 34, 10]) [] False"
  have s: "scan_inv ?s" "\<not> IsScanningString ?s" "drop (nat (lookahead_pos ?s)) (source ?s) = quote [104, 34, 10] @ []"
    using Reset_inv by (simp_all add: new_scanner_def IsScanningString_def)
  have "list_all (\<lambda>c. 0 \<le> c \<and> c \<le> 0x10FFFF) [104, 34, 10 :: int]" by simp
  then show ?thesis using string_literal_round_trip [OF s(1,2) _ s(3)] by blast
qed

subsection \<open>Block comments\<close>

text \<open>What remains of a text in which \<open>n\<close> comments are open once they are closed, and how
  many are still open at the end of the text or before a null character. A pair of
  characters opens or closes a comment when \<open>view\<close> shows the first one as the slash or
  the asterisk: \<open>view\<close> is the identity for the comments of the language, and the truncation
  \<open>to_char\<close> for those of the scanner.\<close>

fun comment_rest :: "(int \<Rightarrow> int) \<Rightarrow> nat \<Rightarrow> scan_text \<Rightarrow> nat \<times> scan_text" where
  "comment_rest view n (c # d # cs) =
     (if d = 0 then (n, d # cs)
      else if view c = code CHR ''/'' \<and> d = code CHR ''*'' then comment_rest view (Suc n) cs
      else if view c = code CHR ''*'' \<and> d = code CHR ''/''
           then if n = 1 then (0, cs) else comment_rest view (n - 1) cs
      else comment_rest view n (d # cs))"
| "comment_rest view n cs = (n, [])"

lemma comment_rest_cong:
  assumes "\<And>c. c \<in> set cs \<Longrightarrow> (view c = 47 \<longleftrightarrow> view' c = 47) \<and> (view c = 42 \<longleftrightarrow> view' c = 42)"
  shows "comment_rest view n cs = comment_rest view' n cs"
  using assms by (induction view n cs rule: comment_rest.induct) auto

lemma to_char_byte: "0 \<le> c \<Longrightarrow> c < 256 \<Longrightarrow> 0 \<le> d \<Longrightarrow> d < 128 \<Longrightarrow> to_char c = d \<longleftrightarrow> c = d"
  by (auto simp: to_char_def)

lemma to_char_norm: "to_char (norm c) = 47 \<longleftrightarrow> to_char c = 47" "to_char (norm c) = 42 \<longleftrightarrow> to_char c = 42"
  by (auto simp: norm_def to_char_def)

text \<open>One step of the scanner over the text: a pair of carriage return and line feed is one
  character, which no comment depends on.\<close>

lemma text_at_step:
  assumes "at_char s"
  shows "text_at (ReadChar s) = drop (if \<exists>cs. text_at s = 13 # 10 # cs then 2 else 1) (text_at s)"
proof (cases "lookahead_pos s < source_length s")
  case True
  have p: "0 \<le> lookahead_pos s" "nat (lookahead_pos s) < length (source s)" "c0 s = norm (char_at (source s) (lookahead_pos s))"
    using assms True by (auto simp: at_char_def source_length_def)
  have t: "text_at s = source s ! nat (lookahead_pos s) # drop (Suc (nat (lookahead_pos s))) (source s)"
    using p(2) by (simp add: text_at_def Cons_nth_drop_Suc)
  have "(\<exists>cs. text_at s = 13 # 10 # cs) \<longleftrightarrow> advance s = 2" and "advance s = 1 \<or> advance s = 2"
    using p unfolding t by (auto simp: advance_def norm_def char_at_def nat_add_distrib Cons_nth_drop_Suc [symmetric]
        drop_Suc_Cons not_less split: if_splits)
  then show ?thesis using ReadChar_inside(1) [OF p(1) True] p(1)
    by (auto simp: text_at_def nat_add_distrib add.commute drop_drop)
next
  case False
  then have "text_at s = []" "ReadChar s = s" using assms ReadChar_end by (auto simp: text_at_def at_char_def source_length_def)
  then show ?thesis by simp
qed

lemma comment_rest_step:
  assumes "at_char s"
  shows "comment_rest to_char n (text_at s) =
    (case text_at (ReadChar s) of
       [] \<Rightarrow> (n, [])
     | d # cs \<Rightarrow>
         if d = 0 then (n, d # cs)
         else if to_char (c0 s) = code CHR ''/'' \<and> d = code CHR ''*'' then comment_rest to_char (Suc n) cs
         else if to_char (c0 s) = code CHR ''*'' \<and> d = code CHR ''/''
              then if n = 1 then (0, cs) else comment_rest to_char (n - 1) cs
         else comment_rest to_char n (d # cs))"
proof (cases "\<exists>cs. text_at s = 13 # 10 # cs")
  case True
  then obtain cs where cs: "text_at s = 13 # 10 # cs" by blast
  then have "text_at (ReadChar s) = cs" "c0 s = 10" using text_at_step [OF assms] c0_text_at [OF assms] by (simp_all add: norm_def)
  then show ?thesis unfolding cs by (cases cs) (simp_all add: to_char_def)
next
  case False
  then have t: "text_at (ReadChar s) = drop 1 (text_at s)" using text_at_step [OF assms] by simp
  show ?thesis
  proof (cases "text_at s")
    case (Cons c cs)
    then have "c0 s = norm c" using c0_text_at [OF assms] by simp
    then show ?thesis using to_char_norm [of c] unfolding t Cons by (cases cs) simp_all
  qed (simp add: t)
qed

lemma block_comment_loop_text:
  assumes "at_char s" "0 < n"
  shows "\<exists>t. block_comment_loop (int n) s = Some (int (fst (comment_rest to_char n (text_at s))), t) \<and>
    text_at t = snd (comment_rest to_char n (text_at s)) \<and> at_char t \<and> source t = source s \<and> current_token t = current_token s"
  using assms
proof (induction "remaining s" arbitrary: n s rule: less_induct)
  case less
  let ?t = "ReadChar s" and ?u = "ReadChar (ReadChar s)"
  have at: "at_char ?t" "at_char ?u" using less.prems(1) at_char_ReadChar by blast+
  note step = comment_rest_step [OF less.prems(1), of n]
  show ?case
  proof (cases "c0 ?t = 0")
    case True
    then have "comment_rest to_char n (text_at s) = (n, text_at ?t)"
      using step c0_text_at [OF at(1)] by (auto simp: norm_eq_0 split: list.splits)
    then show ?thesis using True at(1) by (subst block_comment_loop.simps) simp
  next
    case False
    then obtain d cs where ds: "text_at ?t = d # cs" "c0 ?t = norm d" "d \<noteq> 0"
      using c0_text_at [OF at(1)] by (auto simp: norm_eq_0 split: list.splits)
    have d: "c0 ?t = 42 \<longleftrightarrow> d = 42" "c0 ?t = 47 \<longleftrightarrow> d = 47" unfolding ds(2) by (auto simp: norm_def)
    have u: "text_at ?u = cs" if "d = 42 \<or> d = 47" using text_at_ReadChar [OF at(1) False] ds(1) d that by auto
    have less_t: "remaining ?t < remaining s"
      using ReadChar_progress [OF less.prems(1) False] at(1) by (intro remaining_less) simp_all
    moreover have "remaining ?u < remaining ?t" by (rule remaining_ReadChar [OF at(1) False])
    ultimately have less_u: "remaining ?u < remaining s" by simp
    note IH_t = less.hyps [OF less_t at(1)] and IH_u = less.hyps [OF less_u at(2)]
    consider (opens) "to_char (c0 s) = 47" "d = 42" | (closes) "to_char (c0 s) = 42" "d = 47"
      | (other) "\<not> (to_char (c0 s) = 47 \<and> d = 42)" "\<not> (to_char (c0 s) = 42 \<and> d = 47)" by blast
    then show ?thesis
    proof cases
      case opens
      have "block_comment_loop (int n) s = block_comment_loop (int n + 1) ?u"
        using opens d False by (subst block_comment_loop.simps) (simp add: Let_def)
      also have "int n + 1 = int (Suc n)" by simp
      finally show ?thesis using IH_u [of "Suc n"] u opens step ds(1) by simp
    next
      case closes
      have loop: "block_comment_loop (int n) s = (if int n - 1 = 0 then Some (int n - 1, ?u) else block_comment_loop (int n - 1) ?u)"
        using closes d False by (subst block_comment_loop.simps) (simp add: Let_def)
      have n: "int n - 1 = int (n - 1)" using less.prems(2) by simp
      show ?thesis
      proof (cases "n = 1")
        case True
        then show ?thesis using loop u closes step ds(1) at(2) by simp
      next
        case False
        then have n1: "0 < n - 1" "int (n - 1) \<noteq> 0" using less.prems(2) by simp_all
        have "block_comment_loop (int n) s = block_comment_loop (int (n - 1)) ?u"
          unfolding loop n if_not_P [OF n1(2)] ..
        moreover have "comment_rest to_char n (text_at s) = comment_rest to_char (n - 1) (text_at ?u)"
          using False u closes step ds(1) by simp
        ultimately show ?thesis using IH_u [OF n1(1)] by (simp only: ReadChar_frame)
      qed
    next
      case other
      then show ?thesis using d False step ds(1,3) IH_t [of n] less.prems(2)
        by (subst block_comment_loop.simps) (auto simp: Let_def)
    qed
  qed
qed

text \<open>C39: \<open>ConsumeBlockComment\<close>, called on the asterisk that follows a slash, returns for every
  text and stops where the nested comment ends, or at the end of the text, or before a null
  character, with a token that tells whether the comment was closed. It truncates the
  first character of each pair to eight bits: for texts of characters below 256 this is the
  nested comment of the language, but any character from 256 on whose low byte is that of
  the asterisk closes a comment when a slash follows, and any whose low byte is that of the
  slash opens one when an asterisk follows.\<close>

theorem block_comment_exact:
  assumes "at_char s" and "text_at s = code CHR ''*'' # cs"
  shows "(\<exists>t. ConsumeBlockComment s = Some t \<and> source t = source s \<and> text_at t = snd (comment_rest to_char 1 cs) \<and>
      tk_kind (current_token t) = (if fst (comment_rest to_char 1 cs) = 0 then kWHITESP else kILLEGAL)) \<and>
    (list_all (\<lambda>c. 0 \<le> c \<and> c < 256) cs \<longrightarrow> comment_rest to_char 1 cs = comment_rest id 1 cs) \<and>
    (cs = c # code CHR ''/'' # rest \<and> 256 \<le> c \<and> c mod 256 = code CHR ''*'' \<longrightarrow>
      comment_rest to_char 1 cs = (0, rest) \<and> comment_rest id 1 cs = comment_rest id 1 (code CHR ''/'' # rest)) \<and>
    (cs = c # code CHR ''*'' # rest \<and> 256 \<le> c \<and> c mod 256 = code CHR ''/'' \<longrightarrow>
      comment_rest to_char 1 cs = comment_rest to_char 2 rest \<and> comment_rest id 1 cs = comment_rest id 1 (code CHR ''*'' # rest))"
proof -
  have at: "at_char (ReadChar s)" by (rule at_char_ReadChar [OF assms(1)])
  have cs: "text_at (ReadChar s) = cs"
    using text_at_ReadChar [OF assms(1)] c0_text_at [OF assms(1)] assms(2) by (simp add: norm_def)
  obtain t where "block_comment_loop 1 (ReadChar s) = Some (int (fst (comment_rest to_char 1 cs)), t)"
      "text_at t = snd (comment_rest to_char 1 cs)" "source t = source s"
    using block_comment_loop_text [OF at, of 1] unfolding cs by auto
  then have "\<exists>t. ConsumeBlockComment s = Some t \<and> source t = source s \<and> text_at t = snd (comment_rest to_char 1 cs) \<and>
      tk_kind (current_token t) = (if fst (comment_rest to_char 1 cs) = 0 then kWHITESP else kILLEGAL)"
    by (simp add: ConsumeBlockComment_def set_kind_def text_at_def)
  moreover have "comment_rest to_char 1 cs = comment_rest id 1 cs" if "list_all (\<lambda>c. 0 \<le> c \<and> c < 256) cs"
  proof (rule comment_rest_cong)
    show "(to_char c = 47 \<longleftrightarrow> id c = 47) \<and> (to_char c = 42 \<longleftrightarrow> id c = 42)" if "c \<in> set cs" for c
      using that \<open>list_all _ cs\<close> to_char_byte [of c 47] to_char_byte [of c 42] by (simp add: list_all_iff)
  qed
  moreover have "comment_rest to_char 1 cs = (0, rest) \<and> comment_rest id 1 cs = comment_rest id 1 (code CHR ''/'' # rest)"
    if "cs = c # code CHR ''/'' # rest" "256 \<le> c" "c mod 256 = code CHR ''*''"
    using that(2,3) unfolding that(1) comment_rest.simps(1) by (simp add: to_char_def)
  moreover have "comment_rest to_char 1 cs = comment_rest to_char 2 rest \<and> comment_rest id 1 cs = comment_rest id 1 (code CHR ''*'' # rest)"
    if "cs = c # code CHR ''*'' # rest" "256 \<le> c" "c mod 256 = code CHR ''/''"
    using that(2,3) unfolding that(1) comment_rest.simps(1) by (simp add: to_char_def numeral_2_eq_2)
  ultimately show ?thesis by blast
qed

theorem block_comment_exact_witness:
  "\<exists>s t. text_at s = chars ''*'' @ [0x12A] @ chars ''/ x'' \<and> ConsumeBlockComment s = Some t \<and> text_at t = chars '' x'' \<and>
     tk_kind (current_token t) = kWHITESP"
proof -
  let ?s = "new_scanner (chars ''/*'' @ [0x12A] @ chars ''/ x'') [] False"
  have at: "at_char ?s" using Reset_inv by (simp add: new_scanner_def scan_inv_def)
  have "text_at ?s = chars ''/*'' @ [0x12A] @ chars ''/ x''" using Reset_inv by (simp add: text_at_def new_scanner_def)
  then have "text_at (ReadChar ?s) = code CHR ''*'' # 0x12A # code CHR ''/'' # chars '' x''"
    using text_at_ReadChar [OF at] c0_text_at [OF at] by (simp add: norm_def)
  note star = this
  from block_comment_exact [OF at_char_ReadChar [OF at] star, of "0x12A" "chars '' x''"]
  have "\<exists>t. ConsumeBlockComment (ReadChar ?s) = Some t \<and> text_at t = chars '' x'' \<and> tk_kind (current_token t) = kWHITESP"
    by (auto simp del: comment_rest.simps)
  with star show ?thesis by fastforce
qed

end
