(* ===== verification/Spec2Isabelle.thy ===== *)
theory Spec2Isabelle
  imports Dart_Integers Hash_Map Message_Routing Utf8 Bitmap Scanner_Stream Scanner_Strings
begin

text \<open>
  A verification development for the Dart runtime: parts of the virtual machine under
  \<open>runtime/vm\<close>, of the natives of the core library under \<open>runtime/lib\<close>, and of the support code
  under \<open>runtime/platform\<close> and \<open>runtime/bin\<close>. The model is that of the 64-bit build.

  \<^bold>\<open>The program.\<close> The VM reads Dart source text with a scanner, compiles it and runs it in
  isolates. Integers of Dart programs are small integers, 64-bit integers or bigints; the
  natives of the core library pick the smallest class that holds a result. Isolates exchange
  messages through ports: the port map finds the handler of a port, the handler keeps the
  message in one of two queues, and a task of the thread pool takes it from there. Strings
  enter and leave the VM as UTF-8. The compiler records in bitmaps which slots of a frame
  hold objects, for the garbage collector. The embedder keeps its tables in a hash map.

  \<^bold>\<open>The theories.\<close>

  \<^item> \<open>Dart_Prelude\<close>: machine types, the collection \<open>word_nat\<close>, lemmas on words.
  \<^item> \<open>Dart_Utils\<close>: \<open>runtime/platform/utils.h\<close> and \<open>utils.cc\<close>. Alignment, powers of two,
    bit counts and range checks compute what their names say; the hash functions are defined only.
  \<^item> \<open>Bigint_Base\<close>, \<open>Bigint_Mul\<close>, \<open>Bigint_Shift\<close>, \<open>Bigint_Div\<close>, \<open>Bigint_Bits\<close>, \<open>Bigint_Conv\<close> and
    \<open>Bigint_Strings\<close>: \<open>runtime/vm/bigint_operations.cc\<close>. A bigint is the record of its signed
    length and its list of 28-bit digits in 32-bit chunks; the definitions bear the names of the
    member functions, and a digit loop is a recursion over the lists of digits. The theorems
    say that each operation keeps the invariant (as many digits as the length says, digits in
    range, no leading zero) and computes the operation of the integers, and that parsing
    undoes printing. The tests whether a bigint fits into a machine integer are exact up to
    \<open>2 ^ 31\<close> bits, from where the bit count of \<open>AbsFitsIntoUint64\<close>, a 32-bit \<open>int\<close>, wraps around;
    the buffer of \<open>ToDecimalCString\<close> is overrun by at most six bytes, within the rounding of
    the allocator.
  \<^item> \<open>Integer_Interface\<close>: the locales \<open>int_repr\<close>, \<open>int_order\<close>, \<open>int_ring\<close> and \<open>int_division\<close>, interpreted
    for bigints and for Dart integers.
  \<^item> \<open>Dart_Integers\<close>: the integer classes of \<open>runtime/vm/object.cc\<close> and the natives of
    \<open>runtime/lib/integers.cc\<close>. Arithmetic, comparison, bit operations, shifts and literals are
    exact over all combinations of classes, results have the smallest class, and two
    exceptions are shown: the sign of \<open>%\<close> depends on the class of the operands, and
    \<open>Bigint::Equals\<close> ignores the sign.
  \<^item> \<open>Dictionary_Interface\<close>, \<open>Probing\<close> and \<open>Hash_Map\<close>: \<open>runtime/bin/hashmap.cc\<close>. The table is the
    list of its entries; the locale \<open>hash_contract\<close> states what the match function must satisfy,
    and the map is shown to refine a finite map through \<open>limited_dictionary\<close>.
  \<^item> \<open>Message_Queue\<close>: \<open>runtime/vm/message.cc\<close>. Messages live in an explicit heap and a queue is
    linked through their \<open>next_\<close> fields; it refines a list (locale \<open>shared_queue\<close>).
  \<^item> \<open>Message_Handler\<close>: \<open>runtime/vm/message_handler.cc\<close>. The operations of a handler, and the
    step relation \<open>handler_step\<close> that interleaves the critical sections of the task with those of
    other threads, with the messages taken from a queue and being handled as part of the state;
    its invariant holds in every reachable state, and a task runs the start callback and
    handles the queued messages in order up to the first error.
  \<^item> \<open>Port_Map\<close> and \<open>Message_Routing\<close>: \<open>runtime/vm/port.cc\<close> with the handlers of native ports. A
    step is one critical section: \<open>ClosePort\<close> and \<open>ClosePorts\<close> release the mutex before they flush
    the queues, so each is several definitions (\<open>remove_port\<close>, \<open>flush_port\<close>, \<open>release_handler\<close>;
    \<open>remove_ports\<close>, \<open>flush_ports\<close>) and \<open>vm_step\<close> keeps the calls in progress. The table of ports
    refines a map, queued messages are for ports that are open or being closed, and a closed
    port leaves no message behind once its call is over.
  \<^item> \<open>Utf8\<close>: class \<open>Utf8\<close> of \<open>runtime/vm/unicode.cc\<close>. Encoding and decoding are inverse, and the
    decoder accepts nothing but encodings.
  \<^item> \<open>Bit_Store_Interface\<close> and \<open>Bitmap\<close>: \<open>runtime/vm/bitmap.cc\<close> and the stack maps of
    \<open>runtime/vm/object.cc\<close>. Both provide the locale \<open>bit_store\<close>; the builder refines a finite set
    and stack maps replicate it.
  \<^item> \<open>Token\<close>: \<open>runtime/vm/token.h\<close>. The macro lists are tables, a kind is its value.
  \<^item> \<open>Scanner\<close>: \<open>runtime/vm/scanner.cc\<close>, the state of the scanner as a record with the source's
    fields and one definition per member function; the \<open>switch\<close> of \<open>Scan\<close> is \<open>ScanToken\<close>, with
    the operators in \<open>ScanOperator\<close>. \<open>Scanner_Reads\<close> and \<open>Scanner_Tokens\<close> hold the invariant;
    \<open>Scanner_Stream\<close> shows that scanning ends for every text, where the tokens lie, and which
    words are keywords, and \<open>Scanner_Strings\<close> that string literals are read back and
    what a block comment skips, which depends on the low bytes of its characters only.

  \<^bold>\<open>Conventions.\<close> Fixed-width unsigned integers are words; \<open>intptr_t\<close> is a word or, where the
  code does no arithmetic near its limits, an integer. A result \<open>None\<close> stands for a loop that
  does not end, an access outside a table or through a null pointer, or an abort of the VM;
  the properties say that such an operation returns, or for which inputs it does not. Natives return a sum whose left
  side is the thrown exception. Loops whose end depends on the state are partial functions into
  the option type, so no fuel is needed: that they end is proved by a measure (the remaining
  text of the scanner, the free entries of a table, the size of a quotient digit, the length of
  a linked list). The model is that of the release build: assertions are left out, except where
  the text of a theory says otherwise.

  \<^bold>\<open>Parameters.\<close> The hash values and the match function of the hash map, the handling of a
  message by an isolate, which handlers the port map owns, and the contents of freshly
  allocated memory are arguments of the definitions that use them.

  \<^bold>\<open>Not modelled.\<close> The parser, the flow graph and the code generators, the assemblers and the
  debugger work on the object heap as a whole and emit machine code; they need a semantics of
  Dart and of the processors. The garbage collector, the snapshots and the embedding API depend
  on the layout of every object class; the free list and the sweeper, and the reader of JSON
  messages in \<open>runtime/platform\<close>, could be modelled by themselves and are not yet. The thread
  pool, the timers, the operating system layer and the input and output of \<open>runtime/bin\<close> consist of calls to the system. The case mapping of
  \<open>runtime/vm/unicode.h\<close> is a lookup in tables of five thousand generated entries. The Dart
  libraries under \<open>corelib\<close>, \<open>lib\<close>, \<open>runtime/lib\<close> and \<open>runtime/bin\<close> are programs in Dart, not part
  of the C++ runtime. The list of components says the same part by part.
\<close>

end
